(* ===== verification/Prelude.thy ===== *)
theory Prelude
  imports Main "HOL-Library.Word"
begin

unbundle bit_operations_syntax

text \<open>
  Shared vocabulary of the development.

  \<^item> \<open>UErrorCode\<close>: the status codes of \<open>unicode/utypes.h\<close> that the modelled code sets or
    tests, with \<open>U_FAILURE\<close> and \<open>U_SUCCESS\<close>.
  \<^item> \<open>int32_t\<close> values are HOL integers.  The C++ code keeps them inside the 32-bit range by
    explicit checks against \<open>INT32_MAX\<close>; those checks are written out in the model, so that the
    bounds are theorems and not assumptions of the type.  Where the code computes without a check and an argument can make the
    result overflow, the model has the overflow: the two's complement value (\<open>wrap_int32\<close>), or no result.
  \<^item> \<open>uprv_malloc\<close> and \<open>uprv_realloc\<close> belong to the platform: every operation that allocates
    takes the allocator's answer as an argument \<open>alloc\<close>, a function from the number of bytes
    requested to success or failure.
  \<^item> The two array idioms of the C++ code, shifting a tail up or down by one slot in a loop, as
    functions on lists, with the lemmas that say what the loops compute.
\<close>

named_theorems vec_simps "the abstraction and invariant of the vector classes"
named_theorems inv_simps "the meaning of inversion lists"
named_theorems bits_arith "bit operations on integers as division and remainder"

type_synonym UChar32 = int
type_synonym allocator = "int \<Rightarrow> bool"

section \<open>Status codes\<close>

datatype UErrorCode =
    U_STRING_NOT_TERMINATED_WARNING
  | U_ZERO_ERROR
  | U_ILLEGAL_ARGUMENT_ERROR
  | U_MEMORY_ALLOCATION_ERROR
  | U_INDEX_OUTOFBOUNDS_ERROR
  | U_INVALID_CHAR_FOUND
  | U_TRUNCATED_CHAR_FOUND
  | U_ILLEGAL_CHAR_FOUND
  | U_BUFFER_OVERFLOW_ERROR
  | U_NO_WRITE_PERMISSION
  | U_INTERNAL_PROGRAM_ERROR

text \<open>\<open>U_SUCCESS(x)\<close> is \<open>x <= U_ZERO_ERROR\<close>: warnings are negative codes, errors positive ones.\<close>

fun U_FAILURE :: "UErrorCode \<Rightarrow> bool" where
  "U_FAILURE U_STRING_NOT_TERMINATED_WARNING = False"
| "U_FAILURE U_ZERO_ERROR = False"
| "U_FAILURE _ = True"

abbreviation U_SUCCESS :: "UErrorCode \<Rightarrow> bool" where
  "U_SUCCESS ec \<equiv> \<not> U_FAILURE ec"

abbreviation (input) INT32_MAX :: int where
  "INT32_MAX \<equiv> 0x7fffffff"

text \<open>
  The value of a 32-bit result in two's complement, for the places where the source computes in \<open>int32_t\<close> without a check.
\<close>

definition wrap_int32 :: "int \<Rightarrow> int" where
  "wrap_int32 x = (x + 2 ^ 31) mod 2 ^ 32 - 2 ^ 31"

lemma wrap_int32_small: "- (2 ^ 31) \<le> x \<Longrightarrow> x < 2 ^ 31 \<Longrightarrow> wrap_int32 x = x"
  by (simp add: wrap_int32_def mod_pos_pos_trivial)

lemma wrap_int32_range: "- (2 ^ 31) \<le> wrap_int32 x \<and> wrap_int32 x < 2 ^ 31"
  using pos_mod_bound [of "2 ^ 32" "x + 2 ^ 31"] pos_mod_sign [of "2 ^ 32" "x + 2 ^ 31"] by (simp add: wrap_int32_def)

section \<open>Array loops\<close>

text \<open>\<open>for (i=count; i>index; --i) elements[i] = elements[i-1];\<close>\<close>

fun shift_up :: "'e list \<Rightarrow> nat \<Rightarrow> nat \<Rightarrow> 'e list" where
  "shift_up xs i lo = (if lo < i then shift_up (xs[i := xs ! (i - 1)]) (i - 1) lo else xs)"

text \<open>\<open>for (i=index; i<count-1; ++i) elements[i] = elements[i+1];\<close>\<close>

function shift_down :: "'e list \<Rightarrow> nat \<Rightarrow> nat \<Rightarrow> 'e list" where
  "shift_down xs i n = (if Suc i < n then shift_down (xs[i := xs ! Suc i]) (Suc i) n else xs)"
  by pat_completeness auto
termination
  by (relation "measure (\<lambda>(xs, i, n). n - i)") auto

text \<open>
  \<open>while (min != max) { probe = (min + max) / 2; ... }\<close>: the binary search of the two
  \<open>sortedInsert\<close> methods; \<open>gt\<close> says that the probed element is greater than the new one.
\<close>

function insertion_point :: "('e \<Rightarrow> bool) \<Rightarrow> 'e list \<Rightarrow> nat \<Rightarrow> nat \<Rightarrow> nat" where
  "insertion_point gt xs lo hi =
     (if lo < hi then
        (let probe = (lo + hi) div 2 in
         if gt (xs ! probe) then insertion_point gt xs lo probe
         else insertion_point gt xs (probe + 1) hi)
      else lo)"
  by pat_completeness auto
termination
  by (relation "measure (\<lambda>(gt, xs, lo, hi). hi - lo)") auto

declare shift_up.simps [simp del] shift_down.simps [simp del] insertion_point.simps [simp del]

lemma length_shift_up [simp]: "length (shift_up xs i lo) = length xs"
  by (induction xs i lo rule: shift_up.induct) (subst shift_up.simps, simp)

lemma length_shift_down [simp]: "length (shift_down xs i n) = length xs"
  by (induction xs i n rule: shift_down.induct) (subst shift_down.simps, simp)

lemma shift_up_nth:
  assumes "i < length xs" and "k < length xs"
  shows "shift_up xs i lo ! k = (if lo < k \<and> k \<le> i then xs ! (k - 1) else xs ! k)"
  using assms
proof (induction xs i lo rule: shift_up.induct)
  case (1 xs i lo)
  show ?case
  proof (cases "lo < i")
    case True
    with 1 show ?thesis
      by (subst shift_up.simps) (auto simp: nth_list_update le_Suc_eq not_le)
  qed (use 1 in \<open>subst shift_up.simps; auto\<close>)
qed

lemma shift_down_nth:
  assumes "n \<le> length xs" and "k < length xs"
  shows "shift_down xs i n ! k = (if i \<le> k \<and> Suc k < n then xs ! Suc k else xs ! k)"
  using assms
proof (induction xs i n rule: shift_down.induct)
  case (1 xs i n)
  show ?case
  proof (cases "Suc i < n")
    case True
    with 1 show ?thesis
      by (subst shift_down.simps) (auto simp: nth_list_update not_le less_Suc_eq_le)
  qed (use 1 in \<open>subst shift_down.simps; auto\<close>)
qed

text \<open>Inserting by shifting up and writing is list insertion on the used prefix.\<close>

lemma take_shift_up_insert:
  assumes "lo \<le> n" and "n < length xs"
  shows "take (Suc n) ((shift_up xs n lo)[lo := e]) = take lo xs @ e # drop lo (take n xs)"
proof (rule nth_equalityI)
  show "length (take (Suc n) ((shift_up xs n lo)[lo := e])) =
      length (take lo xs @ e # drop lo (take n xs))"
    using assms by simp
next
  fix k assume "k < length (take (Suc n) ((shift_up xs n lo)[lo := e]))"
  then have k: "k \<le> n" "k < length xs" using assms by auto
  show "take (Suc n) ((shift_up xs n lo)[lo := e]) ! k =
      (take lo xs @ e # drop lo (take n xs)) ! k"
    using assms k
    by (auto simp: nth_append nth_list_update shift_up_nth nth_Cons' not_less)
qed

text \<open>Removing by shifting down is list deletion on the used prefix.\<close>

lemma take_shift_down_delete:
  assumes "i < n" and "n \<le> length xs"
  shows "take (n - 1) (shift_down xs i n) = take i xs @ drop (Suc i) (take n xs)"
proof (rule nth_equalityI)
  show "length (take (n - 1) (shift_down xs i n)) = length (take i xs @ drop (Suc i) (take n xs))"
    using assms by simp
next
  fix k assume "k < length (take (n - 1) (shift_down xs i n))"
  then have k: "Suc k < n" "k < length xs" using assms by auto
  show "take (n - 1) (shift_down xs i n) ! k = (take i xs @ drop (Suc i) (take n xs)) ! k"
    using assms k by (auto simp: nth_append shift_down_nth)
qed

text \<open>
  The insertion point of a binary search: everything before it is not greater than the new
  element, everything from it on is, provided \<open>gt\<close> is monotone along the searched prefix.
\<close>

lemma insertion_point_bounds:
  "lo \<le> hi \<Longrightarrow> lo \<le> insertion_point gt xs lo hi \<and> insertion_point gt xs lo hi \<le> hi"
proof (induction gt xs lo hi rule: insertion_point.induct)
  case (1 gt xs lo hi)
  show ?case
  proof (cases "lo < hi")
    case True
    let ?m = "(lo + hi) div 2"
    have m: "lo \<le> ?m" "?m < hi" using True by auto
    have a: "gt (xs ! ?m) \<Longrightarrow> lo \<le> insertion_point gt xs lo ?m \<and> insertion_point gt xs lo ?m \<le> ?m"
      using 1(1)[OF True refl] m by simp
    have b: "\<not> gt (xs ! ?m) \<Longrightarrow> ?m + 1 \<le> insertion_point gt xs (?m + 1) hi
        \<and> insertion_point gt xs (?m + 1) hi \<le> hi"
      using 1(2)[OF True refl] m by simp
    show ?thesis
      by (subst (1 2) insertion_point.simps)
        (use a b m True in \<open>auto simp: Let_def\<close>)
  next
    case False
    then have "insertion_point gt xs lo hi = lo" by (subst insertion_point.simps) simp
    with "1.prems" show ?thesis by simp
  qed
qed

lemma insertion_point_split:
  assumes "lo \<le> hi"
    and "\<And>i j. i \<le> j \<Longrightarrow> j < n \<Longrightarrow> gt (xs ! i) \<Longrightarrow> gt (xs ! j)"
    and "hi \<le> n"
    and "\<And>k. k < lo \<Longrightarrow> \<not> gt (xs ! k)" and "\<And>k. hi \<le> k \<Longrightarrow> k < n \<Longrightarrow> gt (xs ! k)"
  shows "(\<forall>k < insertion_point gt xs lo hi. \<not> gt (xs ! k)) \<and>
    (\<forall>k < n. insertion_point gt xs lo hi \<le> k \<longrightarrow> gt (xs ! k))"
  using assms
proof (induction gt xs lo hi rule: insertion_point.induct)
  case (1 gt xs lo hi)
  show ?case
  proof (cases "lo < hi")
    case True
    let ?m = "(lo + hi) div 2"
    have m: "lo \<le> ?m" "?m < hi" "?m < n" using True "1.prems"(3) by auto
    show ?thesis
    proof (cases "gt (xs ! ?m)")
      case gt: True
      have "insertion_point gt xs lo hi = insertion_point gt xs lo ?m"
        using True gt by (simp add: insertion_point.simps [of gt xs lo hi] Let_def)
      moreover have "(\<forall>k < insertion_point gt xs lo ?m. \<not> gt (xs ! k)) \<and>
          (\<forall>k < n. insertion_point gt xs lo ?m \<le> k \<longrightarrow> gt (xs ! k))"
        by (rule 1(1)[OF True refl gt]) (use m gt "1.prems" in auto)
      ultimately show ?thesis by simp
    next
      case le: False
      have "insertion_point gt xs lo hi = insertion_point gt xs (?m + 1) hi"
        using True le by (simp add: insertion_point.simps [of gt xs lo hi] Let_def)
      moreover have "\<not> gt (xs ! k)" if "k < ?m + 1" for k
        using "1.prems"(2)[of k ?m] le m that by auto
      then have "(\<forall>k < insertion_point gt xs (?m + 1) hi. \<not> gt (xs ! k)) \<and>
          (\<forall>k < n. insertion_point gt xs (?m + 1) hi \<le> k \<longrightarrow> gt (xs ! k))"
        by (intro 1(2)[OF True refl le]) (use m "1.prems" in auto)
      ultimately show ?thesis by simp
    qed
  next
    case False
    then have "insertion_point gt xs lo hi = lo" by (subst insertion_point.simps) simp
    with False "1.prems" show ?thesis by auto
  qed
qed

section \<open>Bit operations as arithmetic\<close>

text \<open>Masks of low bits and of a field of bits, and the disjoint union of two fields.\<close>

lemma and_push_mask: "c AND push_bit m (mask n) = (c div 2 ^ m mod 2 ^ n) * 2 ^ m" for c :: int
proof -
  have "c AND push_bit m (mask n) = push_bit m (take_bit n (drop_bit m c))"
    by (rule bit_eqI) (auto simp: bit_simps)
  then show ?thesis by (simp add: push_bit_eq_mult take_bit_eq_mod drop_bit_eq_div mult.commute)
qed

lemma and_low_mask: "c AND mask n = c mod 2 ^ n" for c :: int
  by (simp add: take_bit_eq_mod flip: take_bit_eq_mask)
  
lemma and_3ff [bits_arith]: "c AND 0x3ff = c mod 1024" for c :: int
  using and_low_mask [of c 10] by (simp add: mask_eq_exp_minus_1)

lemma and_fffffc00 [bits_arith]: "0 \<le> c \<Longrightarrow> c < 2 ^ 32 \<Longrightarrow> c AND 0xfffffc00 = (c div 1024) * 1024" for c :: int
  using and_push_mask [of c 10 22] by (simp add: mask_eq_exp_minus_1 push_bit_eq_mult)

lemma or_disjoint: "0 \<le> x \<Longrightarrow> x < 2 ^ n \<Longrightarrow> x OR (push_bit n y) = x + push_bit n y" for x :: int
proof -
  assume "0 \<le> x" "x < 2 ^ n"
  then have "take_bit n x = x" by (simp add: take_bit_int_eq_self)
  then have "x AND push_bit n y = 0"
    by (metis (no_types, opaque_lifting) bit_eq_iff bit_and_iff bit_push_bit_iff bit_take_bit_iff bit_0_eq bot_apply bot_bool_def not_le)
  then show ?thesis using disjunctive_add_eq_or by metis
qed

lemma mul_or: "0 \<le> y \<Longrightarrow> y < 64 \<Longrightarrow> push_bit 6 x OR y = x * 64 + y" for x y :: int
  using or_disjoint [of y 6 x] by (simp add: push_bit_eq_mult or.commute)

lemma and_not_low_mask: "m AND NOT (mask n) = push_bit n (drop_bit n m)" for m :: int
  by (rule bit_eqI) (auto simp: bit_simps)

end
