(* ===== verification/UVector.thy ===== *)
theory UVector
  imports Prelude "HOL-Library.Multiset"
begin

text \<open>
  \<open>UVector\<close> (\<open>common/uvector.cpp\<close>, \<open>common/uvector.h\<close>) and \<open>UStack\<close>
  (\<open>common/ustack.cpp\<close>): the growable array that holds pointers or 32-bit integers.

  The state is the class's fields.  \<open>elements\<close> is the allocated array, one list entry per
  slot up to \<open>capacity\<close>; slots at or above \<open>count\<close> that were never written are
  \<open>Uninit\<close>.  A slot is the union \<open>UElement\<close>: a null pointer, a pointer or an integer.
  Pointers are values of the type parameter; \<open>deleter\<close> says whether a deleter is set, and the
  extra field \<open>freed\<close> logs, in order, the objects the class passed to it.

  The bits of a pointer are not modelled.  A slot is meant to be read through the member it was written through: a vector holds
  either integers, with no deleter, or pointers, with a comparer where slots are compared.  The two mixed reads, of an integer
  slot through \<open>.pointer\<close> and of a pointer slot through \<open>.integer\<close>, are given the values null and 0 by
  convention, where the source reads the bits of the union; no statement about a vector rests on them.
\<close>

section \<open>Data\<close>

datatype 'p UElement = Uninit | Null | Pointer 'p | Integer int

record 'p UVector =
  count :: int
  capacity :: int
  elements :: "'p UElement list"
  deleter :: bool
  comparer :: "('p UElement \<Rightarrow> 'p UElement \<Rightarrow> bool) option"
  freed :: "'p list"

fun as_pointer :: "'p UElement \<Rightarrow> 'p option" where
  "as_pointer (Pointer p) = Some p"
| "as_pointer _ = None"

fun as_integer :: "'p UElement \<Rightarrow> int" where
  "as_integer (Integer n) = n"
| "as_integer _ = 0"

fun of_pointer :: "'p option \<Rightarrow> 'p UElement" where
  "of_pointer None = Null"
| "of_pointer (Some p) = Pointer p"

abbreviation (input) DEFAULT_CAPACITY :: int where "DEFAULT_CAPACITY \<equiv> 8"

text \<open>\<open>sizeof(UElement)\<close>: the union of a pointer and an \<open>int32_t\<close> on a 64-bit platform.\<close>

abbreviation (input) sizeof_UElement :: int where "sizeof_UElement \<equiv> 8"

section \<open>Operations\<close>

definition UVector_init ::
  "allocator \<Rightarrow> 'p UVector \<Rightarrow> int \<Rightarrow> UErrorCode \<Rightarrow> 'p UVector \<times> UErrorCode" where
  "UVector_init alloc v initialCapacity status =
     (if U_FAILURE status then (v, status)
      else
        let cap = (if initialCapacity < 1 \<or> initialCapacity > INT32_MAX div sizeof_UElement
                   then DEFAULT_CAPACITY else initialCapacity)
        in if \<not> alloc (sizeof_UElement * cap) then (v, U_MEMORY_ALLOCATION_ERROR)
           else (v\<lparr>elements := replicate (nat cap) Uninit, capacity := cap\<rparr>, status))"

definition UVector_new ::
  "allocator \<Rightarrow> bool \<Rightarrow> ('p UElement \<Rightarrow> 'p UElement \<Rightarrow> bool) option \<Rightarrow> int \<Rightarrow> UErrorCode \<Rightarrow>
   'p UVector \<times> UErrorCode" where
  "UVector_new alloc d c initialCapacity status =
     UVector_init alloc
       \<lparr>count = 0, capacity = 0, elements = [], deleter = d, comparer = c, freed = []\<rparr>
       initialCapacity status"

text \<open>\<open>uprv_realloc\<close> keeps the contents of the old block; the new slots are uninitialised.\<close>

definition realloc_slots :: "'p UElement list \<Rightarrow> nat \<Rightarrow> 'p UElement list" where
  "realloc_slots xs n = take n xs @ replicate (n - length xs) Uninit"

definition UVector_ensureCapacity ::
  "allocator \<Rightarrow> 'p UVector \<Rightarrow> int \<Rightarrow> UErrorCode \<Rightarrow> bool \<times> 'p UVector \<times> UErrorCode" where
  "UVector_ensureCapacity alloc v minimumCapacity status =
     (if minimumCapacity < 0 then (False, v, U_ILLEGAL_ARGUMENT_ERROR)
      else if capacity v < minimumCapacity then
        if capacity v > (INT32_MAX - 1) div 2 then (False, v, U_ILLEGAL_ARGUMENT_ERROR)
        else
          let newCap = (if capacity v * 2 < minimumCapacity then minimumCapacity
                        else capacity v * 2)
          in if newCap > INT32_MAX div sizeof_UElement then (False, v, U_ILLEGAL_ARGUMENT_ERROR)
             else if \<not> alloc (sizeof_UElement * newCap) then (False, v, U_MEMORY_ALLOCATION_ERROR)
             else (True, v\<lparr>elements := realloc_slots (elements v) (nat newCap),
                           capacity := newCap\<rparr>, status)
      else (True, v, status))"

text \<open>\<open>if (elements[index].pointer != 0 && deleter != 0) (*deleter)(elements[index].pointer);\<close>\<close>

definition delete_pointer :: "'p option \<Rightarrow> 'p UVector \<Rightarrow> 'p UVector" where
  "delete_pointer p v =
     (case p of None \<Rightarrow> v | Some q \<Rightarrow> if deleter v then v\<lparr>freed := freed v @ [q]\<rparr> else v)"

definition UVector_addElement ::
  "allocator \<Rightarrow> 'p UVector \<Rightarrow> 'p option \<Rightarrow> UErrorCode \<Rightarrow> 'p UVector \<times> UErrorCode" where
  "UVector_addElement alloc v obj status =
     (case UVector_ensureCapacity alloc v (count v + 1) status of
        (ok, v', status') \<Rightarrow>
          (if ok then v'\<lparr>elements := (elements v')[nat (count v') := of_pointer obj],
                         count := count v' + 1\<rparr> else v', status'))"

definition UVector_addElement_int ::
  "allocator \<Rightarrow> 'p UVector \<Rightarrow> int \<Rightarrow> UErrorCode \<Rightarrow> 'p UVector \<times> UErrorCode" where
  "UVector_addElement_int alloc v elem status =
     (case UVector_ensureCapacity alloc v (count v + 1) status of
        (ok, v', status') \<Rightarrow>
          (if ok then v'\<lparr>elements := (elements v')[nat (count v') := Integer elem],
                         count := count v' + 1\<rparr> else v', status'))"

definition UVector_setElementAt :: "'p UVector \<Rightarrow> 'p option \<Rightarrow> int \<Rightarrow> 'p UVector" where
  "UVector_setElementAt v obj index =
     (if 0 \<le> index \<and> index < count v then
        (let v' = delete_pointer (as_pointer (elements v ! nat index)) v
         in v'\<lparr>elements := (elements v')[nat index := of_pointer obj]\<rparr>)
      else v)"

definition UVector_setElementAt_int :: "'p UVector \<Rightarrow> int \<Rightarrow> int \<Rightarrow> 'p UVector" where
  "UVector_setElementAt_int v elem index =
     (if 0 \<le> index \<and> index < count v then
        (let v' = delete_pointer (as_pointer (elements v ! nat index)) v
         in v'\<lparr>elements := (elements v')[nat index := Integer elem]\<rparr>)
      else v)"

definition insert_slot :: "'p UVector \<Rightarrow> 'p UElement \<Rightarrow> nat \<Rightarrow> 'p UVector" where
  "insert_slot v e index =
     v\<lparr>elements := (shift_up (elements v) (nat (count v)) index)[index := e],
       count := count v + 1\<rparr>"

definition UVector_insertElementAt ::
  "allocator \<Rightarrow> 'p UVector \<Rightarrow> 'p option \<Rightarrow> int \<Rightarrow> UErrorCode \<Rightarrow> 'p UVector \<times> UErrorCode" where
  "UVector_insertElementAt alloc v obj index status =
     (if 0 \<le> index \<and> index \<le> count v then
        (case UVector_ensureCapacity alloc v (count v + 1) status of
           (ok, v', status') \<Rightarrow>
             (if ok then insert_slot v' (of_pointer obj) (nat index) else v', status'))
      else (v, status))"

definition UVector_insertElementAt_int ::
  "allocator \<Rightarrow> 'p UVector \<Rightarrow> int \<Rightarrow> int \<Rightarrow> UErrorCode \<Rightarrow> 'p UVector \<times> UErrorCode" where
  "UVector_insertElementAt_int alloc v elem index status =
     (if 0 \<le> index \<and> index \<le> count v then
        (case UVector_ensureCapacity alloc v (count v + 1) status of
           (ok, v', status') \<Rightarrow>
             (if ok then insert_slot v' (Integer elem) (nat index) else v', status'))
      else (v, status))"

definition UVector_elementAt :: "'p UVector \<Rightarrow> int \<Rightarrow> 'p option" where
  "UVector_elementAt v index =
     (if 0 \<le> index \<and> index < count v then as_pointer (elements v ! nat index) else None)"

definition UVector_elementAti :: "'p UVector \<Rightarrow> int \<Rightarrow> int" where
  "UVector_elementAti v index =
     (if 0 \<le> index \<and> index < count v then as_integer (elements v ! nat index) else 0)"

text \<open>
  \<open>indexOf\<close>: the scan with the vector's comparer, or, without one, by pointer or by integer as
  the hint says.  The result is the C++ result, -1 for not found.
\<close>

definition slot_matches ::
  "('p UElement \<Rightarrow> 'p UElement \<Rightarrow> bool) option \<Rightarrow> 'p UElement \<Rightarrow> bool \<Rightarrow> 'p UElement \<Rightarrow> bool" where
  "slot_matches cmp key pointer_hint e =
     (case cmp of
        Some c \<Rightarrow> c key e
      | None \<Rightarrow> if pointer_hint then as_pointer key = as_pointer e
                else as_integer key = as_integer e)"

function index_scan :: "('e \<Rightarrow> bool) \<Rightarrow> 'e list \<Rightarrow> nat \<Rightarrow> nat \<Rightarrow> int" where
  "index_scan m xs i n =
     (if i < n then (if m (xs ! i) then int i else index_scan m xs (Suc i) n) else -1)"
  by pat_completeness auto
termination
  by (relation "measure (\<lambda>(m, xs, i, n). n - i)") auto

declare index_scan.simps [simp del]

text \<open>
  The loop starts at \<open>startIndex\<close>; every caller passes a non-negative one (the default is 0).
\<close>

definition UVector_indexOf :: "'p UVector \<Rightarrow> 'p UElement \<Rightarrow> nat \<Rightarrow> bool \<Rightarrow> int" where
  "UVector_indexOf v key startIndex pointer_hint =
     index_scan (slot_matches (comparer v) key pointer_hint) (elements v) startIndex
       (nat (count v))"

definition UVector_contains :: "'p UVector \<Rightarrow> 'p \<Rightarrow> bool" where
  "UVector_contains v obj = (UVector_indexOf v (Pointer obj) 0 True \<ge> 0)"

definition UVector_orphanElementAt :: "'p UVector \<Rightarrow> int \<Rightarrow> 'p option \<times> 'p UVector" where
  "UVector_orphanElementAt v index =
     (if 0 \<le> index \<and> index < count v then
        (as_pointer (elements v ! nat index),
         v\<lparr>elements := shift_down (elements v) (nat index) (nat (count v)),
           count := count v - 1\<rparr>)
      else (None, v))"

definition UVector_removeElementAt :: "'p UVector \<Rightarrow> int \<Rightarrow> 'p UVector" where
  "UVector_removeElementAt v index =
     (case UVector_orphanElementAt v index of (e, v') \<Rightarrow> delete_pointer e v')"

definition UVector_removeElement :: "'p UVector \<Rightarrow> 'p \<Rightarrow> bool \<times> 'p UVector" where
  "UVector_removeElement v obj =
     (let i = UVector_indexOf v (Pointer obj) 0 True
      in if i \<ge> 0 then (True, UVector_removeElementAt v i) else (False, v))"

text \<open>
  In the four set-like operations the key is a whole slot and the hint is the default 0: without
  a comparer the comparison is by integer.
\<close>

fun containsAll_loop :: "'p UVector \<Rightarrow> 'p UElement list \<Rightarrow> bool" where
  "containsAll_loop v [] = True"
| "containsAll_loop v (e # es) =
     (if UVector_indexOf v e 0 False < 0 then False else containsAll_loop v es)"

definition UVector_containsAll :: "'p UVector \<Rightarrow> 'p UVector \<Rightarrow> bool" where
  "UVector_containsAll v other = containsAll_loop v (take (nat (count other)) (elements other))"

fun containsNone_loop :: "'p UVector \<Rightarrow> 'p UElement list \<Rightarrow> bool" where
  "containsNone_loop v [] = True"
| "containsNone_loop v (e # es) =
     (if UVector_indexOf v e 0 False \<ge> 0 then False else containsNone_loop v es)"

definition UVector_containsNone :: "'p UVector \<Rightarrow> 'p UVector \<Rightarrow> bool" where
  "UVector_containsNone v other = containsNone_loop v (take (nat (count other)) (elements other))"

fun removeAll_loop :: "'p UVector \<Rightarrow> 'p UElement list \<Rightarrow> bool \<Rightarrow> bool \<times> 'p UVector" where
  "removeAll_loop v [] changed = (changed, v)"
| "removeAll_loop v (e # es) changed =
     (let j = UVector_indexOf v e 0 False
      in if j \<ge> 0 then removeAll_loop (UVector_removeElementAt v j) es True
         else removeAll_loop v es changed)"

text \<open>\<open>removeAll\<close> of another vector object, which the loop leaves as it is.\<close>

definition UVector_removeAll :: "'p UVector \<Rightarrow> 'p UVector \<Rightarrow> bool \<times> 'p UVector" where
  "UVector_removeAll v other =
     removeAll_loop v (take (nat (count other)) (elements other)) False"

text \<open>
  \<open>v.removeAll(v)\<close>: \<open>other\<close> is the vector itself, and \<open>other.size()\<close> and
  \<open>other.elements[i]\<close> are read again in every round, after the removals of the rounds before.
\<close>

lemma removeElementAt_count: "count (UVector_removeElementAt v i) \<le> count v"
  by (auto simp: UVector_removeElementAt_def UVector_orphanElementAt_def delete_pointer_def split: option.splits)

function removeAll_self_loop :: "'p UVector \<Rightarrow> nat \<Rightarrow> bool \<Rightarrow> bool \<times> 'p UVector" where
  "removeAll_self_loop v i changed =
     (if int i < count v then
        let j = UVector_indexOf v (elements v ! i) 0 False
        in if j \<ge> 0 then removeAll_self_loop (UVector_removeElementAt v j) (Suc i) True
           else removeAll_self_loop v (Suc i) changed
      else (changed, v))"
  by pat_completeness auto
termination
proof (relation "measure (\<lambda>(v, i, changed). nat (count v) - i)", goal_cases)
  case (2 v i changed j)
  with removeElementAt_count [of v j] show ?case by auto
qed auto

declare removeAll_self_loop.simps [simp del]

definition UVector_removeAll_self :: "'p UVector \<Rightarrow> bool \<times> 'p UVector" where
  "UVector_removeAll_self v = removeAll_self_loop v 0 False"

text \<open>\<open>for (j=size()-1; j>=0; --j)\<close>: the first argument is the number of indices left.\<close>

fun retainAll_loop :: "nat \<Rightarrow> 'p UVector \<Rightarrow> 'p UVector \<Rightarrow> bool \<Rightarrow> bool \<times> 'p UVector" where
  "retainAll_loop 0 v other changed = (changed, v)"
| "retainAll_loop (Suc j) v other changed =
     (if UVector_indexOf other (elements v ! j) 0 False < 0
      then retainAll_loop j (UVector_removeElementAt v (int j)) other True
      else retainAll_loop j v other changed)"

definition UVector_retainAll :: "'p UVector \<Rightarrow> 'p UVector \<Rightarrow> bool \<times> 'p UVector" where
  "UVector_retainAll v other = retainAll_loop (nat (count v)) v other False"

definition UVector_removeAllElements :: "'p UVector \<Rightarrow> 'p UVector" where
  "UVector_removeAllElements v =
     (let v' = (if deleter v
                then v\<lparr>freed := freed v @ List.map_filter as_pointer
                                          (take (nat (count v)) (elements v))\<rparr>
                else v)
      in v'\<lparr>count := 0\<rparr>)"

text \<open>\<open>operator==\<close> compares with this object's comparer and, without one, only the sizes.\<close>

definition UVector_eq :: "'p UVector \<Rightarrow> 'p UVector \<Rightarrow> bool" where
  "UVector_eq v other =
     (if count v \<noteq> count other then False
      else case comparer v of
             None \<Rightarrow> True
           | Some c \<Rightarrow> list_all2 c (take (nat (count v)) (elements v))
                                  (take (nat (count v)) (elements other)))"

text \<open>
  \<open>equals\<close> passes the address of the other vector's slot to the comparer, not the slot:
  \<open>slot_address i\<close> is the pointer value of \<open>&other.elements[i]\<close>.
\<close>

definition UVector_equals :: "(nat \<Rightarrow> 'p) \<Rightarrow> 'p UVector \<Rightarrow> 'p UVector \<Rightarrow> bool" where
  "UVector_equals slot_address v other =
     (if count v \<noteq> count other then False
      else case comparer v of
             None \<Rightarrow> list_all (\<lambda>i. as_pointer (elements v ! i) = as_pointer (elements other ! i))
                       [0..<nat (count v)]
           | Some c \<Rightarrow> list_all (\<lambda>i. c (Pointer (slot_address i)) (elements v ! i))
                       [0..<nat (count v)])"

text \<open>Truncation deletes from the end; growth fills with null slots.\<close>

fun setSize_shrink :: "nat \<Rightarrow> 'p UVector \<Rightarrow> 'p UVector" where
  "setSize_shrink 0 v = v"
| "setSize_shrink (Suc k) v = setSize_shrink k (UVector_removeElementAt v (count v - 1))"

definition UVector_setSize ::
  "allocator \<Rightarrow> 'p UVector \<Rightarrow> int \<Rightarrow> UErrorCode \<Rightarrow> 'p UVector \<times> UErrorCode" where
  "UVector_setSize alloc v newSize status =
     (if newSize < 0 then (v, status)
      else if newSize > count v then
        (case UVector_ensureCapacity alloc v newSize status of
           (ok, v', status') \<Rightarrow>
             if \<not> ok then (v', status')
             else (v'\<lparr>elements := take (nat (count v')) (elements v') @
                                  replicate (nat (newSize - count v')) Null @
                                  drop (nat newSize) (elements v'),
                     count := newSize\<rparr>, status'))
      else ((setSize_shrink (nat (count v - newSize)) v)\<lparr>count := newSize\<rparr>, status))"

text \<open>
  \<open>assign\<close>: \<open>assigner\<close> is the caller's element copier, such as \<open>cloneUnicodeString\<close>.
\<close>

fun assign_loop ::
  "('p UElement \<Rightarrow> 'p UElement) \<Rightarrow> nat \<Rightarrow> 'p UElement list \<Rightarrow> 'p UVector \<Rightarrow> 'p UVector" where
  "assign_loop assigner i [] v = v"
| "assign_loop assigner i (e # es) v =
     (let v' = delete_pointer (as_pointer (elements v ! i)) v
      in assign_loop assigner (Suc i) es (v'\<lparr>elements := (elements v')[i := assigner e]\<rparr>))"

definition UVector_assign ::
  "allocator \<Rightarrow> 'p UVector \<Rightarrow> 'p UVector \<Rightarrow> ('p UElement \<Rightarrow> 'p UElement) \<Rightarrow> UErrorCode \<Rightarrow>
   'p UVector \<times> UErrorCode" where
  "UVector_assign alloc v other assigner ec =
     (case UVector_ensureCapacity alloc v (count other) ec of
        (ok, v', ec') \<Rightarrow>
          if \<not> ok then (v', ec')
          else case UVector_setSize alloc v' (count other) ec' of
                 (v'', ec'') \<Rightarrow>
                   if U_SUCCESS ec''
                   then (assign_loop assigner 0 (take (nat (count other)) (elements other)) v'', ec'')
                   else (v'', ec''))"

definition UVector_toArray :: "'p UVector \<Rightarrow> 'p option list" where
  "UVector_toArray v = map as_pointer (take (nat (count v)) (elements v))"

definition UVector_setDeleter :: "'p UVector \<Rightarrow> bool \<Rightarrow> bool \<times> 'p UVector" where
  "UVector_setDeleter v d = (deleter v, v\<lparr>deleter := d\<rparr>)"

definition UVector_setComparer ::
  "'p UVector \<Rightarrow> ('p UElement \<Rightarrow> 'p UElement \<Rightarrow> bool) option \<Rightarrow>
   ('p UElement \<Rightarrow> 'p UElement \<Rightarrow> bool) option \<times> 'p UVector" where
  "UVector_setComparer v d = (comparer v, v\<lparr>comparer := d\<rparr>)"

text \<open>\<open>compare\<close> is the caller's three-way comparison, negative, zero or positive.\<close>

definition UVector_sortedInsert ::
  "allocator \<Rightarrow> 'p UVector \<Rightarrow> 'p UElement \<Rightarrow> ('p UElement \<Rightarrow> 'p UElement \<Rightarrow> int) \<Rightarrow> UErrorCode \<Rightarrow>
   'p UVector \<times> UErrorCode" where
  "UVector_sortedInsert alloc v e compare ec =
     (let pos = insertion_point (\<lambda>x. compare x e > 0) (elements v) 0 (nat (count v))
      in case UVector_ensureCapacity alloc v (count v + 1) ec of
           (ok, v', ec') \<Rightarrow> (if ok then insert_slot v' e pos else v', ec'))"

subsection \<open>UStack\<close>

definition UStack_push ::
  "allocator \<Rightarrow> 'p UVector \<Rightarrow> 'p option \<Rightarrow> UErrorCode \<Rightarrow> 'p option \<times> 'p UVector \<times> UErrorCode" where
  "UStack_push alloc v obj status = (obj, UVector_addElement alloc v obj status)"

definition UStack_peek :: "'p UVector \<Rightarrow> 'p option" where
  "UStack_peek v = UVector_elementAt v (count v - 1)"

definition UStack_pop :: "'p UVector \<Rightarrow> 'p option \<times> 'p UVector" where
  "UStack_pop v =
     (let n = count v - 1
      in if n \<ge> 0 then (UVector_elementAt v n, UVector_removeElementAt v n) else (None, v))"

definition UStack_popi :: "'p UVector \<Rightarrow> int \<times> 'p UVector" where
  "UStack_popi v =
     (let n = count v - 1
      in if n \<ge> 0 then (UVector_elementAti v n, UVector_removeElementAt v n) else (0, v))"

definition UStack_search :: "'p UVector \<Rightarrow> 'p \<Rightarrow> int" where
  "UStack_search v obj =
     (let i = UVector_indexOf v (Pointer obj) 0 True in if i \<ge> 0 then count v - i else i)"


section \<open>Abstraction and invariant\<close>

definition vec_contents :: "'p UVector \<Rightarrow> 'p UElement list" where
  "vec_contents v = take (nat (count v)) (elements v)"

definition vec_ok :: "'p UVector \<Rightarrow> bool" where
  "vec_ok v \<longleftrightarrow> 0 \<le> count v \<and> count v \<le> capacity v \<and> length (elements v) = nat (capacity v) \<and>
     capacity v \<le> INT32_MAX div sizeof_UElement \<and> Uninit \<notin> set (vec_contents v)"

lemmas vec_defs = vec_ok_def vec_contents_def

lemma length_vec_contents [simp]: "vec_ok v \<Longrightarrow> length (vec_contents v) = nat (count v)"
  by (auto simp: vec_defs)

lemma vec_contents_nth:
  "vec_ok v \<Longrightarrow> 0 \<le> i \<Longrightarrow> i < count v \<Longrightarrow> vec_contents v ! nat i = elements v ! nat i"
  by (auto simp: vec_defs)

lemma of_pointer_neq_Uninit [simp]: "of_pointer p \<noteq> Uninit" "as_pointer (of_pointer p) = p"
  by (cases p; simp)+

lemma delete_pointer_fields [simp]:
  "count (delete_pointer p v) = count v" "elements (delete_pointer p v) = elements v"
  "capacity (delete_pointer p v) = capacity v" "deleter (delete_pointer p v) = deleter v"
  "comparer (delete_pointer p v) = comparer v"
  "freed (delete_pointer p v) = (if deleter v then freed v @ (case p of None \<Rightarrow> [] | Some q \<Rightarrow> [q])
     else freed v)"
  by (auto simp: delete_pointer_def split: option.splits)

lemma vec_ok_delete_pointer [simp]:
  "vec_ok (delete_pointer p v) = vec_ok v" "vec_contents (delete_pointer p v) = vec_contents v"
  by (auto simp: vec_defs)

subsection \<open>Growing\<close>

lemma length_realloc_slots [simp]: "length (realloc_slots xs n) = n"
  by (simp add: realloc_slots_def)

lemma take_realloc_slots: "k \<le> length xs \<Longrightarrow> k \<le> n \<Longrightarrow> take k (realloc_slots xs n) = take k xs"
  by (simp add: realloc_slots_def)

text \<open>
  \<open>ensureCapacity\<close>: on success the capacity suffices and only the array grew; on failure the
  vector is untouched and the status is an error.
\<close>

lemma ensureCapacity_True:
  assumes "vec_ok v" and "UVector_ensureCapacity alloc v m status = (True, v', status')"
  shows "vec_ok v' \<and> vec_contents v' = vec_contents v \<and> m \<le> capacity v' \<and> count v' = count v \<and>
    deleter v' = deleter v \<and> comparer v' = comparer v \<and> freed v' = freed v \<and> status' = status"
  using assms
  by (auto simp: UVector_ensureCapacity_def vec_defs Let_def take_realloc_slots nat_mono
      split: if_splits)

lemma ensureCapacity_False:
  assumes "UVector_ensureCapacity alloc v m status = (False, v', status')"
  shows "v' = v \<and> U_FAILURE status'"
  using assms by (auto simp: UVector_ensureCapacity_def Let_def split: if_splits)

text \<open>With a willing allocator it succeeds whenever the request is below the size limit.\<close>

lemma ensureCapacity_succeeds:
  assumes "vec_ok v" and "0 \<le> m" and "m \<le> INT32_MAX div sizeof_UElement"
    and "capacity v * 2 \<le> INT32_MAX div sizeof_UElement" and "\<And>n. alloc n"
  shows "\<exists>v'. UVector_ensureCapacity alloc v m status = (True, v', status)"
  using assms by (auto simp: UVector_ensureCapacity_def Let_def vec_ok_def)

subsection \<open>Slots\<close>

lemma insert_slot_ok:
  assumes "vec_ok v" and "count v < capacity v" and "i \<le> nat (count v)" and "e \<noteq> Uninit"
  shows "vec_contents (insert_slot v e i) = take i (vec_contents v) @ e # drop i (vec_contents v)
    \<and> vec_ok (insert_slot v e i)"
proof -
  have len: "nat (count v) < length (elements v)"
    using assms by (auto simp: vec_ok_def)
  have "vec_contents (insert_slot v e i)
      = take (Suc (nat (count v))) ((shift_up (elements v) (nat (count v)) i)[i := e])"
    using assms by (simp add: vec_contents_def insert_slot_def nat_add_distrib vec_ok_def)
  also have "\<dots> = take i (elements v) @ e # drop i (take (nat (count v)) (elements v))"
    by (rule take_shift_up_insert) (use assms len in auto)
  finally have c: "vec_contents (insert_slot v e i)
      = take i (vec_contents v) @ e # drop i (vec_contents v)"
    using assms by (simp add: vec_contents_def min_def)
  have "Uninit \<notin> set (vec_contents (insert_slot v e i))"
    using assms by (auto simp: c vec_ok_def dest: in_set_takeD in_set_dropD)
  then show ?thesis
    using c assms by (auto simp: vec_ok_def insert_slot_def)
qed

lemma orphanElementAt_ok:
  assumes "vec_ok v" and "0 \<le> i" and "i < count v"
    and "UVector_orphanElementAt v i = (e, v')"
  shows "vec_contents v' = take (nat i) (vec_contents v) @ drop (Suc (nat i)) (vec_contents v) \<and>
    vec_ok v' \<and> e = as_pointer (vec_contents v ! nat i) \<and> freed v' = freed v \<and>
    deleter v' = deleter v \<and> comparer v' = comparer v"
proof -
  let ?n = "nat (count v)"
  have v': "v' = v\<lparr>elements := shift_down (elements v) (nat i) ?n, count := count v - 1\<rparr>"
    and e: "e = as_pointer (elements v ! nat i)"
    using assms by (auto simp: UVector_orphanElementAt_def split: if_splits)
  have len: "?n \<le> length (elements v)" "nat i < ?n" "nat (count v - 1) = ?n - 1"
    using assms by (auto simp: vec_ok_def)
  have c: "vec_contents v' = take (nat i) (elements v) @ drop (Suc (nat i)) (take ?n (elements v))"
    using take_shift_down_delete [OF len(2,1)] len by (simp add: vec_contents_def v')
  then have c': "vec_contents v'
      = take (nat i) (vec_contents v) @ drop (Suc (nat i)) (vec_contents v)"
    using len by (simp add: vec_contents_def min_absorb1)
  have "Uninit \<notin> set (vec_contents v')"
    using assms(1) by (auto simp: c' vec_ok_def dest: in_set_takeD in_set_dropD)
  then show ?thesis
    using c' e assms by (auto simp: vec_ok_def v' vec_contents_nth)
qed

section \<open>The interface of an indexed vector\<close>

text \<open>
  What the clients of the vector classes rely on: inserting and removing by index change the
  sequence of elements as list insertion and deletion do, and both keep the class invariant.
  Insertion can fail (no memory, size limit).
\<close>

locale indexed_vector =
  fixes contents :: "'v \<Rightarrow> 'e list"
    and invar :: "'v \<Rightarrow> bool"
    and valid :: "'e \<Rightarrow> bool"
    and insert_at :: "'v \<Rightarrow> 'e \<Rightarrow> nat \<Rightarrow> 'v option"
    and remove_at :: "'v \<Rightarrow> nat \<Rightarrow> 'v"
  assumes insert_at: "invar v \<Longrightarrow> valid e \<Longrightarrow> i \<le> length (contents v) \<Longrightarrow> insert_at v e i = Some v' \<Longrightarrow>
      contents v' = take i (contents v) @ e # drop i (contents v) \<and> invar v'"
    and remove_at: "invar v \<Longrightarrow> i < length (contents v) \<Longrightarrow>
      contents (remove_at v i) = take i (contents v) @ drop (Suc i) (contents v) \<and>
      invar (remove_at v i)"
begin

lemma insert_then_remove:
  assumes "invar v" and "valid e" and "i \<le> length (contents v)" and "insert_at v e i = Some v'"
  shows "contents (remove_at v' i) = contents v"
proof -
  have c: "contents v' = take i (contents v) @ e # drop i (contents v)" "invar v'"
    using insert_at [OF assms] by auto
  have "i < length (contents v')" using assms(3) by (simp add: c(1))
  then have "contents (remove_at v' i) = take i (contents v') @ drop (Suc i) (contents v')"
    using remove_at c(2) by blast
  then show ?thesis using assms(3) by (simp add: c(1))
qed

lemma append_then_remove_last:
  assumes "invar v" and "valid e" and "insert_at v e (length (contents v)) = Some v'"
  shows "last (contents v') = e \<and> contents (remove_at v' (length (contents v))) = contents v"
  using insert_at [OF assms(1,2) _ assms(3)] insert_then_remove [OF assms(1,2) _ assms(3)] by simp

text \<open>Inserting at the split point of a monotone test keeps the elements sorted.\<close>

lemma sorted_insert:
  assumes "invar v" and "valid e" and "insert_at v e i = Some v'"
    and "i \<le> length (contents v)"
    and "sorted_wrt R (contents v)"
    and "\<And>k. k < i \<Longrightarrow> R (contents v ! k) e"
    and "\<And>k. i \<le> k \<Longrightarrow> k < length (contents v) \<Longrightarrow> R e (contents v ! k)"
  shows "sorted_wrt R (contents v')"
proof -
  have "contents v' = take i (contents v) @ e # drop i (contents v)"
    using insert_at assms(1-4) by blast
  moreover have "sorted_wrt R (take i (contents v)) \<and> sorted_wrt R (drop i (contents v)) \<and>
      (\<forall>x \<in> set (take i (contents v)). \<forall>y \<in> set (drop i (contents v)). R x y)"
    using assms(5) by (metis append_take_drop_id sorted_wrt_append)
  moreover have "R x e" if "x \<in> set (take i (contents v))" for x
    using that assms(4,6) by (auto simp: in_set_conv_nth)
  moreover have "R e x" if "x \<in> set (drop i (contents v))" for x
    using that assms(4) assms(7) by (fastforce simp: in_set_conv_nth)
  ultimately show ?thesis by (auto simp: sorted_wrt_append)
qed

end

section \<open>UVector provides the interface\<close>

definition uvector_insert_at ::
  "allocator \<Rightarrow> 'p UVector \<Rightarrow> 'p UElement \<Rightarrow> nat \<Rightarrow> 'p UVector option" where
  "uvector_insert_at alloc v e i =
     (case UVector_ensureCapacity alloc v (count v + 1) U_ZERO_ERROR of
        (ok, v', ec) \<Rightarrow> if ok then Some (insert_slot v' e i) else None)"

lemma removeElementAt_ok:
  assumes "vec_ok v" and "0 \<le> i" and "i < count v"
  shows "vec_contents (UVector_removeElementAt v i)
      = take (nat i) (vec_contents v) @ drop (Suc (nat i)) (vec_contents v) \<and>
    vec_ok (UVector_removeElementAt v i) \<and>
    count (UVector_removeElementAt v i) = count v - 1 \<and>
    deleter (UVector_removeElementAt v i) = deleter v \<and>
    comparer (UVector_removeElementAt v i) = comparer v \<and>
    freed (UVector_removeElementAt v i) = (if deleter v
      then freed v @ (case as_pointer (vec_contents v ! nat i) of None \<Rightarrow> [] | Some q \<Rightarrow> [q])
      else freed v)"
proof -
  obtain e v' where o: "UVector_orphanElementAt v i = (e, v')"
    by fastforce
  from o assms have "count v' = count v - 1"
    by (auto simp: UVector_orphanElementAt_def)
  then show ?thesis
    using orphanElementAt_ok [OF assms o] by (simp add: UVector_removeElementAt_def o)
qed

lemma removeElementAt_out_of_range:
  "\<not> (0 \<le> i \<and> i < count v) \<Longrightarrow> UVector_removeElementAt v i = v"
  by (auto simp: UVector_removeElementAt_def UVector_orphanElementAt_def delete_pointer_def)

interpretation uvec: indexed_vector vec_contents vec_ok "\<lambda>e. e \<noteq> Uninit"
  "uvector_insert_at alloc" "\<lambda>v i. UVector_removeElementAt v (int i)" for alloc
proof (unfold_locales, goal_cases)
  case (1 v e i v')
  obtain ok w ec where e: "UVector_ensureCapacity alloc v (count v + 1) U_ZERO_ERROR = (ok, w, ec)"
    by (metis prod_cases3)
  with 1 have "ok" and v': "v' = insert_slot w e i"
    by (auto simp: uvector_insert_at_def split: if_splits)
  with e ensureCapacity_True [OF 1(1)] have "vec_ok w" "vec_contents w = vec_contents v"
    "count v + 1 \<le> capacity w" "count w = count v" by auto
  then show ?case
    using insert_slot_ok [of w i e] 1 by (simp add: v')
next
  case (2 v i)
  then show ?case using removeElementAt_ok [of v "int i"] by auto
qed

lemma insertElementAt_eq:
  assumes "0 \<le> index" and "index \<le> count v"
  shows "UVector_insertElementAt alloc v obj index U_ZERO_ERROR =
    (case uvector_insert_at alloc v (of_pointer obj) (nat index) of
       Some v' \<Rightarrow> (v', U_ZERO_ERROR)
     | None \<Rightarrow> (v, snd (snd (UVector_ensureCapacity alloc v (count v + 1) U_ZERO_ERROR))))"
  using assms
  by (auto simp: UVector_insertElementAt_def uvector_insert_at_def UVector_ensureCapacity_def Let_def)

lemma uvector_insert_at_None:
  "uvector_insert_at alloc v e i = None \<Longrightarrow>
    U_FAILURE (snd (snd (UVector_ensureCapacity alloc v (count v + 1) U_ZERO_ERROR)))"
  by (auto simp: uvector_insert_at_def UVector_ensureCapacity_def Let_def split: if_splits)

text \<open>
  C27. Inserting at a valid index either inserts there, keeping the invariant and the status, or
  leaves the vector as it was and reports an error.
\<close>

theorem insertElementAt_spec:
  assumes "vec_ok v" and "0 \<le> index" and "index \<le> count v"
    and "UVector_insertElementAt alloc v obj index U_ZERO_ERROR = (v', ec)"
  shows "(U_FAILURE ec \<and> v' = v) \<or>
    (ec = U_ZERO_ERROR \<and> vec_ok v' \<and> vec_contents v' =
       take (nat index) (vec_contents v) @ of_pointer obj # drop (nat index) (vec_contents v))"
proof (cases "uvector_insert_at alloc v (of_pointer obj) (nat index)")
  case None
  with assms uvector_insert_at_None [OF None] show ?thesis by (auto simp: insertElementAt_eq)
next
  case (Some w)
  moreover have "nat index \<le> length (vec_contents v)" using assms by simp
  ultimately show ?thesis
    using uvec.insert_at [OF assms(1) _ _ Some] assms by (simp add: insertElementAt_eq)
qed

abbreviation sample_vector :: "string UVector" where
  "sample_vector \<equiv> \<lparr>count = 2, capacity = 2, elements = [Pointer ''a'', Pointer ''c''],
     deleter = True, comparer = Some (=), freed = []\<rparr>"

theorem insertElementAt_spec_witness:
  "vec_contents (fst (UVector_insertElementAt (\<lambda>n. True) sample_vector (Some ''b'') 1 U_ZERO_ERROR))
     = [Pointer ''a'', Pointer ''b'', Pointer ''c'']"
proof -
  obtain v' ec where r: "UVector_insertElementAt (\<lambda>n. True) sample_vector (Some ''b'') 1 U_ZERO_ERROR
      = (v', ec)" by fastforce
  have "ec = U_ZERO_ERROR"
    using r by (auto simp: UVector_insertElementAt_def UVector_ensureCapacity_def)
  moreover have "vec_ok sample_vector" by (simp add: vec_defs)
  ultimately show ?thesis
    using insertElementAt_spec [OF _ _ _ r] by (simp add: r vec_contents_def [of sample_vector])
qed

subsection \<open>Searching\<close>

lemma index_scan_cases:
  "(index_scan m xs i n = -1 \<and> (\<forall>k. i \<le> k \<longrightarrow> k < n \<longrightarrow> \<not> m (xs ! k))) \<or>
   (\<exists>k. index_scan m xs i n = int k \<and> i \<le> k \<and> k < n \<and> m (xs ! k) \<and>
        (\<forall>j. i \<le> j \<longrightarrow> j < k \<longrightarrow> \<not> m (xs ! j)))"
proof (induction m xs i n rule: index_scan.induct)
  case (1 m xs i n)
  show ?case
  proof (cases "i < n \<and> \<not> m (xs ! i)")
    case True
    then have "index_scan m xs i n = index_scan m xs (Suc i) n"
      by (simp add: index_scan.simps [of m xs i n])
    moreover have "i \<le> k \<longleftrightarrow> k = i \<or> Suc i \<le> k" for k by auto
    ultimately show ?thesis
      using 1 True by (metis (no_types, lifting) Suc_leD)
  next
    case False
    then show ?thesis
      by (cases "i < n") (auto simp: index_scan.simps [of m xs i n])
  qed
qed

lemma indexOf_cases:
  assumes "vec_ok v"
  obtains (none) "UVector_indexOf v key 0 h = -1"
      "\<And>e. e \<in> set (vec_contents v) \<Longrightarrow> \<not> slot_matches (comparer v) key h e"
  | (some) k where "UVector_indexOf v key 0 h = int k" "k < length (vec_contents v)"
      "int k < count v" "slot_matches (comparer v) key h (vec_contents v ! k)"
      "\<And>j. j < k \<Longrightarrow> \<not> slot_matches (comparer v) key h (vec_contents v ! j)"
proof -
  have nth: "vec_contents v ! k = elements v ! k" if "k < nat (count v)" for k
    using assms that by (simp add: vec_defs)
  let ?m = "slot_matches (comparer v) key h"
  have len: "length (vec_contents v) = nat (count v)" using assms by simp
  consider "UVector_indexOf v key 0 h = -1" "\<forall>k < nat (count v). \<not> ?m (elements v ! k)"
    | k where "UVector_indexOf v key 0 h = int k" "k < nat (count v)" "?m (elements v ! k)"
        "\<forall>j < k. \<not> ?m (elements v ! j)"
    using index_scan_cases [of ?m "elements v" 0 "nat (count v)"] unfolding UVector_indexOf_def
    by (metis le0)
  then show ?thesis
  proof cases
    case 1
    show ?thesis
      by (rule none) (use 1 len nth in \<open>auto simp: in_set_conv_nth\<close>)
  next
    case (2 k)
    show ?thesis
      by (rule some [of k]) (use 2 len nth in auto)
  qed
qed

lemma indexOf_neg_iff:
  "vec_ok v \<Longrightarrow> UVector_indexOf v key 0 h < 0 \<longleftrightarrow>
     \<not> (\<exists>e \<in> set (vec_contents v). slot_matches (comparer v) key h e)"
  by (erule indexOf_cases [of v key h]) (auto intro: nth_mem)

lemma retainAll_loop_spec:
  assumes "vec_ok v" and "vec_ok other" and "j \<le> nat (count v)"
    and "retainAll_loop j v other ch = (ch', v')"
  shows "vec_ok v' \<and> vec_contents v' = filter (\<lambda>e. \<exists>x \<in> set (vec_contents other).
      slot_matches (comparer other) e False x) (take j (vec_contents v)) @ drop j (vec_contents v)"
  using assms
proof (induction j arbitrary: v ch)
  case 0
  then show ?case by simp
next
  case (Suc j)
  let ?P = "\<lambda>e. \<exists>x \<in> set (vec_contents other). slot_matches (comparer other) e False x"
  have j: "j < length (vec_contents v)" "elements v ! j = vec_contents v ! j"
    using Suc.prems by (auto simp: vec_defs)
  have take: "take (Suc j) (vec_contents v) = take j (vec_contents v) @ [vec_contents v ! j]"
    using j by (simp add: take_Suc_conv_app_nth)
  show ?case
  proof (cases "?P (vec_contents v ! j)")
    case True
    with Suc.prems j have "retainAll_loop j v other ch = (ch', v')"
      by (simp add: indexOf_neg_iff)
    from Suc.IH [OF Suc.prems(1,2) _ this] Suc.prems(3) have
      "vec_ok v' \<and> vec_contents v' = filter ?P (take j (vec_contents v)) @ drop j (vec_contents v)"
      by simp
    with True take j show ?thesis by (simp add: Cons_nth_drop_Suc)
  next
    case False
    let ?w = "UVector_removeElementAt v (int j)"
    from False Suc.prems j have r: "retainAll_loop j ?w other True = (ch', v')"
      by (simp add: indexOf_neg_iff)
    have w: "vec_ok ?w" "count ?w = count v - 1"
      "vec_contents ?w = take j (vec_contents v) @ drop (Suc j) (vec_contents v)"
      using removeElementAt_ok [of v "int j"] Suc.prems by auto
    have "j \<le> nat (count ?w)" using w(2) Suc.prems(3) by linarith
    from Suc.IH [OF w(1) Suc.prems(2) this r] have
      "vec_ok v' \<and> vec_contents v' = filter ?P (take j (vec_contents ?w)) @ drop j (vec_contents ?w)" .
    with False take j w(3) show ?thesis by simp
  qed
qed

text \<open>
  \<open>retainAll\<close> keeps exactly the elements that the other vector contains, in their order.
\<close>

theorem retainAll_spec:
  assumes "vec_ok v" and "vec_ok other" and "UVector_retainAll v other = (changed, v')"
  shows "vec_ok v' \<and> vec_contents v' = filter (\<lambda>e. \<exists>x \<in> set (vec_contents other).
      slot_matches (comparer other) e False x) (vec_contents v)"
  using retainAll_loop_spec [OF assms(1,2) _ assms(3)[unfolded UVector_retainAll_def]] assms(1)
  by simp

theorem retainAll_spec_witness:
  "vec_contents (snd (UVector_retainAll
     \<lparr>count = 3, capacity = 4, elements = [Pointer ''a'', Pointer ''b'', Pointer ''c'', Uninit],
      deleter = True, comparer = Some (=), freed = []\<rparr> sample_vector))
   = [Pointer ''a'', Pointer ''c'']"
proof -
  let ?v = "\<lparr>count = 3, capacity = 4, elements = [Pointer ''a'', Pointer ''b'', Pointer ''c'', Uninit],
      deleter = True, comparer = Some (=), freed = []\<rparr> :: string UVector"
  obtain ch v' where r: "UVector_retainAll ?v sample_vector = (ch, v')" by fastforce
  have "vec_ok ?v" "vec_ok sample_vector" by (simp_all add: vec_defs)
  from retainAll_spec [OF this r] show ?thesis
    by (simp add: r vec_contents_def [of ?v] vec_contents_def [of sample_vector] slot_matches_def)
qed

subsection \<open>Sorted insertion\<close>

lemma sortedInsert_eq:
  "UVector_sortedInsert alloc v e compare U_ZERO_ERROR =
    (case uvector_insert_at alloc v e
            (insertion_point (\<lambda>x. compare x e > 0) (elements v) 0 (nat (count v))) of
       Some v' \<Rightarrow> (v', U_ZERO_ERROR)
     | None \<Rightarrow> (v, snd (snd (UVector_ensureCapacity alloc v (count v + 1) U_ZERO_ERROR))))"
  by (auto simp: UVector_sortedInsert_def uvector_insert_at_def UVector_ensureCapacity_def Let_def)

text \<open>
  The comparison has to be a total preorder only on the elements involved.
\<close>

lemma sortedInsert_ok:
  assumes "vec_ok v" and "e \<noteq> Uninit"
    and total: "\<And>x y. x \<in> D \<Longrightarrow> y \<in> D \<Longrightarrow> compare x y \<le> 0 \<or> compare y x \<le> (0::int)"
    and trans: "\<And>x y z. x \<in> D \<Longrightarrow> y \<in> D \<Longrightarrow> z \<in> D \<Longrightarrow>
      compare x y \<le> 0 \<Longrightarrow> compare y z \<le> 0 \<Longrightarrow> compare x z \<le> 0"
    and D: "insert e (set (vec_contents v)) \<subseteq> D"
    and sorted: "sorted_wrt (\<lambda>x y. compare x y \<le> 0) (vec_contents v)"
    and ret: "UVector_sortedInsert alloc v e compare U_ZERO_ERROR = (v', ec)"
  shows "(U_FAILURE ec \<and> v' = v) \<or>
    (ec = U_ZERO_ERROR \<and> vec_ok v' \<and> sorted_wrt (\<lambda>x y. compare x y \<le> 0) (vec_contents v') \<and>
     (\<exists>i \<le> length (vec_contents v). vec_contents v' = take i (vec_contents v) @ e # drop i (vec_contents v)))"
proof (cases "uvector_insert_at alloc v e
    (insertion_point (\<lambda>x. compare x e > 0) (elements v) 0 (nat (count v)))")
  case None
  with ret uvector_insert_at_None [OF None] show ?thesis by (auto simp: sortedInsert_eq)
next
  case (Some w)
  let ?n = "nat (count v)"
  let ?p = "insertion_point (\<lambda>x. compare x e > 0) (elements v) 0 ?n"
  have w: "v' = w" "ec = U_ZERO_ERROR" using ret Some by (auto simp: sortedInsert_eq)
  have nth: "vec_contents v ! k = elements v ! k" "elements v ! k \<in> D" if "k < ?n" for k
    using assms(1) that D nth_mem [of k "vec_contents v"] by (auto simp: vec_defs)
  have e: "e \<in> D" using D by simp
  have p: "?p \<le> ?n" using insertion_point_bounds [of 0 ?n] by simp
  have mono: "compare (elements v ! j) e > 0"
    if "i \<le> j" "j < ?n" "compare (elements v ! i) e > 0" for i j
  proof (rule ccontr)
    assume n: "\<not> compare (elements v ! j) e > 0"
    with that(3) have "i \<noteq> j" by auto
    with sorted that assms(1) have "compare (elements v ! i) (elements v ! j) \<le> 0"
      by (auto simp: sorted_wrt_iff_nth_less nth)
    then have "compare (elements v ! i) e \<le> 0"
      using trans [of "elements v ! i" "elements v ! j" e] n e nth(2) that by simp
    with that(3) show False by simp
  qed
  have split: "(\<forall>k < ?p. \<not> compare (elements v ! k) e > 0) \<and>
      (\<forall>k < ?n. ?p \<le> k \<longrightarrow> compare (elements v ! k) e > 0)"
    by (rule insertion_point_split) (use mono in auto)
  have c: "vec_contents w = take ?p (vec_contents v) @ e # drop ?p (vec_contents v)" "vec_ok w"
    using uvec.insert_at [OF assms(1,2) _ Some] p assms(1) by auto
  have "sorted_wrt (\<lambda>x y. compare x y \<le> 0) (vec_contents w)"
  proof (rule uvec.sorted_insert [OF assms(1,2) Some _ sorted])
    show "?p \<le> length (vec_contents v)" using p assms(1) by simp
    show "compare (vec_contents v ! k) e \<le> 0" if "k < ?p" for k
      using split p that nth(1) [of k] by fastforce
    show "compare e (vec_contents v ! k) \<le> 0" if "?p \<le> k" "k < length (vec_contents v)" for k
      using split that assms(1) nth [of k] total [of e "elements v ! k"] e by fastforce
  qed
  with c w p assms(1) show ?thesis by (metis length_vec_contents)
qed

lemma sortedInsert_fields:
  "UVector_sortedInsert alloc v e compare ec = (v', ec') \<Longrightarrow>
    deleter v' = deleter v \<and> comparer v' = comparer v \<and> freed v' = freed v"
  by (auto simp: UVector_sortedInsert_def UVector_ensureCapacity_def insert_slot_def Let_def
      split: if_splits prod.splits)

text \<open>
  Room for one more element: a free slot, or a doubled array that is below the size limit and that the allocator grants.
\<close>

lemma ensureCapacity_outcome:
  assumes "vec_ok v" and "ok = (count v < capacity v \<or>
      (let n = sizeof_UElement * max (2 * capacity v) (count v + 1) in n \<le> INT32_MAX \<and> alloc n))"
  shows "fst (UVector_ensureCapacity alloc v (count v + 1) ec) = ok"
proof -
  have "(if capacity v * 2 < count v + 1 then count v + 1 else capacity v * 2) = max (2 * capacity v) (count v + 1)"
    by simp
  then show ?thesis
    using assms unfolding UVector_ensureCapacity_def vec_ok_def by (auto simp: Let_def)
qed

text \<open>
  C28. \<open>sortedInsert\<close> with a comparison that is a total preorder: where the vector has a free slot, or its doubled
  array is below the size limit and the allocator grants it, it succeeds, the vector stays sorted and well-formed, and exactly
  the new element has been added.  Otherwise the vector is unchanged and the status is an error.
\<close>

theorem sortedInsert_spec:
  assumes "vec_ok v" and "e \<noteq> Uninit"
    and "\<And>x y. compare x y \<le> 0 \<or> compare y x \<le> (0::int)"
    and "\<And>x y z. compare x y \<le> 0 \<Longrightarrow> compare y z \<le> 0 \<Longrightarrow> compare x z \<le> 0"
    and "sorted_wrt (\<lambda>x y. compare x y \<le> 0) (vec_contents v)"
    and "UVector_sortedInsert alloc v e compare U_ZERO_ERROR = (v', ec)"
  shows "if count v < capacity v \<or>
      (let n = sizeof_UElement * max (2 * capacity v) (count v + 1) in n \<le> INT32_MAX \<and> alloc n)
    then ec = U_ZERO_ERROR \<and> vec_ok v' \<and> sorted_wrt (\<lambda>x y. compare x y \<le> 0) (vec_contents v') \<and>
     (\<exists>i \<le> length (vec_contents v). vec_contents v' = take i (vec_contents v) @ e # drop i (vec_contents v))
    else U_FAILURE ec \<and> v' = v"
proof -
  have D: "(U_FAILURE ec \<and> v' = v) \<or>
    (ec = U_ZERO_ERROR \<and> vec_ok v' \<and> sorted_wrt (\<lambda>x y. compare x y \<le> 0) (vec_contents v') \<and>
     (\<exists>i \<le> length (vec_contents v). vec_contents v' = take i (vec_contents v) @ e # drop i (vec_contents v)))"
    by (rule sortedInsert_ok [where D = UNIV]) (use assms in blast)+
  obtain ok w ec' where w: "UVector_ensureCapacity alloc v (count v + 1) U_ZERO_ERROR = (ok, w, ec')"
    by (metis prod_cases3)
  have "ok \<longleftrightarrow> \<not> U_FAILURE ec"
    using assms(6) w ensureCapacity_True [OF assms(1), of alloc "count v + 1" U_ZERO_ERROR w ec']
      ensureCapacity_False [of alloc v "count v + 1" U_ZERO_ERROR w ec']
    by (cases ok) (auto simp: UVector_sortedInsert_def Let_def)
  then show ?thesis
    using D ensureCapacity_outcome [OF assms(1) refl, of alloc U_ZERO_ERROR] unfolding w by auto
qed

theorem sortedInsert_spec_witness:
  "\<exists>v'. UVector_sortedInsert (\<lambda>n. True)
       \<lparr>count = 2, capacity = 2, elements = [Integer 3, Integer 9], deleter = False,
        comparer = None, freed = ([] :: string list)\<rparr>
       (Integer 5) (\<lambda>x y. as_integer x - as_integer y) U_ZERO_ERROR = (v', U_ZERO_ERROR) \<and>
     vec_contents v' = [Integer 3, Integer 5, Integer 9]"
proof -
  let ?v = "\<lparr>count = 2, capacity = 2, elements = [Integer 3, Integer 9], deleter = False,
      comparer = None, freed = []\<rparr> :: string UVector"
  obtain v' ec where r: "UVector_sortedInsert (\<lambda>n. True) ?v (Integer 5)
      (\<lambda>x y. as_integer x - as_integer y) U_ZERO_ERROR = (v', ec)" by fastforce
  have c: "vec_contents ?v = [Integer 3, Integer 9]" by (simp add: vec_contents_def)
  have ok: "vec_ok ?v" "sorted_wrt (\<lambda>x y. as_integer x - as_integer y \<le> 0) (vec_contents ?v)"
    by (simp_all add: vec_defs)
  have cmp: "as_integer x - as_integer y \<le> 0 \<or> as_integer y - as_integer x \<le> 0"
    "as_integer x - as_integer y \<le> 0 \<Longrightarrow> as_integer y - as_integer z \<le> 0 \<Longrightarrow> as_integer x - as_integer z \<le> 0"
    for x y z :: "string UElement" by auto
  have room: "count ?v < capacity ?v \<or>
    (let n = sizeof_UElement * max (2 * capacity ?v) (count ?v + 1) in n \<le> INT32_MAX \<and> True)" by simp
  have "Integer 5 \<noteq> (Uninit :: string UElement)" by simp
  then have spec: "ec = U_ZERO_ERROR \<and> sorted_wrt (\<lambda>x y. as_integer x - as_integer y \<le> 0) (vec_contents v') \<and>
     (\<exists>i \<le> length [Integer 3, Integer 9 :: string UElement].
       vec_contents v' = take i [Integer 3, Integer 9] @ Integer 5 # drop i [Integer 3, Integer 9])"
    using sortedInsert_spec [OF ok(1) _ _ _ ok(2) r] cmp unfolding if_P [OF room] c by blast
  then have ec: "ec = U_ZERO_ERROR" and s: "sorted_wrt (\<lambda>x y. as_integer x - as_integer y \<le> 0) (vec_contents v')"
    by blast+
  obtain i where "i \<le> length [Integer 3, Integer 9 :: string UElement]"
    and i: "vec_contents v' = take i [Integer 3, Integer 9] @ Integer 5 # drop i [Integer 3, Integer 9]"
    using spec by blast
  then have "i = 0 \<or> i = 1 \<or> i = 2" by auto
  then have "vec_contents v' = [Integer 3, Integer 5, Integer 9]" using s i by auto
  with r ec show ?thesis by simp
qed

subsection \<open>Ownership\<close>

text \<open>The objects a vector holds.\<close>

definition held :: "'p UVector \<Rightarrow> 'p list" where
  "held v = List.map_filter as_pointer (vec_contents v)"

lemma map_filter_as_pointer_simps [simp]:
  "List.map_filter as_pointer (xs @ ys) = List.map_filter as_pointer xs @ List.map_filter as_pointer ys"
  "List.map_filter as_pointer (x # xs) =
     (case as_pointer x of None \<Rightarrow> [] | Some q \<Rightarrow> [q]) @ List.map_filter as_pointer xs"
  "List.map_filter as_pointer [] = []"
  by (auto simp: List.map_filter_def split: option.splits)

lemma mset_held_remove:
  assumes "vec_ok v" and "deleter v"
  shows "mset (held (UVector_removeElementAt v i)) + mset (freed (UVector_removeElementAt v i))
    = mset (held v) + mset (freed v)"
proof (cases "0 \<le> i \<and> i < count v")
  case True
  then have i: "nat i < length (vec_contents v)" using assms by simp
  then have "vec_contents v = take (nat i) (vec_contents v) @ vec_contents v ! nat i #
      drop (Suc (nat i)) (vec_contents v)"
    by (simp add: id_take_nth_drop)
  then have "mset (held v) = mset (List.map_filter as_pointer (take (nat i) (vec_contents v) @
      vec_contents v ! nat i # drop (Suc (nat i)) (vec_contents v)))"
    by (simp add: held_def)
  then show ?thesis
    using removeElementAt_ok [of v i] True assms by (simp add: held_def split: option.splits)
next
  case False
  then show ?thesis using removeElementAt_out_of_range [of i v] by simp
qed

lemma removeElementAt_vec_ok: "vec_ok v \<Longrightarrow> vec_ok (UVector_removeElementAt v i)"
  using removeElementAt_ok [of v i] removeElementAt_out_of_range [of i v]
  by (cases "0 \<le> i \<and> i < count v") auto

lemma removeElementAt_deleter [simp]: "deleter (UVector_removeElementAt v i) = deleter v"
  by (auto simp: UVector_removeElementAt_def UVector_orphanElementAt_def)

text \<open>
  With a deleter, \<open>removeAll\<close> neither leaks nor double-deletes: the objects held and the
  objects deleted stay together the same multiset.
\<close>

theorem removeAll_ownership:
  assumes "vec_ok v" and "deleter v"
  shows "mset (held (snd (UVector_removeAll v other))) + mset (freed (snd (UVector_removeAll v other)))
    = mset (held v) + mset (freed v)"
proof -
  have "mset (held (snd (removeAll_loop v es ch))) + mset (freed (snd (removeAll_loop v es ch)))
      = mset (held v) + mset (freed v)" for es ch
    using assms
  proof (induction es arbitrary: v ch)
    case (Cons e es)
    then show ?case
      by (auto simp: Let_def mset_held_remove removeElementAt_vec_ok)
  qed simp
  then show ?thesis by (simp add: UVector_removeAll_def)
qed

theorem removeAll_ownership_witness:
  "mset (held (snd (UVector_removeAll sample_vector sample_vector))) +
   mset (freed (snd (UVector_removeAll sample_vector sample_vector))) = {#''a'', ''c''#}"
  using removeAll_ownership [of sample_vector sample_vector]
  by (simp add: vec_defs held_def)

subsection \<open>UStack\<close>

lemma last_vec_contents:
  assumes "vec_ok v" and "count v > 0"
  shows "vec_contents v = take (nat (count v - 1)) (vec_contents v) @ [vec_contents v ! nat (count v - 1)]"
proof -
  have "length (vec_contents v) = Suc (nat (count v - 1))" using assms by simp
  then show ?thesis by (metis lessI order_refl take_Suc_conv_app_nth take_all)
qed

lemma pop_spec:
  assumes "vec_ok v" and "count v > 0" and "UStack_pop v = (p, v')"
  shows "p = as_pointer (last (vec_contents v)) \<and> vec_contents v' = butlast (vec_contents v) \<and>
    vec_ok v' \<and> freed v' = (if deleter v then freed v @ (case p of None \<Rightarrow> [] | Some q \<Rightarrow> [q])
                           else freed v)"
proof -
  have n: "nat (count v - 1) = length (vec_contents v) - 1" "length (vec_contents v) > 0"
    "Suc (nat (count v - 1)) = length (vec_contents v)"
    using assms by simp_all
  have last: "last (vec_contents v) = vec_contents v ! nat (count v - 1)"
    using n by (metis last_conv_nth length_greater_0_conv)
  have p: "p = as_pointer (vec_contents v ! nat (count v - 1))"
    "v' = UVector_removeElementAt v (count v - 1)"
    using assms by (auto simp: UStack_pop_def UVector_elementAt_def Let_def vec_contents_nth)
  then show ?thesis
    using removeElementAt_ok [of v "count v - 1"] assms n by (simp add: last butlast_conv_take)
qed

text \<open>
  Popping what was just pushed gives the pushed object and the old stack, when no deleter is
  set and the push succeeded.
\<close>

theorem push_pop:
  assumes "vec_ok v" and "\<not> deleter v"
    and "UStack_push alloc v obj U_ZERO_ERROR = (r, v', U_ZERO_ERROR)"
  shows "\<exists>v''. UStack_pop v' = (obj, v'') \<and> vec_contents v'' = vec_contents v \<and> vec_ok v'' \<and>
    freed v'' = freed v"
proof -
  let ?n = "nat (count v)"
  obtain ok w ec where e: "UVector_ensureCapacity alloc v (count v + 1) U_ZERO_ERROR = (ok, w, ec)"
    by (metis prod_cases3)
  have ok: "ok" "v' = w\<lparr>elements := (elements w)[nat (count w) := of_pointer obj], count := count w + 1\<rparr>"
    using assms(3) e ensureCapacity_False [of alloc v "count v + 1" U_ZERO_ERROR w ec]
    by (auto simp: UStack_push_def UVector_addElement_def split: if_splits)
  then have w: "vec_ok w" "vec_contents w = vec_contents v" "count v + 1 \<le> capacity w"
    "count w = count v" "deleter w = deleter v" "freed w = freed v"
    using ensureCapacity_True [OF assms(1)] e by auto
  have len: "?n < length (elements w)" "0 \<le> count v" using w by (auto simp: vec_ok_def)
  have "vec_contents v' = vec_contents v @ [of_pointer obj]"
    using w len by (simp add: ok vec_contents_def nat_add_distrib take_Suc_conv_app_nth)
  moreover from this have "vec_ok v'"
    unfolding vec_ok_def using w len of_pointer_neq_Uninit(1) [of obj]
    by (auto simp: ok vec_ok_def simp del: of_pointer_neq_Uninit)
  moreover have "count v' > 0" "deleter v' = deleter v" "freed v' = freed v"
    using w len by (simp_all add: ok)
  moreover obtain p v'' where "UStack_pop v' = (p, v'')" by fastforce
  ultimately show ?thesis
    using pop_spec [of v' p v''] assms(2) by simp
qed

theorem push_pop_witness:
  "vec_contents (snd (UStack_pop (fst (snd (UStack_push (\<lambda>n. True) (sample_vector\<lparr>deleter := False\<rparr>)
     (Some ''x'') U_ZERO_ERROR))))) = [Pointer ''a'', Pointer ''c'']"
proof -
  let ?v = "sample_vector\<lparr>deleter := False\<rparr>"
  obtain r v' ec where p: "UStack_push (\<lambda>n. True) ?v (Some ''x'') U_ZERO_ERROR = (r, v', ec)"
    by (metis prod_cases3)
  have "ec = U_ZERO_ERROR"
    using p by (auto simp: UStack_push_def UVector_addElement_def UVector_ensureCapacity_def)
  moreover have "vec_ok ?v" by (simp add: vec_defs)
  ultimately show ?thesis
    using push_pop [of ?v "\<lambda>n. True" "Some ''x''" r v'] p by (auto simp: vec_contents_def)
qed

text \<open>
  On a stack with a deleter, \<open>pop\<close> deletes the object it returns: the caller gets a dangling
  pointer.
\<close>

theorem pop_returns_deleted:
  assumes "vec_ok v" and "deleter v" and "count v > 0" and "UStack_pop v = (Some q, v')"
  shows "q \<in> set (freed v')"
  using pop_spec [OF assms(1,3,4)] assms(2) by simp

theorem pop_returns_deleted_witness:
  "UStack_pop sample_vector = (Some ''c'', snd (UStack_pop sample_vector)) \<and>
   ''c'' \<in> set (freed (snd (UStack_pop sample_vector)))"
proof -
  have r: "UStack_pop sample_vector = (Some ''c'', snd (UStack_pop sample_vector))"
    by (simp add: UStack_pop_def UVector_elementAt_def)
  have "vec_ok sample_vector" by (simp add: vec_defs)
  with pop_returns_deleted [OF this _ _ r] r show ?thesis by simp
qed

end
