(* ===== verification/InversionList.thy ===== *)
theory InversionList
  imports Prelude
begin

text \<open>
  Inversion lists (\<open>common/uniset.cpp\<close>): the sorted array of range boundaries
  \<open>[start_0, limit_0, start_1, limit_1, ..., HIGH]\<close> that represents the code points of a
  \<open>UnicodeSet\<close>, the binary search on it, and the three merging loops behind all set
  operations.

  In the loops, the read pointers \<open>list+i\<close> and \<open>other+j\<close> are the suffixes of the two arrays
  that are still to be read, and \<open>buffer[0..k-1]\<close> is a list in reverse order, so that its head
  is \<open>buffer[k-1]\<close>.  Every read past the end of an array and every write beyond the buffer's
  capacity \<open>cap\<close> makes the result \<open>None\<close>: a theorem that a loop returns \<open>Some\<close> also says
  that it stays inside its arrays and that it terminates.
\<close>

abbreviation UNICODESET_HIGH :: int where "UNICODESET_HIGH \<equiv> 0x110000"
abbreviation (input) UNICODESET_LOW :: int where "UNICODESET_LOW \<equiv> 0"

section \<open>Searching\<close>

text \<open>\<open>pinCodePoint\<close>: the caller's variable is updated with the returned value.\<close>

definition pinCodePoint :: "UChar32 \<Rightarrow> UChar32" where
  "pinCodePoint c =
     (if c < UNICODESET_LOW then UNICODESET_LOW
      else if c > UNICODESET_HIGH - 1 then UNICODESET_HIGH - 1 else c)"

text \<open>
  The loop stops at \<open>i == lo\<close>; the midpoint is never below \<open>lo\<close> when \<open>lo <= hi\<close>.
\<close>

function findCodePoint_loop :: "int list \<Rightarrow> UChar32 \<Rightarrow> nat \<Rightarrow> nat \<Rightarrow> nat" where
  "findCodePoint_loop xs c lo hi =
     (let i = (lo + hi) div 2 in
      if i \<le> lo then hi
      else if c < xs ! i then findCodePoint_loop xs c lo i
      else findCodePoint_loop xs c i hi)"
  by pat_completeness auto
termination
  by (relation "measure (\<lambda>(xs, c, lo, hi). hi - lo)") auto

declare findCodePoint_loop.simps [simp del]

definition findCodePoint_list :: "int list \<Rightarrow> UChar32 \<Rightarrow> nat" where
  "findCodePoint_list xs c =
     (if c < xs ! 0 then 0
      else let lo = 0; hi = length xs - 1
           in if lo \<ge> hi \<or> c \<ge> xs ! (hi - 1) then hi else findCodePoint_loop xs c lo hi)"

section \<open>The merging loops\<close>

fun exclusiveOr_loop ::
  "nat \<Rightarrow> int \<Rightarrow> int list \<Rightarrow> int \<Rightarrow> int list \<Rightarrow> int list \<Rightarrow> int list option" where
  "exclusiveOr_loop cap a as b bs buf =
     (if a < b then
        (if length buf < cap then
           (case as of [] \<Rightarrow> None | a' # as' \<Rightarrow> exclusiveOr_loop cap a' as' b bs (a # buf))
         else None)
      else if b < a then
        (if length buf < cap then
           (case bs of [] \<Rightarrow> None | b' # bs' \<Rightarrow> exclusiveOr_loop cap a as b' bs' (b # buf))
         else None)
      else if a \<noteq> UNICODESET_HIGH then
        (case as of [] \<Rightarrow> None
         | a' # as' \<Rightarrow> (case bs of [] \<Rightarrow> None
                        | b' # bs' \<Rightarrow> exclusiveOr_loop cap a' as' b' bs' buf))
      else if length buf < cap then Some (rev (UNICODESET_HIGH # buf)) else None)"

text \<open>
  The prologue chooses the first \<open>b\<close>.  In the inverted case with a leading \<open>LOW\<close>, \<open>b\<close> is
  read from \<open>other[1]\<close> and \<open>j\<close> stays 1, so the loop reads the same element again.
\<close>

definition exclusiveOr_merge :: "nat \<Rightarrow> int list \<Rightarrow> int list \<Rightarrow> int \<Rightarrow> int list option" where
  "exclusiveOr_merge cap xs other polarity =
     (case xs of [] \<Rightarrow> None | a # as \<Rightarrow>
        if polarity = 1 \<or> polarity = 2 then
          (case other of [] \<Rightarrow> None
           | o0 # os \<Rightarrow>
               if o0 = UNICODESET_LOW then
                 (case os of [] \<Rightarrow> None | o1 # os' \<Rightarrow> exclusiveOr_loop cap a as o1 os [])
               else exclusiveOr_loop cap a as UNICODESET_LOW other [])
        else (case other of [] \<Rightarrow> None | b # bs \<Rightarrow> exclusiveOr_loop cap a as b bs []))"

text \<open>
  \<open>case 0\<close> of the union loop, taking \<open>a\<close>: back up over an overlapping range, or append.  The
  result is the new \<open>a\<close> and the new buffer.
\<close>

definition take_or_extend :: "nat \<Rightarrow> int \<Rightarrow> int \<Rightarrow> int list \<Rightarrow> (int \<times> int list) option" where
  "take_or_extend cap x nxt buf =
     (if buf \<noteq> [] \<and> x \<le> hd buf then Some (max nxt (hd buf), tl buf)
      else if length buf < cap then Some (nxt, x # buf) else None)"

fun add_loop ::
  "nat \<Rightarrow> int \<Rightarrow> int list \<Rightarrow> int \<Rightarrow> int list \<Rightarrow> int list \<Rightarrow> int \<Rightarrow> int list option" where
  "add_loop cap a as b bs buf polarity =
     (if polarity = 0 then
        (if a < b then
           (case as of [] \<Rightarrow> None
            | a' # as' \<Rightarrow> (case take_or_extend cap a a' buf of None \<Rightarrow> None
                           | Some (a2, buf2) \<Rightarrow> add_loop cap a2 as' b bs buf2 1))
         else if b < a then
           (case bs of [] \<Rightarrow> None
            | b' # bs' \<Rightarrow> (case take_or_extend cap b b' buf of None \<Rightarrow> None
                           | Some (b2, buf2) \<Rightarrow> add_loop cap a as b2 bs' buf2 2))
         else if a = UNICODESET_HIGH then
           (if length buf < cap then Some (rev (UNICODESET_HIGH # buf)) else None)
         else
           (case as of [] \<Rightarrow> None
            | a' # as' \<Rightarrow> (case take_or_extend cap a a' buf of None \<Rightarrow> None
                           | Some (a2, buf2) \<Rightarrow>
                               (case bs of [] \<Rightarrow> None
                                | b' # bs' \<Rightarrow> add_loop cap a2 as' b' bs' buf2 3))))
      else if polarity = 3 then
        (let t = (if b \<le> a then a else b) in
         if t = UNICODESET_HIGH then
           (if length buf < cap then Some (rev (UNICODESET_HIGH # buf)) else None)
         else if length buf < cap then
           (case as of [] \<Rightarrow> None
            | a' # as' \<Rightarrow> (case bs of [] \<Rightarrow> None
                           | b' # bs' \<Rightarrow> add_loop cap a' as' b' bs' (t # buf) 0))
         else None)
      else if polarity = 1 then
        (if a < b then
           (if length buf < cap then
              (case as of [] \<Rightarrow> None | a' # as' \<Rightarrow> add_loop cap a' as' b bs (a # buf) 0)
            else None)
         else if b < a then
           (case bs of [] \<Rightarrow> None | b' # bs' \<Rightarrow> add_loop cap a as b' bs' buf 3)
         else if a = UNICODESET_HIGH then
           (if length buf < cap then Some (rev (UNICODESET_HIGH # buf)) else None)
         else
           (case as of [] \<Rightarrow> None
            | a' # as' \<Rightarrow> (case bs of [] \<Rightarrow> None
                           | b' # bs' \<Rightarrow> add_loop cap a' as' b' bs' buf 2)))
      else if polarity = 2 then
        (if b < a then
           (if length buf < cap then
              (case bs of [] \<Rightarrow> None | b' # bs' \<Rightarrow> add_loop cap a as b' bs' (b # buf) 0)
            else None)
         else if a < b then
           (case as of [] \<Rightarrow> None | a' # as' \<Rightarrow> add_loop cap a' as' b bs buf 3)
         else if a = UNICODESET_HIGH then
           (if length buf < cap then Some (rev (UNICODESET_HIGH # buf)) else None)
         else
           (case as of [] \<Rightarrow> None
            | a' # as' \<Rightarrow> (case bs of [] \<Rightarrow> None
                           | b' # bs' \<Rightarrow> add_loop cap a' as' b' bs' buf 1)))
      else None)"

definition add_merge :: "nat \<Rightarrow> int list \<Rightarrow> int list \<Rightarrow> int \<Rightarrow> int list option" where
  "add_merge cap xs other polarity =
     (case xs of [] \<Rightarrow> None | a # as \<Rightarrow>
        (case other of [] \<Rightarrow> None | b # bs \<Rightarrow> add_loop cap a as b bs [] polarity))"

text \<open>
  The intersection loop.  In every state, equal \<open>HIGH\<close> values end the loop; \<open>keep_a\<close>,
  \<open>keep_b\<close> and \<open>keep_ab\<close> name what the four cases write when \<open>a\<close> is smaller, \<open>b\<close> is
  smaller, or both are equal.
\<close>

text \<open>Any other polarity matches no case of the switch and loops forever: \<open>None\<close>.\<close>

definition keep_a :: "int \<Rightarrow> bool" where "keep_a polarity = (polarity = 3 \<or> polarity = 2)"
definition keep_b :: "int \<Rightarrow> bool" where "keep_b polarity = (polarity = 3 \<or> polarity = 1)"
definition keep_ab :: "int \<Rightarrow> bool" where "keep_ab polarity = (polarity = 0 \<or> polarity = 3)"

text \<open>\<open>polarity ^= 1\<close> and \<open>polarity ^= 2\<close>.\<close>

definition flip_a :: "int \<Rightarrow> int" where "flip_a polarity = polarity XOR 1"
definition flip_b :: "int \<Rightarrow> int" where "flip_b polarity = polarity XOR 2"

fun retain_loop ::
  "nat \<Rightarrow> int \<Rightarrow> int list \<Rightarrow> int \<Rightarrow> int list \<Rightarrow> int list \<Rightarrow> int \<Rightarrow> int list option" where
  "retain_loop cap a as b bs buf polarity =
     (if polarity < 0 \<or> 3 < polarity then None
      else if a < b then
        (if keep_a polarity \<and> \<not> length buf < cap then None
         else (case as of [] \<Rightarrow> None
               | a' # as' \<Rightarrow> retain_loop cap a' as' b bs
                              (if keep_a polarity then a # buf else buf) (flip_a polarity)))
      else if b < a then
        (if keep_b polarity \<and> \<not> length buf < cap then None
         else (case bs of [] \<Rightarrow> None
               | b' # bs' \<Rightarrow> retain_loop cap a as b' bs'
                              (if keep_b polarity then b # buf else buf) (flip_b polarity)))
      else if a = UNICODESET_HIGH then
        (if length buf < cap then Some (rev (UNICODESET_HIGH # buf)) else None)
      else if keep_ab polarity \<and> \<not> length buf < cap then None
      else (case as of [] \<Rightarrow> None
            | a' # as' \<Rightarrow> (case bs of [] \<Rightarrow> None
                           | b' # bs' \<Rightarrow> retain_loop cap a' as' b' bs'
                               (if keep_ab polarity then a # buf else buf)
                               (flip_b (flip_a polarity)))))"

definition retain_merge :: "nat \<Rightarrow> int list \<Rightarrow> int list \<Rightarrow> int \<Rightarrow> int list option" where
  "retain_merge cap xs other polarity =
     (case xs of [] \<Rightarrow> None | a # as \<Rightarrow>
        (case other of [] \<Rightarrow> None | b # bs \<Rightarrow> retain_loop cap a as b bs [] polarity))"

declare exclusiveOr_loop.simps [simp del] add_loop.simps [simp del] retain_loop.simps [simp del]

section \<open>Meaning\<close>

text \<open>The set an inversion list stands for; the last range is open-ended up to \<open>HIGH\<close>.\<close>

fun inv_set :: "int list \<Rightarrow> int set" where
  "inv_set [] = {}"
| "inv_set [x] = {x..<UNICODESET_HIGH}"
| "inv_set (x # y # xs) = {x..<y} \<union> inv_set xs"

text \<open>
  \<open>inv_list lo xs\<close>: strictly increasing above \<open>lo\<close> up to the terminating \<open>HIGH\<close>.  The
  three-element arrays the range operations build may repeat the terminator.
\<close>

fun inv_list :: "int \<Rightarrow> int list \<Rightarrow> bool" where
  "inv_list lo [] = False"
| "inv_list lo (x # xs) = (lo < x \<and>
     (if x = UNICODESET_HIGH then (\<forall>y \<in> set xs. y = UNICODESET_HIGH)
      else x < UNICODESET_HIGH \<and> inv_list x xs))"

text \<open>The invariant of \<open>UnicodeSet::list\<close>.\<close>

definition wf_inv :: "int list \<Rightarrow> bool" where
  "wf_inv xs \<longleftrightarrow> xs \<noteq> [] \<and> sorted_wrt (<) xs \<and> last xs = UNICODESET_HIGH \<and> 0 \<le> hd xs"


section \<open>Union\<close>


lemma inv_list_mono: "inv_list lo xs \<Longrightarrow> lo' \<le> lo \<Longrightarrow> inv_list lo' xs"
  by (cases xs) auto

lemma inv_set_all_high: "\<forall>y \<in> set xs. y = UNICODESET_HIGH \<Longrightarrow> inv_set xs = {}"
  by (induction xs rule: inv_set.induct) auto

lemma inv_set_bounds: "inv_list lo xs \<Longrightarrow> inv_set xs \<subseteq> {lo<..<UNICODESET_HIGH}"
proof (induction xs arbitrary: lo rule: inv_set.induct)
  case (3 x y xs)
  show ?case
  proof (cases "y < UNICODESET_HIGH")
    case True
    with 3 have "inv_set xs \<subseteq> {y<..<UNICODESET_HIGH}" "lo < x" "x < y" by (auto split: if_splits)
    with True show ?thesis by fastforce
  next
    case False
    with 3 have "y = UNICODESET_HIGH" "\<forall>y \<in> set xs. y = UNICODESET_HIGH"
      by (auto split: if_splits)
    with inv_set_all_high 3 show ?thesis by auto
  qed
qed auto

text \<open>The number of boundaries before the terminator.\<close>

definition below_high :: "int list \<Rightarrow> nat" where
  "below_high xs = length (filter (\<lambda>x. x < UNICODESET_HIGH) xs)"

lemma below_high_simps [simp]:
  "below_high [] = 0"
  "below_high (x # xs) = (if x < UNICODESET_HIGH then Suc (below_high xs) else below_high xs)"
  by (simp_all add: below_high_def)

text \<open>The meaning of a buffer of complete ranges, in reverse order.\<close>

fun rset :: "int list \<Rightarrow> int set" where
  "rset (e # s # r) = {s..<e} \<union> rset r"
| "rset _ = {}"

lemma inv_set_rev_append: "even (length r) \<Longrightarrow> inv_set (rev r @ t) = rset r \<union> inv_set t"
proof (induction r arbitrary: t rule: rset.induct)
  case (1 e s r)
  have "inv_set (rev r @ s # e # t) = rset r \<union> inv_set (s # e # t)" using 1 by simp
  then show ?case by auto
qed auto

text \<open>A buffer, in reverse order, is strictly increasing and holds code points only.\<close>

definition rsorted :: "int list \<Rightarrow> bool" where
  "rsorted buf \<longleftrightarrow> sorted_wrt (>) buf \<and> (\<forall>x \<in> set buf. 0 \<le> x \<and> x < UNICODESET_HIGH)"

lemma rsorted_simps [simp]:
  "rsorted []" "rsorted (x # xs) \<longleftrightarrow> rsorted xs \<and> 0 \<le> x \<and> x < UNICODESET_HIGH \<and> (xs \<noteq> [] \<longrightarrow> hd xs < x)"
  by (auto simp: rsorted_def) (cases xs; auto)+

lemma wf_inv_rev_buf: "rsorted buf \<Longrightarrow> wf_inv (rev (UNICODESET_HIGH # buf))"
  by (auto simp: wf_inv_def rsorted_def sorted_wrt_append sorted_wrt_rev hd_append hd_rev)

text \<open>Inside a range that began at \<open>s\<close> and ends at \<open>a\<close>; \<open>as\<close> is what follows.\<close>

definition open_range :: "int \<Rightarrow> int \<Rightarrow> int list \<Rightarrow> bool" where
  "open_range s a as \<longleftrightarrow> s < a \<and>
     (if a = UNICODESET_HIGH then \<forall>y \<in> set as. y = UNICODESET_HIGH
      else a < UNICODESET_HIGH \<and> inv_list s as)"

lemma open_range_of_inv_list: "inv_list lo (x # y # ys) \<Longrightarrow> x < UNICODESET_HIGH \<Longrightarrow> open_range x y ys"
  by (auto simp: open_range_def split: if_splits intro: inv_list_mono)

text \<open>The start of the last range in a buffer of complete ranges.\<close>

definition last_start :: "int list \<Rightarrow> int" where
  "last_start buf = (if buf = [] then -1 else buf ! 1)"

text \<open>
  The invariant of the union loop: the ranges written, the range that is open (in the states 1 to 3,
  where its start is the last entry written) and the two rests always make up the set \<open>A\<close>.
\<close>

fun add_inv :: "int set \<Rightarrow> int \<Rightarrow> int list \<Rightarrow> int \<Rightarrow> int list \<Rightarrow> int list \<Rightarrow> int \<Rightarrow> bool" where
  "add_inv A a as b bs buf pol \<longleftrightarrow> rsorted buf \<and>
    (if pol = 0 then even (length buf) \<and> A = rset buf \<union> inv_set (a # as) \<union> inv_set (b # bs) \<and>
        inv_list (last_start buf) (a # as) \<and> inv_list (last_start buf) (b # bs)
     else \<exists>s r. buf = s # r \<and> even (length r) \<and>
      (if pol = 1 then A = rset r \<union> {s..<a} \<union> inv_set as \<union> inv_set (b # bs) \<and>
         open_range s a as \<and> inv_list s (b # bs)
       else if pol = 2 then A = rset r \<union> {s..<b} \<union> inv_set (a # as) \<union> inv_set bs \<and>
         inv_list s (a # as) \<and> open_range s b bs
       else pol = 3 \<and> A = rset r \<union> {s..<max a b} \<union> inv_set as \<union> inv_set bs \<and>
         open_range s a as \<and> open_range s b bs))"

declare add_inv.simps [simp del]

lemma add_inv_0: "add_inv A a as b bs buf 0 \<longleftrightarrow> rsorted buf \<and> even (length buf) \<and>
    inv_list (last_start buf) (a # as) \<and> inv_list (last_start buf) (b # bs) \<and>
    A = rset buf \<union> inv_set (a # as) \<union> inv_set (b # bs)"
  by (simp only: add_inv.simps refl if_True) blast

lemma add_inv_1: "add_inv A a as b bs (s # r) 1 \<longleftrightarrow> rsorted (s # r) \<and> even (length r) \<and>
    open_range s a as \<and> inv_list s (b # bs) \<and> A = rset r \<union> {s..<a} \<union> inv_set as \<union> inv_set (b # bs)"
  by (simp add: add_inv.simps del: rsorted_simps) blast

lemma add_inv_2: "add_inv A a as b bs (s # r) 2 \<longleftrightarrow> rsorted (s # r) \<and> even (length r) \<and>
    inv_list s (a # as) \<and> open_range s b bs \<and> A = rset r \<union> {s..<b} \<union> inv_set (a # as) \<union> inv_set bs"
  by (simp add: add_inv.simps del: rsorted_simps) blast

lemma add_inv_3: "add_inv A a as b bs (s # r) 3 \<longleftrightarrow> rsorted (s # r) \<and> even (length r) \<and>
    open_range s a as \<and> open_range s b bs \<and> A = rset r \<union> {s..<max a b} \<union> inv_set as \<union> inv_set bs"
  by (simp add: add_inv.simps del: rsorted_simps) blast

lemma add_inv_nonempty: "add_inv A a as b bs buf pol \<Longrightarrow> pol \<noteq> 0 \<Longrightarrow> \<exists>s r. buf = s # r"
  by (auto simp: add_inv.simps)

lemma take_or_extend_step:
  assumes "rsorted buf" "even (length buf)" "length buf < cap"
   and "inv_list (last_start buf) (x # nxt # xs)" "x < UNICODESET_HIGH"
  obtains x2 s r where "take_or_extend cap x nxt buf = Some (x2, s # r)" "rsorted (s # r)" "even (length r)"
    "rset buf \<union> inv_set (x # nxt # xs) = rset r \<union> {s..<x2} \<union> inv_set xs" "open_range s x2 xs"
    "s = x \<or> s = last_start buf" "s \<le> x" "length (s # r) \<le> Suc (length buf)"
proof (cases "buf \<noteq> [] \<and> x \<le> hd buf")
  case True
  with assms(2) obtain e s r where buf: "buf = e # s # r" by (cases buf rule: rset.cases) auto
  have sx: "s < x" "s < e" "x \<le> e" using assms True by (auto simp: buf last_start_def split: if_splits)
  have o: "open_range x nxt xs" using open_range_of_inv_list assms(4,5) by blast
  have "open_range s (max nxt e) xs"
    using o sx assms(1) by (auto simp: open_range_def buf max_def split: if_splits intro: inv_list_mono)
  moreover have "{s..<e} \<union> {x..<nxt} = {s..<max nxt e}" using sx o by (auto simp: open_range_def)
  ultimately show ?thesis
    using assms True sx by (intro that [of "max nxt e" s r]) (auto simp: take_or_extend_def buf last_start_def)
next
  case False
  have o: "open_range x nxt xs" using open_range_of_inv_list assms(4,5) by blast
  have "0 \<le> x" using assms(1,2,4) by (cases "buf" rule: rset.cases) (auto simp: last_start_def split: if_splits)
  with False o assms show ?thesis
    by (intro that [of nxt x buf]) (auto simp: take_or_extend_def)
qed


lemma rset_bound: "rsorted buf \<Longrightarrow> rset buf \<subseteq> {..<UNICODESET_HIGH}"
  by (induction buf rule: rset.induct) auto

lemma inv_set_below_HIGH: "open_range s a as \<Longrightarrow> inv_set as \<subseteq> {s<..<UNICODESET_HIGH}"
  using inv_set_bounds inv_set_all_high by (fastforce simp: open_range_def split: if_splits)

lemma inv_set_HIGH_Cons: "inv_list lo (UNICODESET_HIGH # as) \<Longrightarrow> inv_set (UNICODESET_HIGH # as) = {}"
  by (auto intro!: inv_set_all_high)

lemma open_range_HIGH: "open_range s UNICODESET_HIGH as \<Longrightarrow> inv_set as = {}"
  by (auto simp: open_range_def dest: inv_set_all_high)

lemma finish_even:
  "rsorted buf \<Longrightarrow> even (length buf) \<Longrightarrow>
    wf_inv (rev (UNICODESET_HIGH # buf)) \<and> inv_set (rev (UNICODESET_HIGH # buf)) = rset buf"
  using inv_set_rev_append [of buf "[UNICODESET_HIGH]"] wf_inv_rev_buf [of buf] by simp

lemma finish_odd:
  "rsorted buf \<Longrightarrow> odd (length buf) \<Longrightarrow>
    wf_inv (rev (UNICODESET_HIGH # buf)) \<and>
    inv_set (rev (UNICODESET_HIGH # buf)) = rset (tl buf) \<union> {hd buf..<UNICODESET_HIGH}"
  using inv_set_rev_append [of "tl buf" "[hd buf, UNICODESET_HIGH]"] wf_inv_rev_buf [of buf]
  by (cases buf) auto

lemma inv_list_next: "inv_list lo (a # as) \<Longrightarrow> a < UNICODESET_HIGH \<Longrightarrow> \<exists>a' as'. as = a' # as' \<and> inv_list a as"
  by (cases as) (auto split: if_splits)

lemma open_range_next: "open_range s a as \<Longrightarrow> a < UNICODESET_HIGH \<Longrightarrow> \<exists>a' as'. as = a' # as' \<and> inv_list s as"
  by (cases as) (auto simp: open_range_def split: if_splits)

lemma inv_list_le: "inv_list lo (a # as) \<Longrightarrow> lo < a \<and> a \<le> UNICODESET_HIGH"
  by (auto split: if_splits)

lemma open_range_le: "open_range s a as \<Longrightarrow> s < a \<and> a \<le> UNICODESET_HIGH"
  by (auto simp: open_range_def split: if_splits)

lemma open_range_shift: "open_range x y ys \<Longrightarrow> s \<le> x \<Longrightarrow> open_range s y ys"
  by (auto simp: open_range_def intro: inv_list_mono)

lemmas add_loop_0 = add_loop.simps [where polarity = 0, simplified]
lemmas add_loop_1 = add_loop.simps [where polarity = 1, simplified]
lemmas add_loop_2 = add_loop.simps [where polarity = 2, simplified]
lemmas add_loop_3 = add_loop.simps [where polarity = 3, simplified]

text \<open>An upper bound of the entries the loop still writes, plus those written.\<close>

definition room :: "int \<Rightarrow> int list \<Rightarrow> int \<Rightarrow> int list \<Rightarrow> int list \<Rightarrow> nat" where
  "room a as b bs buf = length buf + below_high (a # as) + below_high (b # bs)"

lemma room_simps:
  "a < UNICODESET_HIGH \<Longrightarrow> room a (a' # as') b bs buf = Suc (room a' as' b bs buf)"
  "b < UNICODESET_HIGH \<Longrightarrow> room a as b (b' # bs') buf = Suc (room a as b' bs' buf)"
  "room a as b bs (x # buf) = Suc (room a as b bs buf)"
  by (simp_all add: room_def)

text \<open>One iteration of the union loop: it finishes, or it continues with the invariant kept.\<close>

definition add_step :: "nat \<Rightarrow> int set \<Rightarrow> int \<Rightarrow> int list \<Rightarrow> int \<Rightarrow> int list \<Rightarrow> int list \<Rightarrow> int \<Rightarrow> bool" where
  "add_step cap A a as b bs buf pol \<longleftrightarrow>
     (\<exists>a' as' b' bs' buf' pol'. add_inv A a' as' b' bs' buf' pol' \<and>
        add_loop cap a as b bs buf pol = add_loop cap a' as' b' bs' buf' pol' \<and>
        length as' + length bs' < length as + length bs \<and> pol' \<in> {0, 1, 2, 3} \<and>
        room a' as' b' bs' buf' \<le> room a as b bs buf) \<or>
     (\<exists>out. add_loop cap a as b bs buf pol = Some out \<and> wf_inv out \<and> inv_set out = A)"

lemma add_step_next:
  assumes "add_inv A a' as' b' bs' buf' pol'"
    and "add_loop cap a as b bs buf pol = add_loop cap a' as' b' bs' buf' pol'"
    and "length as' + length bs' < length as + length bs" and "pol' \<in> {0, 1, 2, 3}"
    and "room a' as' b' bs' buf' \<le> room a as b bs buf"
  shows "add_step cap A a as b bs buf pol"
  unfolding add_step_def using assms by blast

lemma add_step_finish:
  assumes "add_loop cap a as b bs buf pol = Some out" "wf_inv out" "inv_set out = A"
  shows "add_step cap A a as b bs buf pol"
  unfolding add_step_def using assms by blast

lemma room_extend:
  "a2 < UNICODESET_HIGH \<longrightarrow> a' < UNICODESET_HIGH \<Longrightarrow> length buf2 \<le> Suc (length buf) \<Longrightarrow>
    room a2 as b bs buf2 \<le> Suc (room a' as b bs buf)"
  by (simp add: room_def)

lemma room_extend':
  "b2 < UNICODESET_HIGH \<longrightarrow> b' < UNICODESET_HIGH \<Longrightarrow> length buf2 \<le> Suc (length buf) \<Longrightarrow>
    room a as b2 bs buf2 \<le> Suc (room a as b' bs buf)"
  by (simp add: room_def)

lemma add_loop_pol1:
  assumes "add_inv A a as b bs buf 1" "length buf < cap"
  shows "add_step cap A a as b bs buf 1"
proof -
  obtain s r where buf: "buf = s # r" using add_inv_nonempty [OF assms(1)] by auto
  from assms(1) [unfolded buf add_inv_1] have I: "rsorted (s # r)" "even (length r)"
    "open_range s a as" "inv_list s (b # bs)" "A = rset r \<union> {s..<a} \<union> inv_set as \<union> inv_set (b # bs)"
    by blast+
  have le: "s < b" "b \<le> UNICODESET_HIGH" "s < a" "a \<le> UNICODESET_HIGH"
    using inv_list_le [OF I(4)] open_range_le [OF I(3)] by auto
  consider "a < b" | "b < a" | "a = b" "a < UNICODESET_HIGH" | "a = b" "a = UNICODESET_HIGH"
    using le by linarith
  then show ?thesis
  proof cases
    case 1
    then have aH: "a < UNICODESET_HIGH" using le by linarith
    then obtain a' as' where as: "as = a' # as'" "inv_list s as" using open_range_next [OF I(3)] by blast
    have "add_inv A a' as' b bs (a # buf) 0"
      unfolding add_inv_0 I(5) buf using as I(1,2,4) le aH by (simp add: last_start_def Un_ac del: inv_list.simps)
    then show ?thesis
      by (rule add_step_next) (use 1 aH as assms(2) in \<open>simp_all add: room_simps add_loop_1 del: inv_list.simps\<close>)
  next
    case 2
    then have bH: "b < UNICODESET_HIGH" using le by linarith
    then obtain b' bs' where bs: "bs = b' # bs'" "inv_list b bs" using inv_list_next [OF I(4)] by blast
    have o: "open_range b b' bs'" using open_range_of_inv_list I(4) bs bH by blast
    have "{s..<a} \<union> {b..<b'} = {s..<max a b'}" using 2 le open_range_le [OF o] by auto
    then have "A = rset r \<union> {s..<max a b'} \<union> inv_set as \<union> inv_set bs'"
      unfolding I(5) bs(1) inv_set.simps by blast
    then have "add_inv A a as b' bs' buf 3"
      unfolding buf add_inv_3 using I(1-3) open_range_shift [OF o] le by auto
    then show ?thesis
      by (rule add_step_next) (use 2 bs bH in \<open>simp_all add: room_simps add_loop_1 del: inv_list.simps\<close>)
  next
    case 3
    then obtain a' as' where as: "as = a' # as'" "inv_list s as" using open_range_next [OF I(3)] by blast
    have bH: "b < UNICODESET_HIGH" using 3 by simp
    then obtain b' bs' where bs: "bs = b' # bs'" "inv_list b bs" using inv_list_next [OF I(4)] by blast
    have o: "open_range b b' bs'" using open_range_of_inv_list I(4) bs bH by blast
    have "{s..<a} \<union> {b..<b'} = {s..<b'}" using 3 le open_range_le [OF o] by auto
    then have "A = rset r \<union> {s..<b'} \<union> inv_set (a' # as') \<union> inv_set bs'"
      unfolding I(5) bs(1) as(1) inv_set.simps by blast
    then have "add_inv A a' as' b' bs' buf 2"
      unfolding buf add_inv_2 using I(1,2) as open_range_shift [OF o] le by auto
    then show ?thesis
      by (rule add_step_next) (use 3 bs as bH in \<open>simp_all add: room_simps add_loop_1 del: inv_list.simps\<close>)
  next
    case 4
    have "inv_set as = {}" "inv_set (b # bs) = {}"
      using 4 I(3,4) inv_set_HIGH_Cons [of s] open_range_HIGH [of s] by (simp_all del: inv_list.simps)
    then have "A = rset (tl buf) \<union> {hd buf..<UNICODESET_HIGH}" using I(5) 4 buf by auto
    then show ?thesis
      using 4 assms(2) finish_odd [of buf] I buf by (intro add_step_finish [of _ _ _ _ _ _ _ "rev (UNICODESET_HIGH # buf)"]) (simp_all add: add_loop_1)
  qed
qed

lemma add_loop_pol2:
  assumes "add_inv A a as b bs buf 2" "length buf < cap"
  shows "add_step cap A a as b bs buf 2"
proof -
  obtain s r where buf: "buf = s # r" using add_inv_nonempty [OF assms(1)] by auto
  from assms(1) [unfolded buf add_inv_2] have I: "rsorted (s # r)" "even (length r)"
    "open_range s b bs" "inv_list s (a # as)" "A = rset r \<union> {s..<b} \<union> inv_set (a # as) \<union> inv_set bs"
    by blast+
  have le: "s < a" "a \<le> UNICODESET_HIGH" "s < b" "b \<le> UNICODESET_HIGH"
    using inv_list_le [OF I(4)] open_range_le [OF I(3)] by auto
  consider "b < a" | "a < b" | "a = b" "a < UNICODESET_HIGH" | "a = b" "a = UNICODESET_HIGH"
    using le by linarith
  then show ?thesis
  proof cases
    case 1
    then have bH: "b < UNICODESET_HIGH" using le by linarith
    then obtain b' bs' where bs: "bs = b' # bs'" "inv_list s bs" using open_range_next [OF I(3)] by blast
    have "add_inv A a as b' bs' (b # buf) 0"
      unfolding add_inv_0 I(5) buf using bs I(1,2,4) le bH by (simp add: last_start_def Un_ac del: inv_list.simps)
    then show ?thesis
      by (rule add_step_next) (use 1 bH bs assms(2) in \<open>simp_all add: room_simps add_loop_2 del: inv_list.simps\<close>)
  next
    case 2
    then have aH: "a < UNICODESET_HIGH" using le by linarith
    then obtain a' as' where as: "as = a' # as'" "inv_list a as" using inv_list_next [OF I(4)] by blast
    have o: "open_range a a' as'" using open_range_of_inv_list I(4) as aH by blast
    have "{s..<b} \<union> {a..<a'} = {s..<max a' b}" using 2 le open_range_le [OF o] by auto
    then have "A = rset r \<union> {s..<max a' b} \<union> inv_set as' \<union> inv_set bs"
      unfolding I(5) as(1) inv_set.simps by blast
    then have "add_inv A a' as' b bs buf 3"
      unfolding buf add_inv_3 using I(1-3) open_range_shift [OF o] le by auto
    then show ?thesis
      by (rule add_step_next) (use 2 as aH in \<open>simp_all add: room_simps add_loop_2 del: inv_list.simps\<close>)
  next
    case 3
    have bH: "b < UNICODESET_HIGH" using 3 by simp
    then obtain b' bs' where bs: "bs = b' # bs'" "inv_list s bs" using open_range_next [OF I(3)] by blast
    obtain a' as' where as: "as = a' # as'" "inv_list a as" using inv_list_next [OF I(4)] 3 by blast
    have o: "open_range a a' as'" using open_range_of_inv_list I(4) as 3 by blast
    have "{s..<b} \<union> {a..<a'} = {s..<a'}" using 3 le open_range_le [OF o] by auto
    then have "A = rset r \<union> {s..<a'} \<union> inv_set as' \<union> inv_set (b' # bs')"
      unfolding I(5) bs(1) as(1) inv_set.simps by blast
    then have "add_inv A a' as' b' bs' buf 1"
      unfolding buf add_inv_1 using I(1,2) bs open_range_shift [OF o] le by auto
    then show ?thesis
      by (rule add_step_next) (use 3 bs as bH in \<open>simp_all add: room_simps add_loop_2 del: inv_list.simps\<close>)
  next
    case 4
    have "inv_set bs = {}" "inv_set (a # as) = {}"
      using 4 I(3,4) inv_set_HIGH_Cons [of s] open_range_HIGH [of s] by (simp_all del: inv_list.simps)
    then have "A = rset (tl buf) \<union> {hd buf..<UNICODESET_HIGH}" using I(5) 4 buf by auto
    then show ?thesis
      using 4 assms(2) finish_odd [of buf] I buf by (intro add_step_finish [of _ _ _ _ _ _ _ "rev (UNICODESET_HIGH # buf)"]) (simp_all add: add_loop_2)
  qed
qed

lemma add_loop_pol3:
  assumes "add_inv A a as b bs buf 3" "length buf < cap"
  shows "add_step cap A a as b bs buf 3"
proof -
  obtain s r where buf: "buf = s # r" using add_inv_nonempty [OF assms(1)] by auto
  from assms(1) [unfolded buf add_inv_3] have I: "rsorted (s # r)" "even (length r)"
    "open_range s a as" "open_range s b bs" "A = rset r \<union> {s..<max a b} \<union> inv_set as \<union> inv_set bs"
    by blast+
  have le: "s < a" "a \<le> UNICODESET_HIGH" "s < b" "b \<le> UNICODESET_HIGH"
    using open_range_le [OF I(3)] open_range_le [OF I(4)] by auto
  have t: "(if b \<le> a then a else b) = max a b" by simp
  show ?thesis
  proof (cases "max a b = UNICODESET_HIGH")
    case True
    have "inv_set as \<subseteq> {s..<max a b}" "inv_set bs \<subseteq> {s..<max a b}"
      using inv_set_below_HIGH [OF I(3)] inv_set_below_HIGH [OF I(4)] True by auto
    then have "A = rset (tl buf) \<union> {hd buf..<UNICODESET_HIGH}" using I(5) True buf by auto
    then show ?thesis
      using True assms(2) finish_odd [of buf] I buf
      by (intro add_step_finish [of _ _ _ _ _ _ _ "rev (UNICODESET_HIGH # buf)"]) (simp_all add: add_loop_3 t Let_def)
  next
    case False
    then have H: "a < UNICODESET_HIGH" "b < UNICODESET_HIGH" "max a b < UNICODESET_HIGH"
      using le by auto
    obtain a' as' where as: "as = a' # as'" "inv_list s as" using open_range_next [OF I(3)] H by blast
    obtain b' bs' where bs: "bs = b' # bs'" "inv_list s bs" using open_range_next [OF I(4)] H by blast
    have "rsorted (max a b # s # r)" using I(1) le H(3) by auto
    then have "add_inv A a' as' b' bs' (max a b # buf) 0"
      unfolding add_inv_0 I(5) buf using as bs I(2)
      by (simp add: last_start_def Un_ac del: inv_list.simps rsorted_simps)
    moreover have "add_loop cap a as b bs buf 3 = add_loop cap a' as' b' bs' (max a b # buf) 0"
      using False assms(2) by (simp add: add_loop_3 t Let_def as bs)
    moreover have "room a' as' b' bs' (max a b # buf) \<le> room a as b bs buf"
      using H(1,2) by (simp add: room_simps as(1) bs(1))
    ultimately show ?thesis
      using as bs by (intro add_step_next [of A a' as' b' bs' "max a b # buf" 0]) auto
  qed
qed

lemma add_loop_pol0:
  assumes "add_inv A a as b bs buf 0" "length buf < cap"
  shows "add_step cap A a as b bs buf 0"
proof -
  from assms(1) [unfolded add_inv_0] have I: "rsorted buf" "even (length buf)"
    "inv_list (last_start buf) (a # as)" "inv_list (last_start buf) (b # bs)"
    "A = rset buf \<union> inv_set (a # as) \<union> inv_set (b # bs)"
    by blast+
  have le: "last_start buf < a" "a \<le> UNICODESET_HIGH" "last_start buf < b" "b \<le> UNICODESET_HIGH"
    using inv_list_le [OF I(3)] inv_list_le [OF I(4)] by auto
  have bound: "a2 < UNICODESET_HIGH \<longrightarrow> a' < UNICODESET_HIGH"
    if "take_or_extend cap x a' buf = Some (a2, b2)" for x a' a2 b2
    using that I(1) by (auto simp: take_or_extend_def split: if_splits)
  have above: "inv_list s (y # ys)"
    if "inv_list (last_start buf) (y # ys)" "s = x \<or> s = last_start buf" "x < y" for s x y ys
    using that by (auto split: if_splits)
  consider "a < b" | "b < a" | "a = b" "a < UNICODESET_HIGH" | "a = b" "a = UNICODESET_HIGH"
    using le by linarith
  then show ?thesis
  proof cases
    case 1
    then have aH: "a < UNICODESET_HIGH" using le by linarith
    then obtain a' as' where as: "as = a' # as'" using inv_list_next [OF I(3)] by blast
    obtain a2 s r where st: "take_or_extend cap a a' buf = Some (a2, s # r)" "rsorted (s # r)" "even (length r)"
      "rset buf \<union> inv_set (a # a' # as') = rset r \<union> {s..<a2} \<union> inv_set as'" "open_range s a2 as'"
      "s = a \<or> s = last_start buf" "s \<le> a" "length (s # r) \<le> Suc (length buf)"
      using take_or_extend_step [OF I(1,2) assms(2) I(3) [unfolded as] aH] by blast
    have "add_inv A a2 as' b bs (s # r) 1"
      unfolding add_inv_1 I(5) as using st(2,3,5) above [OF I(4) st(6) 1] st(4) by blast
    moreover have "add_loop cap a as b bs buf 0 = add_loop cap a2 as' b bs (s # r) 1"
      using 1 as st(1) by (simp add: add_loop_0)
    ultimately show ?thesis 
      by (rule add_step_next) (use as aH room_extend [OF bound [OF st(1)] st(8)] in \<open>simp_all add: room_simps\<close>)
  next
    case 2
    then have bH: "b < UNICODESET_HIGH" using le by linarith
    then obtain b' bs' where bs: "bs = b' # bs'" using inv_list_next [OF I(4)] by blast
    obtain b2 s r where st: "take_or_extend cap b b' buf = Some (b2, s # r)" "rsorted (s # r)" "even (length r)"
      "rset buf \<union> inv_set (b # b' # bs') = rset r \<union> {s..<b2} \<union> inv_set bs'" "open_range s b2 bs'"
      "s = b \<or> s = last_start buf" "s \<le> b" "length (s # r) \<le> Suc (length buf)"
      using take_or_extend_step [OF I(1,2) assms(2) I(4) [unfolded bs] bH] by blast
    have "add_inv A a as b2 bs' (s # r) 2"
      unfolding add_inv_2 I(5) bs using st(2,3,5) above [OF I(3) st(6) 2] st(4) by blast
    moreover have "add_loop cap a as b bs buf 0 = add_loop cap a as b2 bs' (s # r) 2"
      using 2 bs st(1) by (simp add: add_loop_0)
    ultimately show ?thesis 
      by (rule add_step_next) (use bs bH room_extend' [OF bound [OF st(1)] st(8)] in \<open>simp_all add: room_simps\<close>)
  next
    case 3
    then have H: "a < UNICODESET_HIGH" "b < UNICODESET_HIGH" by auto
    obtain a' as' where as: "as = a' # as'" using inv_list_next [OF I(3)] H by blast
    obtain b' bs' where bs: "bs = b' # bs'" using inv_list_next [OF I(4)] H by blast
    obtain a2 s r where st: "take_or_extend cap a a' buf = Some (a2, s # r)" "rsorted (s # r)" "even (length r)"
      "rset buf \<union> inv_set (a # a' # as') = rset r \<union> {s..<a2} \<union> inv_set as'" "open_range s a2 as'"
      "s = a \<or> s = last_start buf" "s \<le> a" "length (s # r) \<le> Suc (length buf)"
      using take_or_extend_step [OF I(1,2) assms(2) I(3) [unfolded as] H(1)] by blast
    have o: "open_range b b' bs'" using open_range_of_inv_list I(4) bs H by blast
    have grow: "a < a2 \<or> b \<le> a2"
      using st(1) inv_list_le [of a a' as'] I(3) H 3 by (auto simp: take_or_extend_def as max_def split: if_splits)
    have "{s..<a2} \<union> {b..<b'} = {s..<max a2 b'}"
      using open_range_le [OF st(5)] open_range_le [OF o] st(7) grow 3 by auto
    then have "A = rset r \<union> {s..<max a2 b'} \<union> inv_set as' \<union> inv_set bs'"
      unfolding I(5) as bs using st(4) by auto
    then have "add_inv A a2 as' b' bs' (s # r) 3"
      unfolding add_inv_3 using st(2,3,5) open_range_shift [OF o] st(7) 3 by auto
    moreover have "add_loop cap a as b bs buf 0 = add_loop cap a2 as' b' bs' (s # r) 3"
      using 3 H as bs st(1) by (simp add: add_loop_0)
    ultimately show ?thesis 
      by (rule add_step_next) (use as bs H room_extend [OF bound [OF st(1)] st(8), of as' b' bs'] in
          \<open>simp_all add: room_simps(1,2)\<close>)
  next
    case 4
    have "inv_set (a # as) = {}" "inv_set (b # bs) = {}"
      using 4 I(3,4) inv_set_HIGH_Cons by auto
    then have "A = rset buf" using I(5) by auto
    then show ?thesis
      using 4 assms(2) finish_even [of buf] I by (intro add_step_finish [of _ _ _ _ _ _ _ "rev (UNICODESET_HIGH # buf)"]) (simp_all add: add_loop_0)
  qed
qed

lemma add_loop_correct:
  assumes "add_inv A a as b bs buf pol" and "pol \<in> {0, 1, 2, 3}" and "room a as b bs buf < cap"
  shows "\<exists>out. add_loop cap a as b bs buf pol = Some out \<and> wf_inv out \<and> inv_set out = A"
  using assms
proof (induction "length as + length bs" arbitrary: a as b bs buf pol rule: less_induct)
  case less
  have cap: "length buf < cap" using less.prems(3) by (simp add: room_def)
  have "add_step cap A a as b bs buf pol"
    using less.prems(2) add_loop_pol0 [of A a as b bs buf cap] add_loop_pol1 [of A a as b bs buf cap]
      add_loop_pol2 [of A a as b bs buf cap] add_loop_pol3 [of A a as b bs buf cap] less.prems(1) cap
    by (elim insertE emptyE) simp_all
  then show ?case
    unfolding add_step_def
  proof (elim disjE exE conjE)
    fix a' as' b' bs' buf' pol'
    assume "add_inv A a' as' b' bs' buf' pol'"
      and eq: "add_loop cap a as b bs buf pol = add_loop cap a' as' b' bs' buf' pol'"
      and "length as' + length bs' < length as + length bs" and "pol' \<in> {0, 1, 2, 3}"
      and "room a' as' b' bs' buf' \<le> room a as b bs buf"
    then show ?thesis unfolding eq using less.prems(3) by (intro less.hyps) auto
  qed blast
qed



section \<open>Intersection, difference and symmetric difference\<close>

text \<open>Membership by the parity of the boundaries at or below a code point.\<close>

definition par :: "int list \<Rightarrow> int \<Rightarrow> bool" where
  "par xs c = odd (length (filter (\<lambda>x. x \<le> c) xs))"

lemma par_simps [simp]: "\<not> par [] c" "par (x # xs) c = (if x \<le> c then \<not> par xs c else par xs c)"
  by (simp_all add: par_def)

lemma par_append [simp]: "par (xs @ ys) c = (par xs c \<noteq> par ys c)"
  by (induction xs) auto

lemma par_rev [simp]: "par (rev xs) c = par xs c"
  by (induction xs) auto

lemma par_none: "\<forall>x \<in> set xs. c < x \<Longrightarrow> \<not> par xs c"
  by (induction xs) auto

lemma par_all: "\<forall>x \<in> set xs. x \<le> c \<Longrightarrow> par xs c = odd (length xs)"
  by (induction xs) auto

lemma inv_list_above: "inv_list lo xs \<Longrightarrow> x \<in> set xs \<Longrightarrow> lo < x"
  by (induction xs arbitrary: lo) (fastforce split: if_splits)+

lemma par_below: "inv_list lo xs \<Longrightarrow> c \<le> lo \<Longrightarrow> \<not> par xs c"
  by (rule par_none) (use inv_list_above in fastforce)

lemma par_first: "inv_list lo (x # xs) \<Longrightarrow> c < x \<Longrightarrow> \<not> par (x # xs) c"
proof (rule par_none)
  assume *: "inv_list lo (x # xs)" "c < x"
  then have "\<forall>y \<in> set xs. x \<le> y" using inv_list_above [of x xs] by (auto split: if_splits dest: less_imp_le)
  with * show "\<forall>y \<in> set (x # xs). c < y" by auto
qed

lemma par_high: "\<forall>y \<in> set xs. y = UNICODESET_HIGH \<Longrightarrow> c < UNICODESET_HIGH \<Longrightarrow> \<not> par xs c"
  by (rule par_none) auto

lemma inv_set_par: "inv_list lo xs \<Longrightarrow> c < UNICODESET_HIGH \<Longrightarrow> c \<in> inv_set xs \<longleftrightarrow> par xs c"
proof (induction xs arbitrary: lo rule: inv_set.induct)
  case (3 x y xs)
  show ?case
  proof (cases "x < UNICODESET_HIGH \<and> y < UNICODESET_HIGH")
    case True
    with 3 have "c \<in> inv_set xs \<longleftrightarrow> par xs c" "inv_list y xs" "x < y" by (auto split: if_splits)
    moreover from this have "\<not> par xs c" if "c < y" using par_below that by auto
    ultimately show ?thesis by auto
  next
    case False
    with 3 have "y = UNICODESET_HIGH" "\<forall>z \<in> set xs. z = UNICODESET_HIGH" by (auto split: if_splits)
    then show ?thesis using inv_set_all_high [of xs] par_high [of xs c] 3(3) by auto
  qed
qed auto

lemma wf_inv_inv_list: "wf_inv xs \<Longrightarrow> inv_list (-1) xs"
proof -
  have "inv_list lo xs" if "xs \<noteq> []" "sorted_wrt (<) xs" "last xs = UNICODESET_HIGH" "lo < hd xs" for lo xs
    using that
  proof (induction xs arbitrary: lo)
    case (Cons x xs)
    show ?case
    proof (cases "xs = []")
      case False
      have "x < y" if "y \<in> set xs" for y using Cons.prems(2) that by simp
      then have "x < last xs" "x < hd xs" using False by simp_all
      then have "x < UNICODESET_HIGH" "x < hd xs" using Cons.prems(3) False by simp_all
      then show ?thesis using Cons False by auto
    qed (use Cons in simp)
  qed simp
  then show "wf_inv xs \<Longrightarrow> inv_list (-1) xs" by (auto simp: wf_inv_def)
qed

definition sorted_upto :: "int \<Rightarrow> int list \<Rightarrow> bool" where
  "sorted_upto lo buf \<longleftrightarrow> rsorted buf \<and> (buf \<noteq> [] \<longrightarrow> hd buf \<le> lo) \<and> -1 \<le> lo"

lemma sorted_upto_push: "sorted_upto lo buf \<Longrightarrow> lo < x \<Longrightarrow> x < UNICODESET_HIGH \<Longrightarrow> sorted_upto x (x # buf)"
  by (auto simp: sorted_upto_def)

lemma sorted_upto_mono: "sorted_upto lo buf \<Longrightarrow> lo \<le> x \<Longrightarrow> sorted_upto x buf"
  by (auto simp: sorted_upto_def)

lemma sorted_upto_par: "sorted_upto lo buf \<Longrightarrow> lo \<le> c \<Longrightarrow> par buf c = odd (length buf)"
  by (rule par_all) (cases buf, auto simp: sorted_upto_def rsorted_def)

lemma finish_par: "c < UNICODESET_HIGH \<Longrightarrow> par (rev (UNICODESET_HIGH # buf)) c = par buf c"
  by (simp)

lemma inv_list_HIGH_par: "inv_list lo (UNICODESET_HIGH # xs) \<Longrightarrow> c < UNICODESET_HIGH \<Longrightarrow> \<not> par (UNICODESET_HIGH # xs) c"
  using par_high [of xs c] by auto

lemma exclusiveOr_loop_correct:
  assumes "inv_list lo (a # as)" "inv_list lo (b # bs)" "sorted_upto lo buf" "room a as b bs buf < cap"
  shows "\<exists>out. exclusiveOr_loop cap a as b bs buf = Some out \<and> wf_inv out \<and>
    (\<forall>c < UNICODESET_HIGH. par out c = (par buf c \<noteq> (par (a # as) c \<noteq> par (b # bs) c)))"
  using assms
proof (induction "length as + length bs" arbitrary: lo a as b bs buf rule: less_induct)
  case less
  have le: "lo < a" "a \<le> UNICODESET_HIGH" "lo < b" "b \<le> UNICODESET_HIGH"
    using inv_list_le [OF less.prems(1)] inv_list_le [OF less.prems(2)] by auto
  have cap: "length buf < cap" using less.prems(4) by (simp add: room_def)
  consider "a < b" | "b < a" | "a = b" "a < UNICODESET_HIGH" | "a = b" "a = UNICODESET_HIGH"
    using le by linarith
  then show ?case
  proof cases
    case 1
    then have aH: "a < UNICODESET_HIGH" using le by linarith
    then obtain a' as' where as: "as = a' # as'" "inv_list a as" using inv_list_next [OF less.prems(1)] by blast
    have b: "inv_list a (b # bs)" using less.prems(2) 1 by auto
    have "exclusiveOr_loop cap a as b bs buf = exclusiveOr_loop cap a' as' b bs (a # buf)"
      using 1 cap by (simp add: exclusiveOr_loop.simps [of cap a "a' # as'"] as(1))
    moreover have "\<exists>out. exclusiveOr_loop cap a' as' b bs (a # buf) = Some out \<and> wf_inv out \<and>
      (\<forall>c < UNICODESET_HIGH. par out c = (par (a # buf) c \<noteq> (par (a' # as') c \<noteq> par (b # bs) c)))"
    proof (rule less.hyps [OF _ as(2) [unfolded as(1)] b sorted_upto_push [OF less.prems(3) le(1) aH]])
      show "room a' as' b bs (a # buf) < cap" using less.prems(4) by (simp add: as(1) room_simps aH)
    qed (simp add: as(1))
    ultimately show ?thesis by (auto simp: as(1))
  next
    case 2
    then have bH: "b < UNICODESET_HIGH" using le by linarith
    then obtain b' bs' where bs: "bs = b' # bs'" "inv_list b bs" using inv_list_next [OF less.prems(2)] by blast
    have a: "inv_list b (a # as)" using less.prems(1) 2 by auto
    have "exclusiveOr_loop cap a as b bs buf = exclusiveOr_loop cap a as b' bs' (b # buf)"
      using 2 cap by (simp add: exclusiveOr_loop.simps [of cap a as b "b' # bs'"] bs(1))
    moreover have "\<exists>out. exclusiveOr_loop cap a as b' bs' (b # buf) = Some out \<and> wf_inv out \<and>
      (\<forall>c < UNICODESET_HIGH. par out c = (par (b # buf) c \<noteq> (par (a # as) c \<noteq> par (b' # bs') c)))"
    proof (rule less.hyps [OF _ a bs(2) [unfolded bs(1)] sorted_upto_push [OF less.prems(3) le(3) bH]])
      show "room a as b' bs' (b # buf) < cap" using less.prems(4) by (simp add: bs(1) room_simps bH)
    qed (simp add: bs(1))
    ultimately show ?thesis by (auto simp: bs(1))
  next
    case 3
    then have H: "a < UNICODESET_HIGH" "b < UNICODESET_HIGH" by auto
    obtain a' as' where as: "as = a' # as'" "inv_list a as" using inv_list_next [OF less.prems(1)] H by blast
    obtain b' bs' where bs: "bs = b' # bs'" "inv_list b bs" using inv_list_next [OF less.prems(2)] H by blast
    have "exclusiveOr_loop cap a as b bs buf = exclusiveOr_loop cap a' as' b' bs' buf"
      using 3 by (simp add: exclusiveOr_loop.simps [of cap b "a' # as'"] as(1) bs(1))
    moreover have "\<exists>out. exclusiveOr_loop cap a' as' b' bs' buf = Some out \<and> wf_inv out \<and>
      (\<forall>c < UNICODESET_HIGH. par out c = (par buf c \<noteq> (par (a' # as') c \<noteq> par (b' # bs') c)))"
    proof (rule less.hyps [OF _ as(2) [unfolded as(1)]])
      show "inv_list a (b' # bs')" using bs 3(1) by simp
      show "sorted_upto a buf" using sorted_upto_mono [OF less.prems(3)] le by simp
      show "room a' as' b' bs' buf < cap" using less.prems(4) by (simp add: as(1) bs(1) room_simps H)
    qed (simp add: as(1) bs(1))
    ultimately show ?thesis using 3 by (auto simp: as(1) bs(1))
  next
    case 4
    have "exclusiveOr_loop cap a as b bs buf = Some (rev (UNICODESET_HIGH # buf))"
      using 4 cap by (simp add: exclusiveOr_loop.simps [of cap UNICODESET_HIGH])
    then show ?thesis
      using wf_inv_rev_buf [of buf] less.prems(1-3) 4 inv_list_HIGH_par [of lo as] inv_list_HIGH_par [of lo bs] finish_par
      unfolding sorted_upto_def by (simp del: inv_list.simps)
  qed
qed

text \<open>Bit 0 of the polarity: \<open>a\<close> is the end of a range; bit 1: \<open>b\<close> is.\<close>

definition bit_a :: "int \<Rightarrow> bool" where "bit_a pol = (pol = 1 \<or> pol = 3)"
definition bit_b :: "int \<Rightarrow> bool" where "bit_b pol = (pol = 2 \<or> pol = 3)"

lemma flips: 
  assumes "pol \<in> {0, 1, 2, 3}"
  shows "flip_a pol \<in> {0, 1, 2, 3}" "flip_b pol \<in> {0, 1, 2, 3}" "bit_a (flip_a pol) = (\<not> bit_a pol)" "bit_b (flip_a pol) = bit_b pol"
    "bit_a (flip_b pol) = bit_a pol" "bit_b (flip_b pol) = (\<not> bit_b pol)" "keep_a pol = bit_b pol" "keep_b pol = bit_a pol"
    "keep_ab pol = (bit_a pol = bit_b pol)" "0 \<le> pol" "pol \<le> 3"
  using assms by (auto simp: flip_a_def flip_b_def bit_a_def bit_b_def keep_a_def keep_b_def keep_ab_def)


text \<open>What the intersection loop promises for the code points from \<open>lo\<close> on.\<close>

definition retained :: "int \<Rightarrow> int \<Rightarrow> int list \<Rightarrow> int \<Rightarrow> int list \<Rightarrow> int list \<Rightarrow> int \<Rightarrow> int list \<Rightarrow> bool" where
  "retained lo a as b bs buf pol out \<longleftrightarrow> wf_inv out \<and>
     (\<forall>c < UNICODESET_HIGH. par out c =
        (if c < lo then par buf c
         else (bit_a pol \<noteq> par (a # as) c) \<and> (bit_b pol \<noteq> par (b # bs) c)))"

lemma retained_step:
  assumes "retained x a' as' b' bs' buf' pol' out" "lo < x" "x < UNICODESET_HIGH"
    and "sorted_upto lo buf" "odd (length buf) = (bit_a pol \<and> bit_b pol)"
    and "buf' = x # buf \<or> buf' = buf"
    and "\<And>c. c < x \<Longrightarrow> \<not> par (a # as) c \<and> \<not> par (b # bs) c"
    and "\<And>c. x \<le> c \<Longrightarrow> (bit_a pol \<noteq> par (a # as) c) = (bit_a pol' \<noteq> par (a' # as') c)"
    and "\<And>c. x \<le> c \<Longrightarrow> (bit_b pol \<noteq> par (b # bs) c) = (bit_b pol' \<noteq> par (b' # bs') c)"
  shows "retained lo a as b bs buf pol out"
  unfolding retained_def
proof (intro conjI allI impI)
  show "wf_inv out" using assms(1) by (simp add: retained_def)
next
  fix c assume c: "c < UNICODESET_HIGH"
  have out: "par out c = (if c < x then par buf' c
      else (bit_a pol' \<noteq> par (a' # as') c) \<and> (bit_b pol' \<noteq> par (b' # bs') c))"
    using assms(1) c by (simp add: retained_def)
  show "par out c = (if c < lo then par buf c
      else (bit_a pol \<noteq> par (a # as) c) \<and> (bit_b pol \<noteq> par (b # bs) c))"
  proof (cases "x \<le> c")
    case True
    then show ?thesis using out assms(2) assms(8,9) [of c] by simp
  next
    case False
    then have "par out c = par buf c" using out assms(6) by auto
    moreover have "lo \<le> c \<Longrightarrow> par buf c = (bit_a pol \<and> bit_b pol)"
      using sorted_upto_par [OF assms(4)] assms(5) by simp
    ultimately show ?thesis using False assms(7) [of c] by (simp del: par_simps)
  qed
qed

lemma retain_loop_correct:
  assumes "inv_list lo (a # as)" "inv_list lo (b # bs)" "sorted_upto lo buf" "room a as b bs buf < cap"
    "pol \<in> {0, 1, 2, 3}" "odd (length buf) = (bit_a pol \<and> bit_b pol)"
  shows "\<exists>out. retain_loop cap a as b bs buf pol = Some out \<and> retained lo a as b bs buf pol out"
  using assms
proof (induction "length as + length bs" arbitrary: lo a as b bs buf pol rule: less_induct)
  case less
  note prems = less.prems
  have le: "lo < a" "a \<le> UNICODESET_HIGH" "lo < b" "b \<le> UNICODESET_HIGH"
    using inv_list_le [OF prems(1)] inv_list_le [OF prems(2)] by auto
  have cap: "length buf < cap" using prems(4) by (simp add: room_def)
  have par0: "\<not> par (x # xs) c" if "c < x" "inv_list lo (x # xs)" for x xs c
    using par_first [OF that(2,1)] .
  note fl = flips [OF prems(5)] flips [OF flips(1) [OF prems(5)]]
  consider "a < b" | "b < a" | "a = b" "a < UNICODESET_HIGH" | "a = b" "a = UNICODESET_HIGH"
    using le by linarith
  then show ?case
  proof cases
    case 1
    then have aH: "a < UNICODESET_HIGH" using le by linarith
    then obtain a' as' where as: "as = a' # as'" "inv_list a as" using inv_list_next [OF prems(1)] by blast
    have b: "inv_list a (b # bs)" using prems(2) 1 by auto
    let ?buf = "if keep_a pol then a # buf else buf"
    have "retain_loop cap a as b bs buf pol = retain_loop cap a' as' b bs ?buf (flip_a pol)"
      using 1 cap fl by (simp add: retain_loop.simps [of cap a "a' # as'"] as(1))
    moreover have "\<exists>out. retain_loop cap a' as' b bs ?buf (flip_a pol) = Some out \<and> retained a a' as' b bs ?buf (flip_a pol) out"
    proof (rule less.hyps [OF _ as(2) [unfolded as(1)] b])
      show "sorted_upto a ?buf"
        using sorted_upto_push [OF prems(3) le(1) aH] sorted_upto_mono [OF prems(3)] le(1) by simp
      show "room a' as' b bs ?buf < cap" using prems(4) by (simp add: as(1) room_simps aH)
      show "odd (length ?buf) = (bit_a (flip_a pol) \<and> bit_b (flip_a pol))" using prems(6) fl by auto
    qed (use fl in \<open>simp_all add: as(1)\<close>)
    moreover have "retained lo a as b bs buf pol out" if "retained a a' as' b bs ?buf (flip_a pol) out" for out
      by (rule retained_step [OF that le(1) aH prems(3,6)])
        (use par0 [OF _ prems(1)] par0 [OF _ prems(2)] 1 fl as(1) in auto)
    ultimately show ?thesis by fastforce
  next
    case 2
    then have bH: "b < UNICODESET_HIGH" using le by linarith
    then obtain b' bs' where bs: "bs = b' # bs'" "inv_list b bs" using inv_list_next [OF prems(2)] by blast
    have a: "inv_list b (a # as)" using prems(1) 2 by auto
    let ?buf = "if keep_b pol then b # buf else buf"
    have "retain_loop cap a as b bs buf pol = retain_loop cap a as b' bs' ?buf (flip_b pol)"
      using 2 cap fl by (simp add: retain_loop.simps [of cap a as b "b' # bs'"] bs(1))
    moreover have "\<exists>out. retain_loop cap a as b' bs' ?buf (flip_b pol) = Some out \<and> retained b a as b' bs' ?buf (flip_b pol) out"
    proof (rule less.hyps [OF _ a bs(2) [unfolded bs(1)]])
      show "sorted_upto b ?buf"
        using sorted_upto_push [OF prems(3) le(3) bH] sorted_upto_mono [OF prems(3)] le(3) by simp
      show "room a as b' bs' ?buf < cap" using prems(4) by (simp add: bs(1) room_simps bH)
      show "odd (length ?buf) = (bit_a (flip_b pol) \<and> bit_b (flip_b pol))" using prems(6) fl by auto
    qed (use fl in \<open>simp_all add: bs(1)\<close>)
    moreover have "retained lo a as b bs buf pol out" if "retained b a as b' bs' ?buf (flip_b pol) out" for out
      by (rule retained_step [OF that le(3) bH prems(3,6)])
        (use par0 [OF _ prems(1)] par0 [OF _ prems(2)] 2 fl bs(1) in auto)
    ultimately show ?thesis by fastforce
  next
    case 3
    then have H: "a < UNICODESET_HIGH" "b < UNICODESET_HIGH" by auto
    obtain a' as' where as: "as = a' # as'" "inv_list a as" using inv_list_next [OF prems(1)] H by blast
    obtain b' bs' where bs: "bs = b' # bs'" "inv_list b bs" using inv_list_next [OF prems(2)] H by blast
    let ?buf = "if keep_ab pol then a # buf else buf" and ?pol = "flip_b (flip_a pol)"
    have "retain_loop cap a as b bs buf pol = retain_loop cap a' as' b' bs' ?buf ?pol"
      using 3 cap fl by (simp add: retain_loop.simps [of cap b "a' # as'"] as(1) bs(1))
    moreover have "\<exists>out. retain_loop cap a' as' b' bs' ?buf ?pol = Some out \<and> retained a a' as' b' bs' ?buf ?pol out"
    proof (rule less.hyps [OF _ as(2) [unfolded as(1)]])
      show "inv_list a (b' # bs')" using bs 3(1) by simp
      show "sorted_upto a ?buf"
        using sorted_upto_push [OF prems(3) le(1) H(1)] sorted_upto_mono [OF prems(3)] le(1) by simp
      show "room a' as' b' bs' ?buf < cap" using prems(4) by (simp add: as(1) bs(1) room_simps H)
      show "odd (length ?buf) = (bit_a ?pol \<and> bit_b ?pol)" using prems(6) fl by auto
    qed (use fl in \<open>simp_all add: as(1) bs(1)\<close>)
    moreover have "retained lo a as b bs buf pol out" if "retained a a' as' b' bs' ?buf ?pol out" for out
      by (rule retained_step [OF that le(1) H(1) prems(3,6)])
        (use par0 [OF _ prems(1)] par0 [OF _ prems(2)] 3 fl as(1) bs(1) in auto)
    ultimately show ?thesis by fastforce
  next
    case 4
    have "retain_loop cap a as b bs buf pol = Some (rev (UNICODESET_HIGH # buf))"
      using 4 cap fl by (simp add: retain_loop.simps [of cap UNICODESET_HIGH])
    moreover have "retained lo a as b bs buf pol (rev (UNICODESET_HIGH # buf))"
      using wf_inv_rev_buf [of buf] prems(1-3,6) 4 inv_list_HIGH_par [of lo as] inv_list_HIGH_par [of lo bs] finish_par
        sorted_upto_par [of lo buf]
      unfolding sorted_upto_def retained_def by (simp del: inv_list.simps)
    ultimately show ?thesis by blast
  qed
qed

section \<open>Binary search\<close>

lemma findCodePoint_loop_correct:
  assumes "lo < hi" "hi < length xs" "sorted_wrt (<) xs" "xs ! lo \<le> c" "c < xs ! hi"
  shows "findCodePoint_loop xs c lo hi < length xs \<and> c < xs ! findCodePoint_loop xs c lo hi \<and>
    (\<forall>j < findCodePoint_loop xs c lo hi. xs ! j \<le> c)"
  using assms
proof (induction xs c lo hi rule: findCodePoint_loop.induct)
  case (1 xs c lo hi)
  let ?i = "(lo + hi) div 2"
  show ?case
  proof (cases "?i \<le> lo")
    case True
    then have hi: "hi = Suc lo" using "1.prems"(1) by auto
    have "xs ! j \<le> c" if "j < hi" for j
      using "1.prems" that hi sorted_wrt_nth_less [OF "1.prems"(3), of j lo] by (cases "j = lo") auto
    then show ?thesis using True "1.prems" by (simp add: findCodePoint_loop.simps [of xs c lo hi])
  next
    case False
    have eq: "findCodePoint_loop xs c lo hi =
        (if c < xs ! ?i then findCodePoint_loop xs c lo ?i else findCodePoint_loop xs c ?i hi)"
      using False by (simp add: findCodePoint_loop.simps [of xs c lo hi] Let_def)
    have i: "lo < ?i" "?i < hi" "?i < length xs" using False "1.prems" by auto
    show ?thesis
    proof (cases "c < xs ! ?i")
      case True
      show ?thesis using 1(1) [OF refl False True] i "1.prems" True eq by simp
    next
      case c: False
      show ?thesis using 1(2) [OF refl False c] i "1.prems" c eq by simp
    qed
  qed
qed

text \<open>The specification of \<open>findCodePoint\<close> in the source's comment: the least index above \<open>c\<close>.\<close>

lemma findCodePoint_list_correct:
  assumes "wf_inv xs" "c < UNICODESET_HIGH"
  shows "findCodePoint_list xs c < length xs \<and> c < xs ! findCodePoint_list xs c \<and>
    (\<forall>j < findCodePoint_list xs c. xs ! j \<le> c)"
proof -
  let ?hi = "length xs - 1"
  have wf: "xs \<noteq> []" "sorted_wrt (<) xs" "xs ! ?hi = UNICODESET_HIGH"
    using assms(1) by (auto simp: wf_inv_def last_conv_nth)
  consider "c < xs ! 0" | "\<not> c < xs ! 0" "?hi = 0 \<or> c \<ge> xs ! (?hi - 1)"
    | "\<not> c < xs ! 0" "0 < ?hi" "c < xs ! (?hi - 1)" by fastforce
  then show ?thesis
  proof cases
    case 1
    then show ?thesis using wf by (simp add: findCodePoint_list_def)
  next
    case 2
    then have eq: "findCodePoint_list xs c = ?hi" by (auto simp: findCodePoint_list_def Let_def)
    have "xs ! j \<le> c" if "j < ?hi" for j
    proof (cases "j = ?hi - 1")
      case False
      with that have "j < ?hi - 1" by linarith
      with sorted_wrt_nth_less [OF wf(2) this] 2 that wf(1) show ?thesis by auto
    qed (use 2 that in auto)
    then show ?thesis using eq wf assms(2) by simp
  next
    case 3
    then have "findCodePoint_list xs c = findCodePoint_loop xs c 0 ?hi"
      by (auto simp: findCodePoint_list_def Let_def)
    then show ?thesis
      using findCodePoint_loop_correct [of 0 ?hi xs c] 3 wf assms(2) by simp
  qed
qed

lemma filter_le_sorted:
  assumes "sorted_wrt (<) xs" "i < length xs" "c < xs ! i" "\<forall>j < i. xs ! j \<le> (c::int)"
  shows "filter (\<lambda>x. x \<le> c) xs = take i xs"
proof -
  have "\<forall>x \<in> set (take i xs). x \<le> c" using assms(2,4) by (auto simp: in_set_conv_nth)
  moreover have "c < x" if "x \<in> set (drop i xs)" for x
  proof -
    from that obtain k where "k < length (drop i xs)" "drop i xs ! k = x"
      by (auto simp only: in_set_conv_nth)
    then have k: "x = xs ! (i + k)" "i + k < length xs" using assms(2) by auto
    then show ?thesis
      using assms(3) sorted_wrt_nth_less [OF assms(1), of i "i + k"] by (cases "k = 0") auto
  qed
  then have "filter (\<lambda>x. x \<le> c) (drop i xs) = []" by (auto simp: filter_empty_conv not_le)
  ultimately show ?thesis
    by (metis append_Nil2 append_take_drop_id filter_True filter_append)
qed

lemma findCodePoint_odd_iff:
  assumes "wf_inv xs" "c < UNICODESET_HIGH"
  shows "odd (findCodePoint_list xs c) \<longleftrightarrow> c \<in> inv_set xs"
proof -
  have "filter (\<lambda>x. x \<le> c) xs = take (findCodePoint_list xs c) xs"
    using findCodePoint_list_correct [OF assms] assms(1)
    by (intro filter_le_sorted) (auto simp: wf_inv_def)
  then have "par xs c = odd (findCodePoint_list xs c)"
    using findCodePoint_list_correct [OF assms] by (simp add: par_def)
  then show ?thesis using inv_set_par [OF wf_inv_inv_list [OF assms(1)] assms(2)] by simp
qed

section \<open>The merges as set operations\<close>

lemma wf_inv_Cons: "wf_inv xs \<Longrightarrow> \<exists>a as. xs = a # as \<and> inv_list (-1) (a # as)"
  using wf_inv_inv_list [of xs] by (cases xs) (simp_all add: wf_inv_def del: inv_list.simps(2))

lemma inv_set_range: "inv_list lo xs \<Longrightarrow> c \<in> inv_set xs \<Longrightarrow> c < UNICODESET_HIGH"
  using inv_set_bounds by fastforce

lemma inv_set_eqI:
  assumes "inv_list lo xs" "B \<subseteq> {..<UNICODESET_HIGH}"
    and "\<And>c. c < UNICODESET_HIGH \<Longrightarrow> par xs c = (c \<in> B)"
  shows "inv_set xs = B"
  using assms inv_set_par [OF assms(1)] inv_set_range [OF assms(1)] by blast

lemma below_high_wf:
  assumes "wf_inv xs"
  shows "Suc (below_high xs) = length xs"
proof -
  have xs: "xs = butlast xs @ [UNICODESET_HIGH]"
    using assms append_butlast_last_id [of xs] by (simp add: wf_inv_def)
  then have "sorted_wrt (<) (butlast xs @ [UNICODESET_HIGH])"
    using assms by (metis wf_inv_def)
  then have "filter (\<lambda>x. x < UNICODESET_HIGH) (butlast xs) = butlast xs"
    unfolding sorted_wrt_append by (auto intro: filter_True)
  then have "below_high (butlast xs @ [UNICODESET_HIGH]) = length (butlast xs)"
    by (simp add: below_high_def)
  then show ?thesis using xs assms by (metis length_append_singleton)
qed

lemma add_merge_union:
  assumes "wf_inv xs" and "inv_list (-1) other" and "below_high xs + below_high other < cap"
  shows "\<exists>out. add_merge cap xs other 0 = Some out \<and> wf_inv out \<and>
    inv_set out = inv_set xs \<union> inv_set other"
proof -
  obtain a as where xs: "xs = a # as" "inv_list (-1) (a # as)" using wf_inv_Cons [OF assms(1)] by blast
  obtain b bs where o: "other = b # bs" using assms(2) by (cases other) auto
  have "add_inv (inv_set xs \<union> inv_set other) a as b bs [] 0"
    unfolding add_inv_0 xs(1) o using xs(2) assms(2) [unfolded o]
    by (simp add: last_start_def del: inv_list.simps inv_set.simps)
  moreover have "room a as b bs [] < cap" using assms(3) by (simp only: xs(1) o room_def) simp
  ultimately show ?thesis
    using add_loop_correct by (simp add: add_merge_def xs(1) o del: inv_set.simps)
qed

lemma sorted_upto_Nil: "sorted_upto (-1) []"
  by (simp add: sorted_upto_def)

lemma retain_merge_inter:
  assumes "wf_inv xs" and "inv_list (-1) other" and "below_high xs + below_high other < cap"
  shows "\<exists>out. retain_merge cap xs other 0 = Some out \<and> wf_inv out \<and>
    inv_set out = inv_set xs \<inter> inv_set other"
proof -
  obtain a as where xs: "xs = a # as" "inv_list (-1) (a # as)" using wf_inv_Cons [OF assms(1)] by blast
  obtain b bs where o: "other = b # bs" using assms(2) by (cases other) auto
  obtain out where out: "retain_loop cap a as b bs [] 0 = Some out" "retained (-1) a as b bs [] 0 out"
    using retain_loop_correct [OF xs(2) assms(2) [unfolded o] sorted_upto_Nil, of cap 0] assms(3)
    by (auto simp: room_def xs(1) o bit_a_def)
  have "inv_set out = inv_set xs \<inter> inv_set other"
  proof (rule inv_set_eqI)
    show "inv_list (-1) out" using out(2) wf_inv_inv_list by (simp add: retained_def)
    show "inv_set xs \<inter> inv_set other \<subseteq> {..<UNICODESET_HIGH}" using inv_set_range xs by fastforce
    fix c :: int assume c: "c < UNICODESET_HIGH"
    have "par xs c = (c \<in> inv_set xs)" "par other c = (c \<in> inv_set other)"
      using inv_set_par c xs assms(2) by blast+
    moreover have "\<not> par xs c" "\<not> par other c" if "c < -1"
      using par_below [of "-1" xs c] par_below [of "-1" other c] xs assms(2) that by auto
    moreover have "par out c = (if c < -1 then False else par xs c \<and> par other c)"
      using out(2) c by (simp add: retained_def xs(1) o bit_a_def bit_b_def del: par_simps(2))
    ultimately show "par out c = (c \<in> inv_set xs \<inter> inv_set other)" by (cases "c < -1") auto
  qed
  moreover have "retain_merge cap xs other 0 = Some out" "wf_inv out"
    using out by (simp_all add: retain_merge_def xs(1) o retained_def)
  ultimately show ?thesis by blast
qed

lemma retain_merge_diff:
  assumes "wf_inv xs" and "inv_list (-1) other" and "below_high xs + below_high other < cap"
  shows "\<exists>out. retain_merge cap xs other 2 = Some out \<and> wf_inv out \<and>
    inv_set out = inv_set xs - inv_set other"
proof -
  obtain a as where xs: "xs = a # as" "inv_list (-1) (a # as)" using wf_inv_Cons [OF assms(1)] by blast
  obtain b bs where o: "other = b # bs" using assms(2) by (cases other) auto
  obtain out where out: "retain_loop cap a as b bs [] 2 = Some out" "retained (-1) a as b bs [] 2 out"
    using retain_loop_correct [OF xs(2) assms(2) [unfolded o] sorted_upto_Nil, of cap 2] assms(3)
    by (auto simp: room_def xs(1) o bit_a_def)
  have "inv_set out = inv_set xs - inv_set other"
  proof (rule inv_set_eqI)
    show "inv_list (-1) out" using out(2) wf_inv_inv_list by (simp add: retained_def)
    show "inv_set xs - inv_set other \<subseteq> {..<UNICODESET_HIGH}" using inv_set_range xs by fastforce
    fix c :: int assume c: "c < UNICODESET_HIGH"
    have "par xs c = (c \<in> inv_set xs)" "par other c = (c \<in> inv_set other)"
      using inv_set_par c xs assms(2) by blast+
    moreover have "\<not> par xs c" "\<not> par other c" if "c < -1"
      using par_below [of "-1" xs c] par_below [of "-1" other c] xs assms(2) that by auto
    moreover have "par out c = (if c < -1 then False else par xs c \<and> \<not> par other c)"
      using out(2) c by (simp add: retained_def xs(1) o bit_a_def bit_b_def del: par_simps(2))
    ultimately show "par out c = (c \<in> inv_set xs - inv_set other)" by (cases "c < -1") auto
  qed
  moreover have "retain_merge cap xs other 2 = Some out" "wf_inv out"
    using out by (simp_all add: retain_merge_def xs(1) o retained_def)
  ultimately show ?thesis by blast
qed

lemma exclusiveOr_merge_sym_diff:
  assumes "wf_inv xs" and "inv_list (-1) other" and "below_high xs + below_high other < cap"
  shows "\<exists>out. exclusiveOr_merge cap xs other 0 = Some out \<and> wf_inv out \<and>
    inv_set out = (inv_set xs - inv_set other) \<union> (inv_set other - inv_set xs)"
proof -
  obtain a as where xs: "xs = a # as" "inv_list (-1) (a # as)" using wf_inv_Cons [OF assms(1)] by blast
  obtain b bs where o: "other = b # bs" using assms(2) by (cases other) auto
  obtain out where out: "exclusiveOr_loop cap a as b bs [] = Some out" "wf_inv out"
    "\<forall>c < UNICODESET_HIGH. par out c = (par xs c \<noteq> par other c)"
    using exclusiveOr_loop_correct [OF xs(2) assms(2) [unfolded o] sorted_upto_Nil, of cap] assms(3)
    by (auto simp: room_def xs(1) o)
  have "inv_set out = (inv_set xs - inv_set other) \<union> (inv_set other - inv_set xs)"
  proof (rule inv_set_eqI)
    show "inv_list (-1) out" using out(2) by (rule wf_inv_inv_list)
    show "(inv_set xs - inv_set other) \<union> (inv_set other - inv_set xs) \<subseteq> {..<UNICODESET_HIGH}"
      using inv_set_range xs assms(2) by fastforce
    fix c :: int assume c: "c < UNICODESET_HIGH"
    have "par xs c = (c \<in> inv_set xs)" "par other c = (c \<in> inv_set other)"
      using inv_set_par c xs assms(2) by blast+
    then show "par out c = (c \<in> (inv_set xs - inv_set other) \<union> (inv_set other - inv_set xs))"
      using out(3) c by auto
  qed
  with out show ?thesis by (auto simp: exclusiveOr_merge_def xs(1) o)
qed

section \<open>The merge interface\<close>

text \<open>No loop writes more than the buffer holds.\<close>

lemma exclusiveOr_loop_length: "exclusiveOr_loop cap a as b bs buf = Some out \<Longrightarrow> length out \<le> cap"
proof (induction cap a as b bs buf rule: exclusiveOr_loop.induct)
  case (1 cap a as b bs buf)
  show ?case
    using "1.IH" "1.prems" [unfolded exclusiveOr_loop.simps [of cap a as b bs buf]]
    by (auto split: if_splits list.splits)
qed

lemma retain_loop_length: "retain_loop cap a as b bs buf p = Some out \<Longrightarrow> length out \<le> cap"
proof (induction cap a as b bs buf p rule: retain_loop.induct)
  case (1 cap a as b bs buf p)
  show ?case
    using "1.IH" "1.prems" [unfolded retain_loop.simps [of cap a as b bs buf p]]
    by (auto split: if_splits list.splits)
qed

lemma add_loop_length: "add_loop cap a as b bs buf p = Some out \<Longrightarrow> length out \<le> cap"
proof (induction cap a as b bs buf p rule: add_loop.induct)
  case (1 cap a as b bs buf p)
  show ?case
    using "1.IH" "1.prems" [unfolded add_loop.simps [of cap a as b bs buf p]]
    by (auto simp: Let_def split: if_splits list.splits option.splits prod.splits)
qed

lemmas loop_length = exclusiveOr_loop_length retain_loop_length add_loop_length

lemma merge_bounds:
  "add_merge cap xs other p = Some out \<Longrightarrow> length out \<le> cap"
  "retain_merge cap xs other p = Some out \<Longrightarrow> length out \<le> cap"
  "exclusiveOr_merge cap xs other p = Some out \<Longrightarrow> length out \<le> cap"
  by (auto simp: add_merge_def retain_merge_def exclusiveOr_merge_def loop_length
      split: list.splits if_splits)

text \<open>
  What \<open>UnicodeSet\<close> relies on when it runs a loop into its buffer: with room for the entries below
  \<open>HIGH\<close> of both lists and one terminator, the loop ends with a well-formed list for the
  set-theoretic operation, and never overruns the buffer.
\<close>

locale inversion_merge =
  fixes merge :: "nat \<Rightarrow> int list \<Rightarrow> int list \<Rightarrow> int list option"
    and setop :: "int set \<Rightarrow> int set \<Rightarrow> int set"
  assumes merge_correct: "wf_inv xs \<Longrightarrow> inv_list (-1) other \<Longrightarrow>
      below_high xs + below_high other < cap \<Longrightarrow>
      \<exists>out. merge cap xs other = Some out \<and> wf_inv out \<and>
        inv_set out = setop (inv_set xs) (inv_set other)"
    and merge_length: "merge cap xs other = Some out \<Longrightarrow> length out \<le> cap"

interpretation merge_union: inversion_merge "\<lambda>cap xs other. add_merge cap xs other 0" "(\<union>)"
  by unfold_locales (fact add_merge_union merge_bounds)+

interpretation merge_inter: inversion_merge "\<lambda>cap xs other. retain_merge cap xs other 0" "(\<inter>)"
  by unfold_locales (fact retain_merge_inter merge_bounds)+

interpretation merge_diff: inversion_merge "\<lambda>cap xs other. retain_merge cap xs other 2" "(-)"
  by unfold_locales (fact retain_merge_diff merge_bounds)+

interpretation merge_xor: inversion_merge "\<lambda>cap xs other. exclusiveOr_merge cap xs other 0"
  "\<lambda>A B. (A - B) \<union> (B - A)"
  by unfold_locales (fact exclusiveOr_merge_sym_diff merge_bounds)+

lemma wf_inv_le: "wf_inv xs \<Longrightarrow> x \<in> set xs \<Longrightarrow> x \<le> UNICODESET_HIGH"
  by (induction xs rule: rev_induct) (auto simp: wf_inv_def sorted_wrt_append)

end
