(* ===== verification/BMPSet.thy ===== *)
theory BMPSet
  imports InversionList
begin

unbundle bit_operations_syntax

text \<open>
  \<open>BMPSet\<close> (\<open>common/bmpset.cpp\<close>): the lookup tables that a frozen \<open>UnicodeSet\<close> builds from
  its inversion list, and \<open>contains\<close> on them.

  The tables are the class's arrays: \<open>asciiBytes\<close> one flag per ASCII character,
  \<open>table7FF\<close> one bit per code point below U+0800, \<open>bmpBlockBits\<close> two bits per block of 64
  BMP code points, all in the vertical organisation of the source, and \<open>list4kStarts\<close> the
  inversion-list indexes where each block of 4096 code points starts.  Table words are 32-bit
  words, so that the shifts and masks of the source are taken literally.
\<close>

type_synonym uint32 = "32 word"

record BMPSet =
  asciiBytes :: "bool list"
  table7FF :: "uint32 list"
  bmpBlockBits :: "uint32 list"
  list4kStarts :: "nat list"
  parentList :: "int list"

section \<open>Searching in an index range\<close>

definition BMPSet_findCodePoint :: "int list \<Rightarrow> UChar32 \<Rightarrow> nat \<Rightarrow> nat \<Rightarrow> nat" where
  "BMPSet_findCodePoint xs c lo hi =
     (if c < xs ! lo then lo
      else if lo \<ge> hi \<or> c \<ge> xs ! (hi - 1) then hi
      else findCodePoint_loop xs c lo hi)"

definition BMPSet_containsSlow :: "int list \<Rightarrow> UChar32 \<Rightarrow> nat \<Rightarrow> nat \<Rightarrow> bool" where
  "BMPSet_containsSlow xs c lo hi = odd (BMPSet_findCodePoint xs c lo hi)"

section \<open>Building the tables\<close>

text \<open>\<open>for (trail=from; trail<to; ++trail) table[trail] |= bits;\<close>\<close>

fun or_column :: "uint32 list \<Rightarrow> uint32 \<Rightarrow> nat \<Rightarrow> nat \<Rightarrow> uint32 list" where
  "or_column table bits from to = map (\<lambda>(i, w). if from \<le> i \<and> i < to then w OR bits else w)
     (enumerate 0 table)"

definition set32x64Bits :: "uint32 list \<Rightarrow> nat \<Rightarrow> nat \<Rightarrow> uint32 list" where
  "set32x64Bits table start limit =
     (let lead = drop_bit 6 start;
          trail = start AND 0x3f;
          bits = push_bit lead (1 :: uint32)
      in if start + 1 = limit then table[trail := table ! trail OR bits]
         else
           let limitLead = drop_bit 6 limit;
               limitTrail = limit AND 0x3f
           in if lead = limitLead then or_column table bits trail limitTrail
              else
                let (table1, lead1) = (if trail > 0 then (or_column table bits trail 64, lead + 1)
                                       else (table, lead));
                    rect = (let m = NOT (push_bit lead1 (1 :: uint32) - 1)
                            in if limitLead < 0x20 then m AND (push_bit limitLead 1 - 1) else m);
                    table2 = (if lead1 < limitLead then or_column table1 rect 0 64 else table1);
                    last = push_bit (if limitLead = 0x20 then limitLead - 1 else limitLead)
                             (1 :: uint32)
                in or_column table2 last 0 limitTrail)"

text \<open>
  The reading pattern shared by the three loops of \<open>initBits\<close>: a start, and a limit if there is
  one left, otherwise \<open>0x110000\<close>.
\<close>

fun read_range :: "int list \<Rightarrow> (int \<times> int \<times> int list) option" where
  "read_range [] = None"
| "read_range [s] = Some (s, 0x110000, [])"
| "read_range (s # l # r) = Some (s, l, r)"

text \<open>\<open>do { asciiBytes[start++]=1; } while(start<limit && start<0x80);\<close>\<close>

function ascii_fill :: "bool list \<Rightarrow> int \<Rightarrow> int \<Rightarrow> bool list \<times> int" where
  "ascii_fill bytes start limit =
     (let bytes' = bytes[nat start := True]; start' = start + 1
      in if start' < limit \<and> start' < 0x80 then ascii_fill bytes' start' limit
         else (bytes', start'))"
  by pat_completeness auto
termination
  by (relation "measure (\<lambda>(bytes, start, limit). nat (0x80 - start))") auto

declare ascii_fill.simps [simp del]

text \<open>The first loop; the result is the flags, the range it stopped in and the unread list.\<close>

function initBits_ascii :: "int list \<Rightarrow> bool list \<Rightarrow> (bool list \<times> int \<times> int \<times> int list) option" where
  "initBits_ascii xs bytes =
     (case read_range xs of None \<Rightarrow> None
      | Some (start, limit, rest) \<Rightarrow>
          if start \<ge> 0x80 then Some (bytes, start, limit, rest)
          else (case ascii_fill bytes start limit of
                  (bytes', start') \<Rightarrow>
                    if limit \<le> 0x80 then initBits_ascii rest bytes'
                    else Some (bytes', start', limit, rest)))"
  by pat_completeness auto
termination
  by (relation "measure (\<lambda>(xs, bytes). length xs)") (auto elim!: read_range.elims)

text \<open>The second loop, over the code points below U+0800.\<close>

function initBits_7FF ::
  "uint32 list \<Rightarrow> int \<Rightarrow> int \<Rightarrow> int list \<Rightarrow> (uint32 list \<times> int \<times> int \<times> int list) option" where
  "initBits_7FF table start limit rest =
     (if start < 0x800 then
        (let table' = set32x64Bits table (nat start) (nat (if limit \<le> 0x800 then limit else 0x800))
         in if limit > 0x800 then Some (table', 0x800, limit, rest)
            else (case read_range rest of None \<Rightarrow> None
                  | Some (start', limit', rest') \<Rightarrow> initBits_7FF table' start' limit' rest'))
      else Some (table, start, limit, rest))"
  by pat_completeness auto
termination
  by (relation "measure (\<lambda>(table, start, limit, rest). length rest)") (auto elim!: read_range.elims)

text \<open>\<open>bmpBlockBits[block&0x3f] |= 0x10001<<(block>>6);\<close>\<close>

definition mark_mixed :: "uint32 list \<Rightarrow> nat \<Rightarrow> uint32 list" where
  "mark_mixed table block =
     (let i = block AND 0x3f in table[i := table ! i OR push_bit (drop_bit 6 block) 0x10001])"

text \<open>
  The body of the third loop for the range from \<open>start\<close> to \<open>limit\<close>, both already restricted
  to the BMP and to blocks not yet known to be mixed; the result is the table, \<open>minStart\<close> and
  the possibly rounded-up \<open>limit\<close>.
\<close>

definition bmp_block_range ::
  "uint32 list \<Rightarrow> int \<Rightarrow> int \<Rightarrow> int \<Rightarrow> uint32 list \<times> int \<times> int" where
  "bmp_block_range table minStart start limit =
     (if start < limit then
        let (table1, start1, minStart1) =
              (if start AND 0x3f \<noteq> 0 then
                 (let block = drop_bit 6 start; next = push_bit 6 (block + 1)
                  in (mark_mixed table (nat block), next, next))
               else (table, start, minStart))
        in if start1 < limit then
             let table2 = (if start1 < limit AND NOT 0x3f
                           then set32x64Bits table1 (nat (drop_bit 6 start1)) (nat (drop_bit 6 limit))
                           else table1)
             in if limit AND 0x3f \<noteq> 0 then
                  (let block = drop_bit 6 limit; next = push_bit 6 (block + 1)
                   in (mark_mixed table2 (nat block), next, next))
                else (table2, minStart1, limit)
           else (table1, minStart1, limit)
      else (table, minStart, limit))"

function initBits_bmp :: "uint32 list \<Rightarrow> int \<Rightarrow> int \<Rightarrow> int \<Rightarrow> int list \<Rightarrow> uint32 list option" where
  "initBits_bmp table minStart start limit rest =
     (if start < 0x10000 then
        (let limit1 = (if limit > 0x10000 then 0x10000 else limit);
             start1 = (if start < minStart then minStart else start)
         in case bmp_block_range table minStart start1 limit1 of
              (table', minStart', limit') \<Rightarrow>
                if limit' = 0x10000 then Some table'
                else (case read_range rest of None \<Rightarrow> None
                      | Some (start', limit'', rest') \<Rightarrow>
                          initBits_bmp table' minStart' start' limit'' rest'))
      else Some table)"
  by pat_completeness auto
termination
  by (relation "measure (\<lambda>(table, minStart, start, limit, rest). length rest)")
    (auto elim!: read_range.elims)

declare initBits_ascii.simps [simp del] initBits_7FF.simps [simp del] initBits_bmp.simps [simp del]

definition BMPSet_initBits ::
  "int list \<Rightarrow> (bool list \<times> uint32 list \<times> uint32 list) option" where
  "BMPSet_initBits xs =
     (case initBits_ascii xs (replicate 0xc0 False) of None \<Rightarrow> None
      | Some (bytes, start, limit, rest) \<Rightarrow>
          (case initBits_7FF (replicate 64 0) start limit rest of None \<Rightarrow> None
           | Some (t7, start', limit', rest') \<Rightarrow>
               (case initBits_bmp (replicate 64 0) 0x800 start' limit' rest' of None \<Rightarrow> None
                | Some bmp \<Rightarrow> Some (bytes, t7, bmp))))"

definition BMPSet_overrideIllegal ::
  "int list \<Rightarrow> nat list \<Rightarrow> bool list \<times> uint32 list \<times> uint32 list \<Rightarrow>
   bool list \<times> uint32 list \<times> uint32 list" where
  "BMPSet_overrideIllegal xs starts = (\<lambda>(bytes, t7, bmp).
     let mask = NOT (push_bit 0xd (0x10001 :: uint32)) in
     if BMPSet_containsSlow xs 0xfffd (starts ! 0xf) (starts ! 0x10) then
       (map (\<lambda>(i, b). if 0x80 \<le> i \<and> i < 0xc0 then True else b) (enumerate 0 bytes),
        or_column t7 3 0 64,
        map (\<lambda>(i, w). if 32 \<le> i \<and> i < 64 then (w AND mask) OR push_bit 0xd 1 else w)
          (enumerate 0 (or_column bmp 1 0 32)))
     else
       (bytes, t7,
        map (\<lambda>(i, w). if 32 \<le> i \<and> i < 64 then w AND mask else w) (enumerate 0 bmp)))"

text \<open>\<open>list4kStarts\<close>: each search starts where the one before ended.\<close>

fun starts_4k :: "int list \<Rightarrow> nat \<Rightarrow> nat \<Rightarrow> nat \<Rightarrow> nat list" where
  "starts_4k xs prev i 0 = [length xs - 1]"
| "starts_4k xs prev i (Suc n) =
     (let s = BMPSet_findCodePoint xs (int (push_bit 12 i)) prev (length xs - 1)
      in s # starts_4k xs s (i + 1) n)"

definition BMPSet_new :: "int list \<Rightarrow> BMPSet option" where
  "BMPSet_new xs =
     (let s0 = BMPSet_findCodePoint xs 0x800 0 (length xs - 1);
          starts = s0 # starts_4k xs s0 1 0x10
      in case BMPSet_initBits xs of None \<Rightarrow> None
         | Some tables \<Rightarrow>
             (case BMPSet_overrideIllegal xs starts tables of (bytes, t7, bmp) \<Rightarrow>
                Some \<lparr>asciiBytes = bytes, table7FF = t7, bmpBlockBits = bmp,
                      list4kStarts = starts, parentList = xs\<rparr>))"

text \<open>The copy constructor: the same tables on the new parent's list.\<close>

definition BMPSet_copy :: "BMPSet \<Rightarrow> int list \<Rightarrow> BMPSet" where
  "BMPSet_copy other newParentList = other\<lparr>parentList := newParentList\<rparr>"

section \<open>Lookup\<close>

text \<open>\<open>(uint32_t)c <= n\<close> on a signed \<open>c\<close>: negative values are large.\<close>

definition BMPSet_contains :: "BMPSet \<Rightarrow> UChar32 \<Rightarrow> bool" where
  "BMPSet_contains bs c =
     (if 0 \<le> c \<and> c \<le> 0x7f then asciiBytes bs ! nat c
      else if 0 \<le> c \<and> c \<le> 0x7ff then
        table7FF bs ! nat (c AND 0x3f) AND push_bit (nat (drop_bit 6 c)) 1 \<noteq> 0
      else if (0 \<le> c \<and> c < 0xd800) \<or> (c \<ge> 0xe000 \<and> c \<le> 0xffff) then
        (let lead = nat (drop_bit 12 c);
             twoBits = drop_bit lead (bmpBlockBits bs ! nat (drop_bit 6 c AND 0x3f)) AND 0x10001
         in if twoBits \<le> 1 then twoBits \<noteq> 0
            else BMPSet_containsSlow (parentList bs) c (list4kStarts bs ! lead)
                   (list4kStarts bs ! (lead + 1)))
      else if 0 \<le> c \<and> c \<le> 0x10ffff then
        BMPSet_containsSlow (parentList bs) c (list4kStarts bs ! 0xd) (list4kStarts bs ! 0x11)
      else False)"

end
