(* ===== verification/Utf16.thy ===== *)
theory Utf16
  imports Prelude
begin

text \<open>
  UTF-16 text access: the macros of \<open>common/unicode/utf16.h\<close> and the methods of
  \<open>UnicodeString\<close> (\<open>common/unistr.cpp\<close>) that are built from them.

  A UTF-16 string is the list of its code units, integers in \<open>0 .. 0xffff\<close> (predicate
  \<open>u16_text\<close>); nothing is assumed about the pairing of surrogates, as in the code.  Indices are
  natural numbers, the macros that move an index return the new one.  The meaning of a text is
  the list of code points \<open>code_points\<close>, in which a lead surrogate followed by a trail surrogate
  stands for one supplementary code point and every other code unit for itself.  The lemmas say
  that every access macro reads one element of that list and moves by its length; encoding and
  decoding are inverse to each other.
\<close>

type_synonym UChar = int

section \<open>Macros of utf16.h\<close>

definition U_IS_SURROGATE :: "UChar32 \<Rightarrow> bool" where
  "U_IS_SURROGATE c = (c AND 0xfffff800 = 0xd800)"

definition U16_IS_LEAD :: "UChar32 \<Rightarrow> bool" where
  "U16_IS_LEAD c = (c AND 0xfffffc00 = 0xd800)"

definition U16_IS_TRAIL :: "UChar32 \<Rightarrow> bool" where
  "U16_IS_TRAIL c = (c AND 0xfffffc00 = 0xdc00)"

definition U16_IS_SURROGATE_LEAD :: "UChar32 \<Rightarrow> bool" where
  "U16_IS_SURROGATE_LEAD c = (c AND 0x400 = 0)"

definition U16_SURROGATE_OFFSET :: int where
  "U16_SURROGATE_OFFSET = push_bit 10 0xd800 + 0xdc00 - 0x10000"

definition U16_GET_SUPPLEMENTARY :: "UChar \<Rightarrow> UChar \<Rightarrow> UChar32" where
  "U16_GET_SUPPLEMENTARY lead trail = push_bit 10 lead + trail - U16_SURROGATE_OFFSET"

definition U16_LEAD :: "UChar32 \<Rightarrow> UChar" where
  "U16_LEAD c = (drop_bit 10 c + 0xd7c0) AND 0xffff"

definition U16_TRAIL :: "UChar32 \<Rightarrow> UChar" where
  "U16_TRAIL c = ((c AND 0x3ff) OR 0xdc00) AND 0xffff"

definition U16_LENGTH :: "UChar32 \<Rightarrow> nat" where
  "U16_LENGTH c = (if c AND 0xffffffff \<le> 0xffff then 1 else 2)"

definition U16_GET :: "UChar list \<Rightarrow> nat \<Rightarrow> nat \<Rightarrow> nat \<Rightarrow> UChar32" where
  "U16_GET s start i len =
     (let c = s ! i in
      if U_IS_SURROGATE c then
        if U16_IS_SURROGATE_LEAD c then
          if i + 1 \<noteq> len \<and> U16_IS_TRAIL (s ! (i + 1))
          then U16_GET_SUPPLEMENTARY c (s ! (i + 1)) else c
        else
          if start < i \<and> U16_IS_LEAD (s ! (i - 1))
          then U16_GET_SUPPLEMENTARY (s ! (i - 1)) c else c
      else c)"

definition U16_NEXT :: "UChar list \<Rightarrow> nat \<Rightarrow> nat \<Rightarrow> UChar32 \<times> nat" where
  "U16_NEXT s i len =
     (let c = s ! i; i = i + 1 in
      if U16_IS_LEAD c \<and> i \<noteq> len \<and> U16_IS_TRAIL (s ! i)
      then (U16_GET_SUPPLEMENTARY c (s ! i), i + 1)
      else (c, i))"

definition U16_PREV :: "UChar list \<Rightarrow> nat \<Rightarrow> nat \<Rightarrow> UChar32 \<times> nat" where
  "U16_PREV s start i =
     (let i = i - 1; c = s ! i in
      if U16_IS_TRAIL c \<and> start < i \<and> U16_IS_LEAD (s ! (i - 1))
      then (U16_GET_SUPPLEMENTARY (s ! (i - 1)) c, i - 1)
      else (c, i))"

definition U16_FWD_1 :: "UChar list \<Rightarrow> nat \<Rightarrow> nat \<Rightarrow> nat" where
  "U16_FWD_1 s i len =
     (if U16_IS_LEAD (s ! i) \<and> i + 1 \<noteq> len \<and> U16_IS_TRAIL (s ! (i + 1)) then i + 2 else i + 1)"

fun U16_FWD_N :: "UChar list \<Rightarrow> nat \<Rightarrow> nat \<Rightarrow> nat \<Rightarrow> nat" where
  "U16_FWD_N s i len 0 = i"
| "U16_FWD_N s i len (Suc n) = (if i < len then U16_FWD_N s (U16_FWD_1 s i len) len n else i)"

definition U16_BACK_1 :: "UChar list \<Rightarrow> nat \<Rightarrow> nat \<Rightarrow> nat" where
  "U16_BACK_1 s start i =
     (if U16_IS_TRAIL (s ! (i - 1)) \<and> start < i - 1 \<and> U16_IS_LEAD (s ! (i - 1 - 1))
      then i - 2 else i - 1)"

fun U16_BACK_N :: "UChar list \<Rightarrow> nat \<Rightarrow> nat \<Rightarrow> nat \<Rightarrow> nat" where
  "U16_BACK_N s start i 0 = i"
| "U16_BACK_N s start i (Suc n) =
     (if start < i then U16_BACK_N s start (U16_BACK_1 s start i) n else i)"

definition U16_SET_CP_START :: "UChar list \<Rightarrow> nat \<Rightarrow> nat \<Rightarrow> nat" where
  "U16_SET_CP_START s start i =
     (if U16_IS_TRAIL (s ! i) \<and> start < i \<and> U16_IS_LEAD (s ! (i - 1)) then i - 1 else i)"

definition U16_SET_CP_LIMIT :: "UChar list \<Rightarrow> nat \<Rightarrow> nat \<Rightarrow> nat \<Rightarrow> nat" where
  "U16_SET_CP_LIMIT s start i len =
     (if start < i \<and> i < len \<and> U16_IS_LEAD (s ! (i - 1)) \<and> U16_IS_TRAIL (s ! i)
      then i + 1 else i)"

text \<open>
  \<open>U16_APPEND\<close>: the written text, the new index and the error flag.  A BMP code point is written
  without a capacity check, as in the macro.
\<close>

definition U16_APPEND :: "UChar list \<Rightarrow> nat \<Rightarrow> nat \<Rightarrow> UChar32 \<Rightarrow> UChar list \<times> nat \<times> bool" where
  "U16_APPEND s i capacity c =
     (let u = c AND 0xffffffff in
      if u \<le> 0xffff then (s[i := c AND 0xffff], i + 1, False)
      else if u \<le> 0x10ffff \<and> i + 1 < capacity
      then (s[i := U16_LEAD c, i + 1 := U16_TRAIL c], i + 2, False)
      else (s, i, True))"

section \<open>UnicodeString methods\<close>

abbreviation (input) kInvalidUChar :: int where "kInvalidUChar \<equiv> 0xffff"

definition UnicodeString_char32At :: "UChar list \<Rightarrow> int \<Rightarrow> UChar32" where
  "UnicodeString_char32At s offset =
     (if 0 \<le> offset \<and> offset < int (length s)
      then U16_GET s 0 (nat offset) (length s)
      else kInvalidUChar)"

definition UnicodeString_getChar32Start :: "UChar list \<Rightarrow> int \<Rightarrow> nat" where
  "UnicodeString_getChar32Start s offset =
     (if 0 \<le> offset \<and> offset < int (length s) then U16_SET_CP_START s 0 (nat offset) else 0)"

definition UnicodeString_getChar32Limit :: "UChar list \<Rightarrow> int \<Rightarrow> nat" where
  "UnicodeString_getChar32Limit s offset =
     (if 0 \<le> offset \<and> offset < int (length s)
      then U16_SET_CP_LIMIT s 0 (nat offset) (length s)
      else length s)"

text \<open>\<open>-delta\<close> is a 32-bit negation, which overflows for the smallest \<open>delta\<close>.\<close>

definition UnicodeString_moveIndex32 :: "UChar list \<Rightarrow> int \<Rightarrow> int \<Rightarrow> nat" where
  "UnicodeString_moveIndex32 s index delta =
     (let len = length s;
          i = (if index < 0 then 0 else if index > int len then len else nat index) in
      if delta > 0 then U16_FWD_N s i len (nat delta)
      else U16_BACK_N s 0 i (nat (wrap_int32 (- delta))))"

section \<open>The meaning of UTF-16 text\<close>

definition u16_text :: "UChar list \<Rightarrow> bool" where
  "u16_text s = (\<forall>u \<in> set s. 0 \<le> u \<and> u \<le> 0xffff)"

fun code_points :: "UChar list \<Rightarrow> UChar32 list" where
  "code_points [] = []"
| "code_points [u] = [u]"
| "code_points (u # v # s) =
     (if U16_IS_LEAD u \<and> U16_IS_TRAIL v then U16_GET_SUPPLEMENTARY u v # code_points s
      else u # code_points (v # s))"

definition u16_encode :: "UChar32 \<Rightarrow> UChar list" where
  "u16_encode c = (if c \<le> 0xffff then [c] else [U16_LEAD c, U16_TRAIL c])"

definition scalar_value :: "UChar32 \<Rightarrow> bool" where
  "scalar_value c = (0 \<le> c \<and> c \<le> 0x10ffff \<and> \<not> (0xd800 \<le> c \<and> c \<le> 0xdfff))"

text \<open>An index splits no surrogate pair.\<close>

definition cp_boundary :: "UChar list \<Rightarrow> nat \<Rightarrow> bool" where
  "cp_boundary s i =
     (i \<le> length s \<and>
      \<not> (0 < i \<and> i < length s \<and> U16_IS_LEAD (s ! (i - 1)) \<and> U16_IS_TRAIL (s ! i)))"

section \<open>Ranges\<close>

lemma u16_text_simps [simp]:
  "u16_text []" "u16_text (u # s) \<longleftrightarrow> 0 \<le> u \<and> u \<le> 0xffff \<and> u16_text s"
  "u16_text (s @ t) \<longleftrightarrow> u16_text s \<and> u16_text t"
  by (auto simp: u16_text_def)

lemma u16_text_nth: "u16_text s \<Longrightarrow> i < length s \<Longrightarrow> 0 \<le> s ! i \<and> s ! i \<le> 0xffff"
  by (simp add: u16_text_def)

lemma u16_text_take: "u16_text s \<Longrightarrow> u16_text (take n s)"
  by (auto simp: u16_text_def dest: in_set_takeD)

lemma u16_text_drop: "u16_text s \<Longrightarrow> u16_text (drop n s)"
  by (auto simp: u16_text_def dest: in_set_dropD)

lemma and_fffff800: "0 \<le> c \<Longrightarrow> c < 2 ^ 32 \<Longrightarrow> c AND 0xfffff800 = (c div 2048) * 2048" for c :: int
  using and_push_mask [of c 11 21] by (simp add: mask_eq_exp_minus_1 push_bit_eq_mult)

lemma and_bit10: "c AND 0x400 = (c div 1024 mod 2) * 1024" for c :: int
  using and_push_mask [of c 10 1] by (simp add: mask_eq_exp_minus_1 push_bit_eq_mult)

lemma and_ffff: "c AND 0xffff = c mod 65536" for c :: int
  using and_low_mask [of c 16] by (simp add: mask_eq_exp_minus_1)

lemma and_ffffffff: "c AND 0xffffffff = c mod 4294967296" for c :: int
  using and_low_mask [of c 32] by (simp add: mask_eq_exp_minus_1)

lemma lead_range: "0 \<le> c \<Longrightarrow> c \<le> 0x10ffff \<Longrightarrow> U16_IS_LEAD c \<longleftrightarrow> 0xd800 \<le> c \<and> c \<le> 0xdbff"
  by (auto simp: U16_IS_LEAD_def and_fffffc00)

lemma trail_range: "0 \<le> c \<Longrightarrow> c \<le> 0x10ffff \<Longrightarrow> U16_IS_TRAIL c \<longleftrightarrow> 0xdc00 \<le> c \<and> c \<le> 0xdfff"
  by (auto simp: U16_IS_TRAIL_def and_fffffc00)

lemma surrogate_range:
  "0 \<le> c \<Longrightarrow> c \<le> 0x10ffff \<Longrightarrow> U_IS_SURROGATE c \<longleftrightarrow> 0xd800 \<le> c \<and> c \<le> 0xdfff"
  by (auto simp: U_IS_SURROGATE_def and_fffff800)

lemma lead_not_trail: "U16_IS_LEAD c \<Longrightarrow> \<not> U16_IS_TRAIL c"
  by (simp add: U16_IS_LEAD_def U16_IS_TRAIL_def)

lemma surrogate_lead:
  "0 \<le> c \<Longrightarrow> c \<le> 0xffff \<Longrightarrow> U_IS_SURROGATE c \<Longrightarrow> U16_IS_SURROGATE_LEAD c \<longleftrightarrow> U16_IS_LEAD c"
proof -
  assume c: "0 \<le> c" "c \<le> 0xffff" and "U_IS_SURROGATE c"
  then have "c div 1024 = (if c \<le> 0xdbff then 54 else 55)" by (auto simp: surrogate_range)
  then show ?thesis
    using c \<open>U_IS_SURROGATE c\<close>
    by (auto simp: surrogate_range lead_range U16_IS_SURROGATE_LEAD_def and_bit10)
qed

lemma lead_or_trail_surrogate:
  "0 \<le> c \<Longrightarrow> c \<le> 0xffff \<Longrightarrow> U_IS_SURROGATE c \<longleftrightarrow> U16_IS_LEAD c \<or> U16_IS_TRAIL c"
  by (auto simp: surrogate_range lead_range trail_range)

lemma supplementary_arith: "U16_GET_SUPPLEMENTARY u v = u * 1024 + v - 56613888"
  by (simp add: U16_GET_SUPPLEMENTARY_def U16_SURROGATE_OFFSET_def push_bit_eq_mult)

lemma U16_LEAD_arith: "0x10000 \<le> c \<Longrightarrow> c \<le> 0x10ffff \<Longrightarrow> U16_LEAD c = c div 1024 + 0xd7c0"
  by (simp add: U16_LEAD_def and_ffff drop_bit_eq_div)

lemma or_dc00: "0 \<le> x \<Longrightarrow> x < 1024 \<Longrightarrow> x OR 0xdc00 = x + 0xdc00" for x :: int
  using or_disjoint [of x 10 55] by (simp add: push_bit_eq_mult)

lemma U16_TRAIL_arith: "U16_TRAIL c = c mod 1024 + 0xdc00"
proof -
  have "0 \<le> c mod 1024 + 0xdc00" "c mod 1024 + 0xdc00 < 65536"
    using pos_mod_bound [of 1024 c] pos_mod_sign [of 1024 c] by linarith+
  then show ?thesis by (simp add: U16_TRAIL_def and_3ff and_ffff or_dc00)
qed

lemma U16_LENGTH_arith: "0 \<le> c \<Longrightarrow> c \<le> 0x10ffff \<Longrightarrow> U16_LENGTH c = (if c \<le> 0xffff then 1 else 2)"
  by (simp add: U16_LENGTH_def and_ffffffff)

lemma supplementary_range:
  assumes "0 \<le> u" "u \<le> 0xffff" "0 \<le> v" "v \<le> 0xffff" "U16_IS_LEAD u" "U16_IS_TRAIL v"
  shows "0x10000 \<le> U16_GET_SUPPLEMENTARY u v \<and> U16_GET_SUPPLEMENTARY u v \<le> 0x10ffff"
  using assms by (auto simp: lead_range trail_range supplementary_arith)

lemma lead_trail_inverse:
  assumes "0 \<le> u" "u \<le> 0xffff" "0 \<le> v" "v \<le> 0xffff" "U16_IS_LEAD u" "U16_IS_TRAIL v"
  shows "U16_LEAD (U16_GET_SUPPLEMENTARY u v) = u \<and> U16_TRAIL (U16_GET_SUPPLEMENTARY u v) = v"
proof -
  have u: "0xd800 \<le> u" "u \<le> 0xdbff" and v: "0xdc00 \<le> v" "v \<le> 0xdfff"
    using assms by (simp_all add: lead_range trail_range)
  let ?c = "U16_GET_SUPPLEMENTARY u v"
  have c: "?c = (u - 0xd7c0) * 1024 + (v - 0xdc00)" by (simp add: supplementary_arith)
  have d: "?c div 1024 = u - 0xd7c0" using v unfolding c by auto
  moreover have "?c mod 1024 = v - 0xdc00"
    using d c by (simp flip: minus_div_mult_eq_mod)
  ultimately show ?thesis
    using supplementary_range [OF assms] by (simp add: U16_LEAD_arith U16_TRAIL_arith)
qed

lemma supplementary_inverse:
  assumes "0x10000 \<le> c" "c \<le> 0x10ffff"
  shows "U16_IS_LEAD (U16_LEAD c)" "U16_IS_TRAIL (U16_TRAIL c)"
    "U16_GET_SUPPLEMENTARY (U16_LEAD c) (U16_TRAIL c) = c"
    "0 \<le> U16_LEAD c \<and> U16_LEAD c \<le> 0xffff" "0 \<le> U16_TRAIL c \<and> U16_TRAIL c \<le> 0xffff"
proof -
  have t: "0 \<le> c mod 1024" "c mod 1024 < 1024" by simp_all
  have l: "64 \<le> c div 1024" "c div 1024 \<le> 1087" using assms by auto
  show "U16_IS_LEAD (U16_LEAD c)" "U16_IS_TRAIL (U16_TRAIL c)"
    using assms t l by (auto simp: U16_LEAD_arith U16_TRAIL_arith lead_range trail_range)
  show "U16_GET_SUPPLEMENTARY (U16_LEAD c) (U16_TRAIL c) = c"
    using assms by (simp add: U16_LEAD_arith U16_TRAIL_arith supplementary_arith algebra_simps)
  show "0 \<le> U16_LEAD c \<and> U16_LEAD c \<le> 0xffff" "0 \<le> U16_TRAIL c \<and> U16_TRAIL c \<le> 0xffff"
    using assms t l by (auto simp: U16_LEAD_arith U16_TRAIL_arith)
qed

section \<open>Encoding and decoding\<close>

lemma code_points_range: "u16_text s \<Longrightarrow> c \<in> set (code_points s) \<Longrightarrow> 0 \<le> c \<and> c \<le> 0x10ffff"
  by (induction s rule: code_points.induct)
    (auto split: if_splits dest: supplementary_range)

lemma encode_code_points: "u16_text s \<Longrightarrow> concat (map u16_encode (code_points s)) = s"
proof (induction s rule: code_points.induct)
  case (3 u v s)
  then show ?case
    using supplementary_range [of u v] lead_trail_inverse [of u v]
    by (auto simp: u16_encode_def)
qed (auto simp: u16_encode_def)

lemma code_points_Cons:
  "code_points (u # s) =
     (if U16_IS_LEAD u \<and> s \<noteq> [] \<and> U16_IS_TRAIL (hd s)
      then U16_GET_SUPPLEMENTARY u (hd s) # code_points (tl s) else u # code_points s)"
  by (cases s) auto

lemma code_points_encode:
  "list_all scalar_value cs \<Longrightarrow> code_points (concat (map u16_encode cs)) = cs"
proof (induction cs)
  case (Cons c cs)
  show ?case
  proof (cases "c \<le> 0xffff")
    case True
    then have "\<not> U16_IS_LEAD c" using Cons.prems by (auto simp: scalar_value_def lead_range)
    with True Cons show ?thesis by (auto simp: u16_encode_def code_points_Cons)
  next
    case False
    then have "0x10000 \<le> c" "c \<le> 0x10ffff" using Cons.prems by (auto simp: scalar_value_def)
    with False Cons show ?thesis by (auto simp: u16_encode_def supplementary_inverse)
  qed
qed simp

text \<open>Texts concatenate unless a surrogate pair is formed at the seam.\<close>

lemma code_points_append:
  assumes "\<not> (s \<noteq> [] \<and> t \<noteq> [] \<and> U16_IS_LEAD (last s) \<and> U16_IS_TRAIL (hd t))"
  shows "code_points (s @ t) = code_points s @ code_points t"
  using assms
proof (induction s rule: code_points.induct)
  case (2 u)
  then show ?case by (cases t) auto
next
  case (3 u v s)
  then show ?case
  proof (cases "U16_IS_LEAD u \<and> U16_IS_TRAIL v")
    case True
    moreover have "code_points (s @ t) = code_points s @ code_points t"
      using "3.IH"(1)[OF True] "3.prems" by (cases s) auto
    ultimately show ?thesis by simp
  next
    case False
    then show ?thesis using "3.IH"(2)[OF False] "3.prems" by auto
  qed
qed auto

lemma code_points_split:
  "cp_boundary s i \<Longrightarrow> code_points s = code_points (take i s) @ code_points (drop i s)"
proof -
  assume b: "cp_boundary s i"
  have "code_points (take i s @ drop i s) = code_points (take i s) @ code_points (drop i s)"
    by (rule code_points_append)
      (use b in \<open>auto simp: cp_boundary_def last_conv_nth hd_drop_conv_nth min_def split: if_splits\<close>)
  then show ?thesis by simp
qed

section \<open>Moving by code points\<close>

abbreviation slice :: "'a list \<Rightarrow> nat \<Rightarrow> nat \<Rightarrow> 'a list" where
  "slice s a b \<equiv> drop a (take b s)"

lemma slice_Cons: "a < b \<Longrightarrow> b \<le> length s \<Longrightarrow> slice s a b = s ! a # slice s (a + 1) b"
  using Cons_nth_drop_Suc [of a "take b s"] by simp

lemma slice_snoc: "a < b \<Longrightarrow> b \<le> length s \<Longrightarrow> slice s a b = slice s a (b - 1) @ [s ! (b - 1)]"
  using take_Suc_conv_app_nth [of "b - 1" s] by simp

lemma U16_NEXT_spec:
  assumes "U16_NEXT s i len = (c, i')" and "i < len" and "len \<le> length s"
  shows "code_points (slice s i len) = c # code_points (slice s i' len)" and "i < i'" and "i' \<le> len"
proof -
  have e: "slice s (i + 1) len \<noteq> [] \<longleftrightarrow> i + 1 \<noteq> len" using assms by auto
  have h: "i + 1 \<noteq> len \<Longrightarrow> slice s (i + 1) len = s ! (i + 1) # slice s (i + 2) len"
    using slice_Cons [of "i + 1" len s] assms by simp
  show "code_points (slice s i len) = c # code_points (slice s i' len)"
    using assms(1) h e by (auto simp: slice_Cons [OF assms(2,3)] code_points_Cons U16_NEXT_def
        Let_def split: if_splits)
  show "i < i'" "i' \<le> len" using assms by (auto simp: U16_NEXT_def Let_def split: if_splits)
qed

lemma U16_PREV_spec:
  assumes "U16_PREV s start i = (c, i')" and "start < i" and "i \<le> length s"
  shows "code_points (slice s start i) = code_points (slice s start i') @ [c]"
    and "start \<le> i'" and "i' < i"
proof -
  let ?pair = "U16_IS_TRAIL (s ! (i - 1)) \<and> start < i - 1 \<and> U16_IS_LEAD (s ! (i - 1 - 1))"
  have s1: "slice s start i = slice s start (i - 1) @ [s ! (i - 1)]"
    using slice_snoc assms by blast
  show "code_points (slice s start i) = code_points (slice s start i') @ [c]"
  proof (cases ?pair)
    case True
    then have "slice s start (i - 1) = slice s start (i - 2) @ [s ! (i - 2)]"
      using slice_snoc [of start "i - 1" s] assms by (simp add: numeral_2_eq_2)
    then have "slice s start i = slice s start (i - 2) @ [s ! (i - 2), s ! (i - 1)]"
      using s1 by simp
    moreover have "code_points (slice s start (i - 2) @ [s ! (i - 2), s ! (i - 1)]) =
        code_points (slice s start (i - 2)) @ code_points [s ! (i - 2), s ! (i - 1)]"
      by (rule code_points_append) (use True in \<open>simp add: numeral_2_eq_2 lead_not_trail\<close>)
    ultimately show ?thesis
      using True assms(1) by (auto simp: U16_PREV_def Let_def numeral_2_eq_2)
  next
    case False
    have "last (slice s start (i - 1)) = s ! (i - 1 - 1)" if "start < i - 1"
      using that slice_snoc [of start "i - 1" s] assms by simp
    then have "code_points (slice s start (i - 1) @ [s ! (i - 1)]) =
        code_points (slice s start (i - 1)) @ code_points [s ! (i - 1)]"
      by (intro code_points_append) (use False assms in auto)
    with False assms(1) s1 show ?thesis by (auto simp: U16_PREV_def Let_def)
  qed
  show "start \<le> i'" "i' < i" using assms by (auto simp: U16_PREV_def Let_def split: if_splits)
qed

lemma U16_FWD_1_NEXT: "U16_FWD_1 s i len = snd (U16_NEXT s i len)"
  by (simp add: U16_FWD_1_def U16_NEXT_def Let_def)

lemma U16_BACK_1_PREV: "U16_BACK_1 s start i = snd (U16_PREV s start i)"
  by (simp add: U16_BACK_1_def U16_PREV_def Let_def numeral_2_eq_2)

lemma U16_FWD_N_spec:
  assumes "i \<le> len" and "len \<le> length s"
  shows "code_points (slice s (U16_FWD_N s i len n) len) = drop n (code_points (slice s i len))"
    and "i \<le> U16_FWD_N s i len n" and "U16_FWD_N s i len n \<le> len"
proof -
  have "code_points (slice s (U16_FWD_N s i len n) len) = drop n (code_points (slice s i len)) \<and>
      i \<le> U16_FWD_N s i len n \<and> U16_FWD_N s i len n \<le> len"
    using assms
  proof (induction s i len n rule: U16_FWD_N.induct)
    case (2 s i len n)
    show ?case
    proof (cases "i < len")
      case True
      obtain c j where n: "U16_NEXT s i len = (c, j)" by fastforce
      from U16_NEXT_spec [OF n True] 2 True show ?thesis
        by (auto simp: U16_FWD_1_NEXT n)
    qed (use 2 in auto)
  qed simp
  then show "code_points (slice s (U16_FWD_N s i len n) len) = drop n (code_points (slice s i len))"
    and "i \<le> U16_FWD_N s i len n" and "U16_FWD_N s i len n \<le> len" by auto
qed

lemma U16_BACK_N_spec:
  assumes "start \<le> i" and "i \<le> length s"
  shows "code_points (slice s start (U16_BACK_N s start i n)) =
      take (length (code_points (slice s start i)) - n) (code_points (slice s start i))"
    and "start \<le> U16_BACK_N s start i n" and "U16_BACK_N s start i n \<le> i"
proof -
  have "code_points (slice s start (U16_BACK_N s start i n)) =
      take (length (code_points (slice s start i)) - n) (code_points (slice s start i)) \<and>
      start \<le> U16_BACK_N s start i n \<and> U16_BACK_N s start i n \<le> i"
    using assms
  proof (induction s start i n rule: U16_BACK_N.induct)
    case (2 s start i n)
    show ?case
    proof (cases "start < i")
      case True
      obtain c j where n: "U16_PREV s start i = (c, j)" by fastforce
      from U16_PREV_spec [OF n True] 2 True show ?thesis
        by (auto simp: U16_BACK_1_PREV n)
    qed (use 2 in auto)
  qed simp
  then show "code_points (slice s start (U16_BACK_N s start i n)) =
      take (length (code_points (slice s start i)) - n) (code_points (slice s start i))"
    and "start \<le> U16_BACK_N s start i n" and "U16_BACK_N s start i n \<le> i" by auto
qed

subsection \<open>Boundaries\<close>

lemma cp_boundary_ends [simp]: "cp_boundary s 0" "cp_boundary s (length s)"
  by (auto simp: cp_boundary_def)

lemma U16_NEXT_boundary:
  assumes "U16_NEXT s i len = (c, i')" and "i < len" and "len \<le> length s"
  shows "cp_boundary (take len s) i'"
  using assms by (auto simp: cp_boundary_def U16_NEXT_def Let_def lead_not_trail split: if_splits)

lemma U16_PREV_boundary:
  assumes "U16_PREV s start i = (c, i')" and "start < i" and "i \<le> length s"
    and "cp_boundary s start"
  shows "cp_boundary s i'"
proof (cases "start = i - 1")
  case True
  then show ?thesis using assms by (auto simp: U16_PREV_def Let_def)
next
  case False
  then show ?thesis
    using assms(1-3)
    by (auto simp: cp_boundary_def U16_PREV_def Let_def dest: lead_not_trail split: if_splits)
qed

text \<open>Forward and backward access are inverse at a boundary.\<close>

lemma U16_PREV_NEXT:
  assumes "U16_NEXT s i len = (c, i')" and "start \<le> i" "i < len" and "len \<le> length s"
    and "start < i \<Longrightarrow> cp_boundary (take len s) i"
  shows "U16_PREV s start i' = (c, i)"
  using assms
  by (auto simp: U16_PREV_def U16_NEXT_def cp_boundary_def Let_def split: if_splits)

lemma U16_FWD_N_boundary:
  "cp_boundary s i \<Longrightarrow> cp_boundary s (U16_FWD_N s i (length s) n)"
proof (induction n arbitrary: i)
  case (Suc n)
  show ?case
  proof (cases "i < length s")
    case True
    obtain c j where n: "U16_NEXT s i (length s) = (c, j)" by fastforce
    with U16_NEXT_boundary [OF n True] Suc True show ?thesis by (simp add: U16_FWD_1_NEXT)
  qed (use Suc in auto)
qed simp

lemma U16_BACK_N_boundary:
  "cp_boundary s i \<Longrightarrow> cp_boundary s (U16_BACK_N s 0 i n)"
proof (induction n arbitrary: i)
  case (Suc n)
  show ?case
  proof (cases "0 < i")
    case True
    obtain c j where n: "U16_PREV s 0 i = (c, j)" by fastforce
    have "i \<le> length s" using Suc.prems by (simp add: cp_boundary_def)
    then have "cp_boundary s j" using U16_PREV_boundary [OF n True] by simp
    with Suc n True show ?thesis by (simp add: U16_BACK_1_PREV)
  qed (use Suc in auto)
qed simp

section \<open>Properties\<close>

lemma U16_APPEND_cases:
  assumes "- (2 ^ 31) \<le> c" and "c < 2 ^ 31"
  shows "U16_APPEND s i cap c =
    (if 0 \<le> c \<and> c \<le> 0xffff then (s[i := c], i + 1, False)
     else if 0xffff < c \<and> c \<le> 0x10ffff \<and> i + 1 < cap
     then (s[i := U16_LEAD c, i + 1 := U16_TRAIL c], i + 2, False) else (s, i, True))"
proof (cases "0 \<le> c")
  case True
  then have "c AND 0xffffffff = c" "c \<le> 0xffff \<Longrightarrow> c AND 0xffff = c" using assms by (auto simp: and_ffffffff and_ffff)
  then show ?thesis using True by (simp add: U16_APPEND_def Let_def)
next
  case False
  then have "c mod 4294967296 = c + 4294967296"
    using assms mod_pos_pos_trivial [of "c + 4294967296" 4294967296] by simp
  then show ?thesis using False assms by (simp add: U16_APPEND_def Let_def and_ffffffff)
qed

lemma text_update: "u16_text s \<Longrightarrow> 0 \<le> u \<Longrightarrow> u \<le> 0xffff \<Longrightarrow> u16_text (s[k := u])"
  using set_update_subset_insert [of s k u] by (auto simp: u16_text_def)

lemma append_reads:
  assumes "u16_text s" and "0 \<le> c" and "c \<le> 0x10ffff" and "i + U16_LENGTH c \<le> length s"
  shows "\<exists>t. U16_APPEND s i (length s) c = (t, i + U16_LENGTH c, False) \<and> length t = length s \<and> u16_text t \<and>
      (\<forall>k. k < i \<or> i + U16_LENGTH c \<le> k \<longrightarrow> t ! k = s ! k) \<and>
      (\<forall>n. i + U16_LENGTH c \<le> n \<longrightarrow> n = i + U16_LENGTH c \<or> \<not> U_IS_SURROGATE c \<longrightarrow> U16_NEXT t i n = (c, i + U16_LENGTH c)) \<and>
      (\<forall>m. m \<le> i \<longrightarrow> m = i \<or> \<not> U_IS_SURROGATE c \<longrightarrow> U16_PREV t m (i + U16_LENGTH c) = (c, i))"
proof (cases "c \<le> 0xffff")
  case True
  then have l: "U16_LENGTH c = 1" using assms by (simp add: U16_LENGTH_arith)
  then have t: "U16_APPEND s i (length s) c = (s[i := c], i + 1, False)" "i < length s"
    using assms True by (simp_all add: U16_APPEND_cases)
  have ns: "\<not> U16_IS_LEAD c \<and> \<not> U16_IS_TRAIL c" if "\<not> U_IS_SURROGATE c"
    using that assms True by (simp add: lead_or_trail_surrogate)
  show ?thesis
    unfolding l using t text_update [OF assms(1)] assms(2) True ns
    by (intro exI [of _ "s[i := c]"]) (auto simp: U16_NEXT_def U16_PREV_def Let_def)
next
  case False
  then have l: "U16_LENGTH c = 2" using assms by (simp add: U16_LENGTH_arith)
  let ?t = "s[i := U16_LEAD c, i + 1 := U16_TRAIL c]"
  have c: "0x10000 \<le> c" using False by simp
  note sp = supplementary_inverse [OF c assms(3)]
  have t: "U16_APPEND s i (length s) c = (?t, i + 2, False)" using assms False l by (simp add: U16_APPEND_cases)
  have n: "?t ! i = U16_LEAD c" "?t ! (i + 1) = U16_TRAIL c" "i + 1 < length s" using assms l by auto
  show ?thesis
    unfolding l using t text_update [OF text_update [OF assms(1)]] sp n
    by (intro exI [of _ ?t]) (auto simp: U16_NEXT_def U16_PREV_def Let_def nth_list_update)
qed

lemma read_appends:
  assumes "u16_text s" and "j < length s"
  shows "U16_APPEND s j (length s) (s ! j) = (s, j + 1, False)"
    and "j + 1 < length s \<Longrightarrow> U16_IS_LEAD (s ! j) \<Longrightarrow> U16_IS_TRAIL (s ! (j + 1)) \<Longrightarrow>
      U16_APPEND s j (length s) (U16_GET_SUPPLEMENTARY (s ! j) (s ! (j + 1))) = (s, j + 2, False)"
proof -
  note r = u16_text_nth [OF assms]
  show "U16_APPEND s j (length s) (s ! j) = (s, j + 1, False)" using r by (simp add: U16_APPEND_cases)
  assume p: "j + 1 < length s" "U16_IS_LEAD (s ! j)" "U16_IS_TRAIL (s ! (j + 1))"
  have "0 \<le> s ! j" "s ! j \<le> 0xffff" "0 \<le> s ! (j + 1)" "s ! (j + 1) \<le> 0xffff"
    using r u16_text_nth [OF assms(1) p(1)] by auto
  note q = supplementary_range [OF this p(2,3)] lead_trail_inverse [OF this p(2,3)]
  then show "U16_APPEND s j (length s) (U16_GET_SUPPLEMENTARY (s ! j) (s ! (j + 1))) = (s, j + 2, False)"
    using p(1) by (simp add: U16_APPEND_cases)
qed

text \<open>
  C25. Writing and reading UTF-16.  \<open>U16_APPEND\<close> of a code point that fits writes one or two units at the index and nothing
  else, and \<open>U16_NEXT\<close> and \<open>U16_PREV\<close> between the old and the new index read the code point back; for a code point
  that is not a surrogate they do so in the whole text, whatever surrounds it.  Every other 32-bit value, and a supplementary code
  point without room for two units, leaves text and index alone and sets the error flag.  Conversely, a code point read at any
  place of a text, unpaired surrogates included, forward or backward, is written back to its place as the same units.
\<close>

theorem utf16_roundtrip:
  assumes "u16_text s" and "i < length s" and "- (2 ^ 31) \<le> c" and "c < 2 ^ 31"
  shows "(case U16_APPEND s i (length s) c of (t, j, isError) \<Rightarrow>
    if 0 \<le> c \<and> c \<le> 0x10ffff \<and> i + U16_LENGTH c \<le> length s
    then \<not> isError \<and> j = i + U16_LENGTH c \<and> length t = length s \<and> u16_text t \<and>
      (\<forall>k. k < i \<or> j \<le> k \<longrightarrow> t ! k = s ! k) \<and>
      U16_NEXT t i j = (c, j) \<and> U16_PREV t i j = (c, i) \<and>
      (\<not> U_IS_SURROGATE c \<longrightarrow> U16_NEXT t i (length t) = (c, j) \<and> U16_PREV t 0 j = (c, i))
    else isError \<and> t = s \<and> j = i) \<and>
    (case U16_NEXT s i (length s) of (d, j) \<Rightarrow> U16_APPEND s i (length s) d = (s, j, False)) \<and>
    (case U16_PREV s 0 (i + 1) of (d, j) \<Rightarrow> U16_APPEND s j (length s) d = (s, i + 1, False))"
proof (intro conjI)
  show "case U16_NEXT s i (length s) of (d, j) \<Rightarrow> U16_APPEND s i (length s) d = (s, j, False)"
    using read_appends [OF assms(1,2)] assms(2) by (simp add: U16_NEXT_def Let_def)
  show "case U16_PREV s 0 (i + 1) of (d, j) \<Rightarrow> U16_APPEND s j (length s) d = (s, i + 1, False)"
    using read_appends [OF assms(1,2)] read_appends(2) [OF assms(1), of "i - 1"] assms(2)
    by (cases i) (simp_all add: U16_PREV_def Let_def)
  show "case U16_APPEND s i (length s) c of (t, j, isError) \<Rightarrow>
    if 0 \<le> c \<and> c \<le> 0x10ffff \<and> i + U16_LENGTH c \<le> length s
    then \<not> isError \<and> j = i + U16_LENGTH c \<and> length t = length s \<and> u16_text t \<and>
      (\<forall>k. k < i \<or> j \<le> k \<longrightarrow> t ! k = s ! k) \<and>
      U16_NEXT t i j = (c, j) \<and> U16_PREV t i j = (c, i) \<and>
      (\<not> U_IS_SURROGATE c \<longrightarrow> U16_NEXT t i (length t) = (c, j) \<and> U16_PREV t 0 j = (c, i))
    else isError \<and> t = s \<and> j = i"
  proof (cases "0 \<le> c \<and> c \<le> 0x10ffff \<and> i + U16_LENGTH c \<le> length s")
    case True
    then show ?thesis using append_reads [OF assms(1), of c i] by auto
  next
    case False
    then show ?thesis using assms(2-4) by (auto simp: U16_APPEND_cases U16_LENGTH_arith)
  qed
qed

theorem utf16_roundtrip_witness:
  "U16_APPEND [0x41, 0, 0, 0xdc00] 1 4 0x1f600 = ([0x41, 0xd83d, 0xde00, 0xdc00], 3, False) \<and>
    U16_NEXT [0x41, 0xd83d, 0xde00, 0xdc00] 1 4 = (0x1f600, 3) \<and> U16_PREV [0x41, 0xd83d, 0xde00, 0xdc00] 0 3 = (0x1f600, 1)"
proof -
  have t: "u16_text [0x41, 0, 0, 0xdc00]" "1 < length [0x41, 0, 0, 0xdc00 :: int]" by simp_all
  have a: "U16_APPEND [0x41, 0, 0, 0xdc00] 1 4 0x1f600 = ([0x41, 0xd83d, 0xde00, 0xdc00], 3, False)"
    "U16_LENGTH 0x1f600 = 2" "\<not> U_IS_SURROGATE 0x1f600" by code_simp+
  have l: "length [u, v, w, x] = 4" for u v w x :: int by simp
  show ?thesis
    using conjunct1 [OF utf16_roundtrip [OF t, of "0x1f600"]] a(2,3) unfolding l a(1) prod.case by simp
qed


text \<open>
  C26. \<open>UnicodeString::moveIndex32\<close> pins the index to the text and moves it, from a code point boundary, by exactly
  \<open>delta\<close> code points, forward or backward and at most to the ends of the text, and gives a boundary again.  The exception is
  the smallest 32-bit \<open>delta\<close>, whose negation overflows: the index is only pinned.
\<close>

theorem moveIndex32_spec:
  assumes i: "i = nat (max 0 (min index (int (length s))))" and b: "cp_boundary s i"
    and d: "- (2 ^ 31) \<le> delta" "delta < 2 ^ 31"
  shows "cp_boundary s (UnicodeString_moveIndex32 s index delta) \<and>
    int (length (code_points (take (UnicodeString_moveIndex32 s index delta) s))) =
      (if delta = - (2 ^ 31) then int (length (code_points (take i s)))
       else max 0 (min (int (length (code_points s))) (int (length (code_points (take i s))) + delta)))"
proof -
  have l: "i \<le> length s" using b by (simp add: cp_boundary_def)
  have pin: "(if index < 0 then 0 else if index > int (length s) then length s else nat index) = i"
    unfolding i by auto
  let ?n = "nat (abs delta)"
  let ?f = "U16_FWD_N s i (length s) ?n" and ?b = "U16_BACK_N s 0 i ?n"
  have len: "length (code_points s) = length (code_points (take j s)) + length (code_points (drop j s))"
    if "cp_boundary s j" for j
    using code_points_split [OF that] by (metis length_append)
  consider "0 < delta" | "delta = - (2 ^ 31)" | "- (2 ^ 31) < delta" "delta \<le> 0" using d by linarith
  then show ?thesis
  proof cases
    case 1
    then have m: "UnicodeString_moveIndex32 s index delta = ?f"
      unfolding UnicodeString_moveIndex32_def Let_def pin by simp
    have "code_points (drop ?f s) = drop ?n (code_points (drop i s))"
      using U16_FWD_N_spec(1) [of i "length s" s ?n] l by simp
    then have "length (code_points (drop ?f s)) = length (code_points (drop i s)) - ?n" by simp
    with 1 len [OF b] len [OF U16_FWD_N_boundary [OF b, of ?n]]
    show ?thesis unfolding m by (auto simp: U16_FWD_N_boundary [OF b])
  next
    case 2
    have "wrap_int32 (- delta) = - (2 ^ 31)" unfolding 2 by (simp add: wrap_int32_def)
    then have "UnicodeString_moveIndex32 s index delta = i"
      unfolding UnicodeString_moveIndex32_def Let_def pin using 2 by simp
    then show ?thesis using 2 b by simp
  next
    case 3
    then have "wrap_int32 (- delta) = - delta" by (intro wrap_int32_small) auto
    then have m: "UnicodeString_moveIndex32 s index delta = ?b"
      unfolding UnicodeString_moveIndex32_def Let_def pin using 3 by simp
    have "length (code_points (take ?b s)) = length (code_points (take i s)) - ?n"
      using U16_BACK_N_spec(1) [of 0 i s ?n] l by simp
    with 3 len [OF b] show ?thesis
      unfolding m by (auto simp: U16_BACK_N_boundary [OF b])
  qed
qed

theorem moveIndex32_spec_witness:
  "UnicodeString_moveIndex32 [0x41, 0xd83d, 0xde00, 0x42] 9 (- 2) = 1 \<and>
    cp_boundary [0x41, 0xd83d, 0xde00, 0x42] 1 \<and>
    length (code_points (take (UnicodeString_moveIndex32 [0x41, 0xd83d, 0xde00, 0x42] 9 (- 2)) [0x41, 0xd83d, 0xde00, 0x42])) = 1"
proof -
  let ?s = "[0x41, 0xd83d, 0xde00, 0x42] :: int list"
  have m: "UnicodeString_moveIndex32 ?s 9 (- 2) = 1" by code_simp
  have b: "4 = nat (max 0 (min 9 (int (length ?s))))" "cp_boundary ?s 4" "length (code_points ?s) = 3"
    "length (code_points (take 4 ?s)) = 3" by code_simp+
  show ?thesis using moveIndex32_spec [OF b(1,2), of "- 2"] m b(3,4) by simp
qed

text \<open>
  At every offset of a text, \<open>UnicodeString::char32At\<close> gives the code point that the offset lies
  in: the text is what precedes \<open>getChar32Start\<close>, that code point, and what follows
  \<open>U16_LENGTH\<close> units later.
\<close>

theorem char32At_spec:
  assumes "u16_text s" and "off < length s"
  defines "a \<equiv> UnicodeString_getChar32Start s (int off)"
    and "c \<equiv> UnicodeString_char32At s (int off)"
  shows "a \<le> off \<and> off < a + U16_LENGTH c \<and>
    code_points s = code_points (take a s) @ c # code_points (drop (a + U16_LENGTH c) s)"
proof -
  obtain c' j where n: "U16_NEXT s a (length s) = (c', j)" by fastforce
  have al: "a \<le> off" "a < length s"
    using assms(2) by (auto simp: a_def UnicodeString_getChar32Start_def U16_SET_CP_START_def)
  have b: "cp_boundary s a"
    using assms(2) by (auto simp: a_def UnicodeString_getChar32Start_def U16_SET_CP_START_def
        cp_boundary_def dest: lead_not_trail)
  have u: "0 \<le> s ! k" "s ! k \<le> 0xffff" if "k < length s" for k
    using u16_text_nth [OF assms(1) that] by auto
  have cc: "c' = c"
    using n assms(2) u [of off] u [of "off - 1"] surrogate_lead [of "s ! off"]
      lead_or_trail_surrogate [of "s ! off"] lead_not_trail [of "s ! off"]
    by (auto simp: U16_NEXT_def Let_def a_def c_def UnicodeString_getChar32Start_def
        U16_SET_CP_START_def UnicodeString_char32At_def U16_GET_def split: if_splits)
  have "j = a + U16_LENGTH c"
    using n al u [of a] u [of "a + 1"] supplementary_range [of "s ! a" "s ! (a + 1)"]
    by (auto simp: U16_NEXT_def Let_def cc U16_LENGTH_arith split: if_splits)
  moreover have "off < j"
    using n assms(2) by (auto simp: U16_NEXT_def Let_def a_def UnicodeString_getChar32Start_def
        U16_SET_CP_START_def split: if_splits)
  moreover have "code_points (drop a s) = c # code_points (drop j s)"
    using U16_NEXT_spec(1) [OF n al(2)] by (simp add: cc)
  ultimately show ?thesis using al code_points_split [OF b] by simp
qed

theorem char32At_spec_witness:
  "UnicodeString_char32At [0x41, 0xd83d, 0xde00] 2 = 0x1f600 \<and>
    code_points [0x41, 0xd83d, 0xde00] = [0x41, 0x1f600]"
proof -
  have c: "UnicodeString_char32At [0x41, 0xd83d, 0xde00] 2 = 0x1f600" by code_simp
  have a: "UnicodeString_getChar32Start [0x41, 0xd83d, 0xde00] 2 = 1" by code_simp
  have l: "U16_LENGTH 0x1f600 = 2" by code_simp
  show ?thesis
    using char32At_spec [of "[0x41, 0xd83d, 0xde00]" 2] c a l by simp
qed

end
