(* ===== verification/StringSet.thy ===== *)
theory StringSet
  imports UVector Utf16
begin

text \<open>
  The vector of strings of a \<open>UnicodeSet\<close>: a \<open>UVector\<close> that owns UTF-16 strings, compares them by
  contents (\<open>uhash_compareUnicodeString\<close>) and keeps them sorted in code unit order
  (\<open>UnicodeString::doCompare\<close> through \<open>compareUnicodeString\<close>).  The lemmas say that the vector
  operations the set uses are the operations of a finite set of strings.
\<close>

section \<open>Comparisons\<close>

definition uhash_compareUnicodeString :: "'p UElement \<Rightarrow> 'p UElement \<Rightarrow> bool" where
  "uhash_compareUnicodeString key1 key2 = (as_pointer key1 = as_pointer key2)"

text \<open>\<open>UnicodeString::doCompare\<close> on two whole, valid strings: code unit order.\<close>

fun doCompare_units :: "UChar list \<Rightarrow> UChar list \<Rightarrow> int \<Rightarrow> int" where
  "doCompare_units (a # as) (b # bs) lengthResult =
     (let result = a - b in
      if result \<noteq> 0 then (if result < 0 then -1 else 1) else doCompare_units as bs lengthResult)"
| "doCompare_units _ _ lengthResult = lengthResult"

definition UnicodeString_doCompare :: "UChar list \<Rightarrow> UChar list \<Rightarrow> int" where
  "UnicodeString_doCompare a b =
     (let lengthResult = (if length a \<noteq> length b then (if length a < length b then -1 else 1) else 0)
      in doCompare_units a b lengthResult)"

fun compareUnicodeString :: "UChar list UElement \<Rightarrow> UChar list UElement \<Rightarrow> int" where
  "compareUnicodeString (Pointer a) (Pointer b) = UnicodeString_doCompare a b"
| "compareUnicodeString _ _ = 0"

text \<open>The strings of a vector, in order.\<close>

abbreviation vec_strings :: "UChar list UVector \<Rightarrow> UChar list list" where
  "vec_strings v \<equiv> List.map_filter as_pointer (vec_contents v)"

section \<open>Code unit order\<close>

abbreviation unit_order :: "(UChar list \<times> UChar list) set" where
  "unit_order \<equiv> lexord {(x, y). x < y}"

lemma doCompare_units_order:
  "r = (if length a \<noteq> length b then (if length a < length b then -1 else 1) else 0) \<Longrightarrow>
    (doCompare_units a b r < 0 \<longleftrightarrow> (a, b) \<in> unit_order) \<and> (doCompare_units a b r = 0 \<longleftrightarrow> a = b)"
proof (induction a arbitrary: b r)
  case Nil
  then show ?case by (cases b) auto
next
  case (Cons x a)
  show ?case
  proof (cases b)
    case (Cons y bs)
    then have "(doCompare_units a bs r < 0 \<longleftrightarrow> (a, bs) \<in> unit_order) \<and>
        (doCompare_units a bs r = 0 \<longleftrightarrow> a = bs)"
      by (intro Cons.IH) (use Cons.prems in simp)
    then show ?thesis using Cons by (auto simp: Let_def)
  qed (use Cons.prems in simp)
qed

lemma doCompare_order:
  "UnicodeString_doCompare a b < 0 \<longleftrightarrow> (a, b) \<in> unit_order"
  "UnicodeString_doCompare a b = 0 \<longleftrightarrow> a = b"
  using doCompare_units_order [OF refl, of a b] by (simp_all add: UnicodeString_doCompare_def Let_def)

lemma doCompare_le: "UnicodeString_doCompare a b \<le> 0 \<longleftrightarrow> (a, b) \<in> unit_order \<or> a = b"
  using doCompare_order [of a b] by (auto simp: le_less)

lemma unit_order_trans: "(a, b) \<in> unit_order \<Longrightarrow> (b, c) \<in> unit_order \<Longrightarrow> (a, c) \<in> unit_order"
  by (erule (1) lexord_trans) (auto simp: trans_def)

lemma unit_order_total: "(a, b) \<in> unit_order \<or> a = b \<or> (b, a) \<in> unit_order"
  by (rule lexord_linear) auto

lemma unit_order_irrefl: "(a, a) \<notin> unit_order"
  by (rule lexord_irreflexive) auto

section \<open>The invariant\<close>

definition strings_ok :: "UChar list UVector \<Rightarrow> bool" where
  "strings_ok v \<longleftrightarrow> vec_ok v \<and> deleter v \<and> comparer v = Some uhash_compareUnicodeString \<and>
     (\<exists>strs. vec_contents v = map Pointer strs \<and> distinct strs \<and>
        sorted_wrt (\<lambda>a b. UnicodeString_doCompare a b \<le> 0) strs)"

definition string_set :: "UChar list UVector \<Rightarrow> UChar list set" where
  "string_set v = set (vec_strings v)"

lemma map_filter_map_Pointer [simp]: "List.map_filter as_pointer (map Pointer strs) = strs"
  by (induction strs) auto

lemma strings_okE:
  assumes "strings_ok v"
  obtains strs where "vec_ok v" "deleter v" "comparer v = Some uhash_compareUnicodeString"
    "vec_contents v = map Pointer strs" "distinct strs"
    "sorted_wrt (\<lambda>a b. UnicodeString_doCompare a b \<le> 0) strs" "vec_strings v = strs"
    "string_set v = set strs"
  using assms by (auto simp: strings_ok_def string_set_def)

lemma slot_matches_string [simp]:
  "slot_matches (Some uhash_compareUnicodeString) (Pointer a) h (Pointer b) \<longleftrightarrow> a = b"
  by (simp add: slot_matches_def uhash_compareUnicodeString_def)

lemma strings_contains: "strings_ok v \<Longrightarrow> UVector_contains v str \<longleftrightarrow> str \<in> string_set v"
  by (erule strings_okE)
    (auto simp: UVector_contains_def not_less [symmetric] indexOf_neg_iff)

lemma strings_new:
  assumes "UVector_new alloc True (Some uhash_compareUnicodeString) 1 U_ZERO_ERROR = (v, ec)"
    and "U_SUCCESS ec"
  shows "strings_ok v \<and> string_set v = {}"
  using assms by (auto simp: UVector_new_def UVector_init_def strings_ok_def string_set_def vec_defs
      Let_def List.map_filter_def split: if_splits)

lemma strings_clear:
  "strings_ok v \<Longrightarrow> strings_ok (UVector_removeAllElements v) \<and>
    string_set (UVector_removeAllElements v) = {}"
  by (auto simp: UVector_removeAllElements_def strings_ok_def string_set_def vec_defs Let_def
      List.map_filter_def)

lemma strings_insert:
  assumes ok: "strings_ok v" and new: "str \<notin> string_set v"
    and ret: "UVector_sortedInsert alloc v (Pointer str) compareUnicodeString U_ZERO_ERROR = (v', ec)"
  shows "(U_FAILURE ec \<and> v' = v) \<or>
    (ec = U_ZERO_ERROR \<and> strings_ok v' \<and> string_set v' = insert str (string_set v))"
proof -
  from ok obtain strs where v: "vec_ok v" "deleter v" "comparer v = Some uhash_compareUnicodeString"
    "vec_contents v = map Pointer strs" "distinct strs"
    "sorted_wrt (\<lambda>a b. UnicodeString_doCompare a b \<le> 0) strs" "string_set v = set strs"
    by (rule strings_okE)
  have "(U_FAILURE ec \<and> v' = v) \<or>
    (ec = U_ZERO_ERROR \<and> vec_ok v' \<and>
     sorted_wrt (\<lambda>x y. compareUnicodeString x y \<le> 0) (vec_contents v') \<and>
     (\<exists>i \<le> length (vec_contents v).
        vec_contents v' = take i (vec_contents v) @ Pointer str # drop i (vec_contents v)))"
  proof (rule sortedInsert_ok [where D = "range Pointer", OF v(1) _ _ _ _ _ ret])
    show "compareUnicodeString x y \<le> 0 \<or> compareUnicodeString y x \<le> 0"
      if "x \<in> range Pointer" "y \<in> range Pointer" for x y
      using that by (auto simp: doCompare_le) (use unit_order_total in blast)
    show "compareUnicodeString x z \<le> 0"
      if "x \<in> range Pointer" "y \<in> range Pointer" "z \<in> range Pointer"
        "compareUnicodeString x y \<le> 0" "compareUnicodeString y z \<le> 0" for x y z
      using that unit_order_trans by (auto simp: doCompare_le)
  qed (use v in \<open>auto simp: sorted_wrt_map\<close>)
  then show ?thesis
  proof (elim disjE conjE exE)
    fix i assume i: "vec_contents v' = take i (vec_contents v) @ Pointer str # drop i (vec_contents v)"
      and s: "sorted_wrt (\<lambda>x y. compareUnicodeString x y \<le> 0) (vec_contents v')"
      and ok': "ec = U_ZERO_ERROR" "vec_ok v'"
    let ?strs = "take i strs @ str # drop i strs"
    have c: "vec_contents v' = map Pointer ?strs" using i v by (simp add: take_map drop_map)
    have set: "set ?strs = insert str (set strs)"
      by (metis (no_types) Un_insert_right append_take_drop_id list.simps(15) set_append)
    have "set (take i strs) \<inter> set (drop i strs) = {}"
      using v(5) by (metis append_take_drop_id distinct_append)
    then have "distinct ?strs" using new v(5,7) by (auto dest: in_set_takeD in_set_dropD)
    then show ?thesis
      using ok' c set s v sortedInsert_fields [OF ret]
      by (auto simp: strings_ok_def string_set_def sorted_wrt_map simp del: map_append)
  qed auto
qed

lemma sorted_wrt_remove: "sorted_wrt P xs \<Longrightarrow> sorted_wrt P (take i xs @ drop (Suc i) xs)"
proof -
  assume s: "sorted_wrt P xs"
  then have "\<forall>x \<in> set (take i xs). \<forall>y \<in> set (drop i xs). P x y"
    using sorted_wrt_append [of P "take i xs" "drop i xs"] by simp
  then show ?thesis
    using set_drop_subset_set_drop [of i "Suc i" xs] s
    by (auto simp: sorted_wrt_append sorted_wrt_take sorted_wrt_drop)
qed

text \<open>Removing the first match.\<close>

lemma strings_remove_at:
  assumes ok: "strings_ok v" and "UVector_indexOf v (Pointer str) 0 h = i" and "0 \<le> i"
  shows "strings_ok (UVector_removeElementAt v i) \<and>
    string_set (UVector_removeElementAt v i) = string_set v - {str}"
proof -
  from ok obtain strs where v: "vec_ok v" "deleter v" "comparer v = Some uhash_compareUnicodeString"
    "vec_contents v = map Pointer strs" "distinct strs"
    "sorted_wrt (\<lambda>a b. UnicodeString_doCompare a b \<le> 0) strs" "string_set v = set strs"
    by (rule strings_okE)
  obtain k where k: "i = int k" "k < length strs" "strs ! k = str" "int k < count v"
    using assms(2,3) v(1) by (cases rule: indexOf_cases [OF v(1), of "Pointer str" h])
      (auto simp: v(3,4))
  let ?strs = "take k strs @ drop (Suc k) strs"
  have c: "vec_contents (UVector_removeElementAt v i) = map Pointer ?strs"
    and ok': "vec_ok (UVector_removeElementAt v i)" "deleter (UVector_removeElementAt v i)"
      "comparer (UVector_removeElementAt v i) = comparer v"
    using removeElementAt_ok [OF v(1), of i] k v(2,4) by (auto simp: take_map drop_map)
  have split: "strs = take k strs @ str # drop (Suc k) strs"
    using k id_take_nth_drop by metis
  then have "distinct (take k strs @ str # drop (Suc k) strs)" using v(5) by metis
  then have "distinct ?strs" "set ?strs = set strs - {str}"
    using arg_cong [OF split, of set] by auto
  then show ?thesis
    using c ok' v sorted_wrt_remove [OF v(6), of k]
    by (auto simp: strings_ok_def string_set_def simp del: map_append)
qed

lemma strings_indexOf_neg:
  "strings_ok v \<Longrightarrow> UVector_indexOf v (Pointer str) 0 h < 0 \<longleftrightarrow> str \<notin> string_set v"
  by (erule strings_okE) (auto simp: indexOf_neg_iff)

lemma strings_removeElement:
  assumes "strings_ok v" and "UVector_removeElement v str = (r, v')"
  shows "strings_ok v'" and "string_set v' = string_set v - {str}" and "r \<longleftrightarrow> str \<in> string_set v"
  using assms strings_remove_at [OF assms(1) refl, of str True] strings_indexOf_neg [OF assms(1), of str True]
  by (auto simp: UVector_removeElement_def Let_def split: if_splits)

lemma strings_removeAll_loop:
  assumes "strings_ok v" and "removeAll_loop v (map Pointer strs) ch = (ch', v')"
  shows "strings_ok v' \<and> string_set v' = string_set v - set strs"
  using assms
proof (induction strs arbitrary: v ch)
  case (Cons str strs)
  let ?i = "UVector_indexOf v (Pointer str) 0 False"
  show ?case
  proof (cases "?i \<ge> 0")
    case True
    note r = strings_remove_at [OF Cons.prems(1) refl True]
    have "strings_ok v' \<and> string_set v' = string_set (UVector_removeElementAt v ?i) - set strs"
      using Cons.IH r Cons.prems(2) True by (auto simp: Let_def)
    with r show ?thesis by auto
  next
    case False
    then show ?thesis using Cons strings_indexOf_neg [OF Cons.prems(1), of str False]
      by (auto simp: Let_def)
  qed
qed simp

lemma strings_removeAll:
  assumes "strings_ok v" and "strings_ok other"
  shows "strings_ok (snd (UVector_removeAll v other)) \<and>
    string_set (snd (UVector_removeAll v other)) = string_set v - string_set other"
proof -
  from assms(2) obtain strs where "vec_contents other = map Pointer strs" "string_set other = set strs"
    by (rule strings_okE)
  then show ?thesis
    using strings_removeAll_loop [OF assms(1), of strs False]
    by (cases "UVector_removeAll v other") (auto simp: UVector_removeAll_def vec_contents_def)
qed

lemma retainAll_loop_fields:
  "retainAll_loop j v other ch = (ch', v') \<Longrightarrow> deleter v' = deleter v \<and> comparer v' = comparer v"
proof (induction j arbitrary: v ch)
  case (Suc j)
  have "comparer (UVector_removeElementAt v (int j)) = comparer v"
    by (auto simp: UVector_removeElementAt_def UVector_orphanElementAt_def)
  with Suc.IH Suc.prems show ?case by (fastforce split: if_splits)
qed simp

lemma strings_retainAll:
  assumes "strings_ok v" and "strings_ok other"
  shows "strings_ok (snd (UVector_retainAll v other)) \<and>
    string_set (snd (UVector_retainAll v other)) = string_set v \<inter> string_set other"
proof -
  from assms(1) obtain strs where v: "vec_ok v" "deleter v" "comparer v = Some uhash_compareUnicodeString"
    "vec_contents v = map Pointer strs" "distinct strs"
    "sorted_wrt (\<lambda>a b. UnicodeString_doCompare a b \<le> 0) strs" "string_set v = set strs"
    by (rule strings_okE)
  from assms(2) obtain os where o: "vec_ok other" "comparer other = Some uhash_compareUnicodeString"
    "vec_contents other = map Pointer os" "string_set other = set os"
    by (rule strings_okE)
  obtain ch v' where r: "retainAll_loop (nat (count v)) v other False = (ch, v')" by fastforce
  have "vec_ok v' \<and> vec_contents v' = map Pointer (filter (\<lambda>s. s \<in> set os) strs)"
    using retainAll_loop_spec [OF v(1) o(1) _ r] length_vec_contents [OF v(1)]
    by (auto simp: v(4) o(2,3) filter_map comp_def image_iff intro!: arg_cong [where f = "map Pointer"] filter_cong)
  then show ?thesis
    using v o r retainAll_loop_fields [OF r]
    by (auto simp: UVector_retainAll_def strings_ok_def string_set_def sorted_wrt_filter)
qed

text \<open>Sorted vectors with the same strings are equal position by position.\<close>

lemma sorted_strings_unique:
  assumes "distinct as" "distinct bs" "set as = set bs"
    "sorted_wrt (\<lambda>a b. UnicodeString_doCompare a b \<le> 0) as"
    "sorted_wrt (\<lambda>a b. UnicodeString_doCompare a b \<le> 0) bs"
  shows "as = bs"
  using assms
proof (induction as arbitrary: bs)
  case (Cons a as)
  then obtain b bs' where bs: "bs = b # bs'" by (cases bs) auto
  have le: "a = b"
  proof (rule ccontr)
    assume "a \<noteq> b"
    then have "(a, b) \<in> unit_order" "(b, a) \<in> unit_order"
      using Cons.prems(3-5) unfolding bs by (auto simp: doCompare_le)
    then show False using unit_order_trans unit_order_irrefl by blast
  qed
  then have "set as = set bs'" using Cons.prems(1-3) unfolding bs by (metis distinct.simps(2) insert_eq_iff list.simps(15))
  with Cons le show ?case unfolding bs by auto
qed simp

lemma strings_eq:
  assumes "strings_ok v" and "strings_ok w"
  shows "UVector_eq v w \<longleftrightarrow> string_set v = string_set w"
proof -
  from assms(1) obtain as where v: "vec_ok v" "comparer v = Some uhash_compareUnicodeString"
    "vec_contents v = map Pointer as" "distinct as" "string_set v = set as"
    "sorted_wrt (\<lambda>a b. UnicodeString_doCompare a b \<le> 0) as" by (rule strings_okE)
  from assms(2) obtain bs where w: "vec_ok w" "vec_contents w = map Pointer bs" "distinct bs"
    "string_set w = set bs" "sorted_wrt (\<lambda>a b. UnicodeString_doCompare a b \<le> 0) bs"
    by (rule strings_okE)
  have n: "nat (count v) = length as" "nat (count w) = length bs" "0 \<le> count v" "0 \<le> count w"
    using length_vec_contents [OF v(1)] length_vec_contents [OF w(1)] v(1,3) w(1,2) by (auto simp: vec_ok_def)
  have "list_all2 uhash_compareUnicodeString (map Pointer as) (map Pointer bs) \<longleftrightarrow> as = bs"
    by (simp add: list_all2_map1 list_all2_map2 uhash_compareUnicodeString_def list.rel_eq)
  then have "UVector_eq v w \<longleftrightarrow> as = bs"
    using n v(2,3) w(2) by (auto simp: UVector_eq_def vec_contents_def list_all2_lengthD)
  also have "\<dots> \<longleftrightarrow> string_set v = string_set w"
    using sorted_strings_unique [OF v(4) w(3) _ v(6) w(5)] v(5) w(4) by auto
  finally show ?thesis .
qed

section \<open>Removing a vector from itself\<close>

text \<open>
  \<open>removeAll\<close> of the vector itself skips the string that moves into the place of a removed one: every second string
  stays.
\<close>

fun every_second :: "'e list \<Rightarrow> 'e list" where
  "every_second [] = []"
| "every_second [x] = []"
| "every_second (x # y # zs) = y # every_second zs"

lemma strings_count: "strings_ok v \<Longrightarrow> count v = int (length (vec_strings v))"
proof (erule strings_okE)
  fix strs
  assume v: "vec_ok v" "vec_contents v = map Pointer strs" "vec_strings v = strs"
  then have "nat (count v) = length strs" by (metis length_map length_vec_contents)
  then show "count v = int (length (vec_strings v))" using v by (auto simp: vec_defs)
qed

text \<open>A string is found at its own index, and removing it there takes it out of the list.\<close>

lemma strings_remove_own:
  assumes "strings_ok v" and "vec_strings v = kept @ x # rest"
  shows "UVector_indexOf v (elements v ! length kept) 0 False = int (length kept)"
    and "strings_ok (UVector_removeElementAt v (int (length kept)))"
    and "vec_strings (UVector_removeElementAt v (int (length kept))) = kept @ rest"
proof -
  let ?i = "length kept"
  from assms(1) obtain strs where v: "vec_ok v" "comparer v = Some uhash_compareUnicodeString"
    "vec_contents v = map Pointer strs" "distinct strs" "vec_strings v = strs"
    by (rule strings_okE)
  have strs: "strs = kept @ x # rest" using v(5) assms(2) by simp
  have i: "int ?i < count v" using strings_count [OF assms(1)] v(5) strs by simp
  have e: "elements v ! ?i = Pointer x"
    using vec_contents_nth [OF v(1) _ i] v(3) strs nth_append_length [of "map Pointer kept"] by simp
  from v(1) show idx: "UVector_indexOf v (elements v ! ?i) 0 False = int ?i"
  proof (cases rule: indexOf_cases [of v "Pointer x" False])
    case none
    have "Pointer x \<in> set (vec_contents v)" using v(3) strs by simp
    from none(2) [OF this] show ?thesis using v(2) by simp
  next
    case (some k)
    then have "k < length strs" "strs ! k = x" using v(2,3) by auto
    then have "k = ?i" using v(4) strs nth_eq_iff_index_eq [of strs k ?i] by simp
    with some e show ?thesis by simp
  qed
  then show "strings_ok (UVector_removeElementAt v (int ?i))"
    using strings_remove_at [OF assms(1), of x False "int ?i"] e by simp
  show "vec_strings (UVector_removeElementAt v (int ?i)) = kept @ rest"
    using removeElementAt_ok [OF v(1) _ i] v(3) strs by simp
qed

lemma strings_removeAll_self_loop:
  assumes "strings_ok v" and "vec_strings v = kept @ strs" and "removeAll_self_loop v (length kept) ch = (ch', v')"
  shows "strings_ok v' \<and> vec_strings v' = kept @ every_second strs"
  using assms
proof (induction strs arbitrary: v kept ch rule: every_second.induct)
  case 1
  then show ?case using strings_count [OF 1(1)]
    by (subst (asm) removeAll_self_loop.simps) simp
next
  case (2 x)
  note r = strings_remove_own [OF 2(1,2)]
  have "removeAll_self_loop (UVector_removeElementAt v (int (length kept))) (Suc (length kept)) True = (ch', v')"
    using 2(3) strings_count [OF 2(1)] 2(2) r(1)
    by (subst (asm) removeAll_self_loop.simps) (simp add: Let_def)
  then show ?case using strings_count [OF r(2)] r(2,3)
    by (subst (asm) removeAll_self_loop.simps) simp
next
  case (3 x y zs)
  note r = strings_remove_own [OF 3(2,3)]
  have "removeAll_self_loop (UVector_removeElementAt v (int (length kept))) (length (kept @ [y])) True = (ch', v')"
    using 3(4) strings_count [OF 3(2)] 3(3) r(1)
    by (subst (asm) removeAll_self_loop.simps) (simp add: Let_def)
  from 3(1) [OF r(2) _ this] r(3) show ?case by simp
qed

lemma set_every_second: "set (every_second xs) \<subseteq> set xs"
  by (induction xs rule: every_second.induct) auto

lemma strings_removeAll_self:
  assumes "strings_ok v"
  shows "strings_ok (snd (UVector_removeAll_self v)) \<and>
    string_set (snd (UVector_removeAll_self v)) = set (every_second (vec_strings v)) \<and>
    string_set (snd (UVector_removeAll_self v)) \<subseteq> string_set v"
  using strings_removeAll_self_loop [OF assms, of "[]" "vec_strings v" False]
  by (cases "UVector_removeAll_self v")
    (auto simp: UVector_removeAll_self_def string_set_def dest: subsetD [OF set_every_second])

lemma vec_strings_unique:
  assumes "strings_ok v" and "strings_ok w" and "string_set v = string_set w"
  shows "vec_strings v = vec_strings w"
proof -
  obtain vs where v: "distinct vs" "sorted_wrt (\<lambda>a b. UnicodeString_doCompare a b \<le> 0) vs"
    "vec_strings v = vs" "string_set v = set vs" using assms(1) by (rule strings_okE)
  obtain ws where w: "distinct ws" "sorted_wrt (\<lambda>a b. UnicodeString_doCompare a b \<le> 0) ws"
    "vec_strings w = ws" "string_set w = set ws" using assms(2) by (rule strings_okE)
  show ?thesis using sorted_strings_unique [OF v(1) w(1) _ v(2) w(2)] v w assms(3) by simp
qed

end
