(* ===== verification/UnicodeSet.thy ===== *)
theory UnicodeSet
  imports StringSet BMPSet "HOL-Library.Monad_Syntax"
begin

text \<open>
  The mutable set of code points and strings, \<open>common/uniset.cpp\<close>.

  The record has the members of the class.  \<open>us_list\<close> is the used part \<open>list[0..len-1]\<close> of the
  inversion list, so \<open>len\<close> is its length; the empty list stands for the null pointer that a failed
  allocation leaves behind.  The second array \<open>buffer\<close> only matters by being allocated or not and
  by its capacity.  \<open>strings\<close> is a \<open>UVector\<close> of UTF-16 strings with a deleter and comparison by
  contents.  \<open>bmpSet\<close> and \<open>stringSpan\<close> are the lookup structures of a frozen set.

  Every mutator returns \<open>Some\<close> of the new set; \<open>None\<close> stands for a read or write outside an array.
  Allocation is a parameter \<open>alloc\<close>, a failure makes the set bogus as in the code.
\<close>

section \<open>Data\<close>

text \<open>The part of \<open>UnicodeSetStringSpan\<close> that \<open>contains\<close> uses: the set without its strings.\<close>

record StringSpan =
  ss_list :: "int list"
  ss_bmpSet :: "BMPSet option"

record UnicodeSet =
  us_list :: "int list"
  us_capacity :: int
  us_bmpSet :: "BMPSet option"
  us_buffer :: bool
  us_bufferCapacity :: int
  us_pat :: "UChar list option"
  us_strings :: "UChar list UVector"
  us_stringSpan :: "StringSpan option"
  us_bogus :: bool

abbreviation (input) START_EXTRA :: int where "START_EXTRA \<equiv> 16"
abbreviation (input) GROW_EXTRA :: int where "GROW_EXTRA \<equiv> 16"
abbreviation (input) sizeof_UChar32 :: int where "sizeof_UChar32 \<equiv> 4"
abbreviation (input) sizeof_UnicodeString :: int where "sizeof_UnicodeString \<equiv> 64"
abbreviation (input) sizeof_UVector :: int where "sizeof_UVector \<equiv> 40"
abbreviation (input) sizeof_BMPSet :: int where "sizeof_BMPSet \<equiv> 792"
abbreviation (input) sizeof_StringSpan :: int where "sizeof_StringSpan \<equiv> 400"

abbreviation us_len :: "UnicodeSet \<Rightarrow> int" where
  "us_len s \<equiv> int (length (us_list s))"

section \<open>State and memory\<close>

definition UnicodeSet_isFrozen :: "UnicodeSet \<Rightarrow> bool" where
  "UnicodeSet_isFrozen s = (us_bmpSet s \<noteq> None \<or> us_stringSpan s \<noteq> None)"

definition UnicodeSet_isBogus :: "UnicodeSet \<Rightarrow> bool" where
  "UnicodeSet_isBogus s = us_bogus s"

definition UnicodeSet_releasePattern :: "UnicodeSet \<Rightarrow> UnicodeSet" where
  "UnicodeSet_releasePattern s = s\<lparr>us_pat := None\<rparr>"

definition UnicodeSet_setPattern :: "allocator \<Rightarrow> UnicodeSet \<Rightarrow> UChar list \<Rightarrow> UnicodeSet" where
  "UnicodeSet_setPattern alloc s newPat =
     (let s = UnicodeSet_releasePattern s in
      if alloc ((int (length newPat) + 1) * 2) then s\<lparr>us_pat := Some newPat\<rparr> else s)"

definition UnicodeSet_clear :: "UnicodeSet \<Rightarrow> UnicodeSet" where
  "UnicodeSet_clear s =
     (if UnicodeSet_isFrozen s then s
      else s\<lparr>us_list := (if us_list s = [] then [] else [UNICODESET_HIGH]),
             us_pat := None,
             us_strings := UVector_removeAllElements (us_strings s),
             us_bogus := (if us_list s = [] then us_bogus s else False)\<rparr>)"

definition UnicodeSet_setToBogus :: "UnicodeSet \<Rightarrow> UnicodeSet" where
  "UnicodeSet_setToBogus s = (UnicodeSet_clear s)\<lparr>us_bogus := True\<rparr>"

definition UnicodeSet_ensureCapacity ::
  "allocator \<Rightarrow> UnicodeSet \<Rightarrow> int \<Rightarrow> UnicodeSet \<times> UErrorCode" where
  "UnicodeSet_ensureCapacity alloc s newLen =
     (if newLen \<le> us_capacity s then (s, U_ZERO_ERROR)
      else if \<not> alloc (sizeof_UChar32 * (newLen + GROW_EXTRA))
      then (UnicodeSet_setToBogus s, U_MEMORY_ALLOCATION_ERROR)
      else (s\<lparr>us_capacity := newLen + GROW_EXTRA\<rparr>, U_ZERO_ERROR))"

definition UnicodeSet_ensureBufferCapacity ::
  "allocator \<Rightarrow> UnicodeSet \<Rightarrow> int \<Rightarrow> UnicodeSet \<times> UErrorCode" where
  "UnicodeSet_ensureBufferCapacity alloc s newLen =
     (if us_buffer s \<and> newLen \<le> us_bufferCapacity s then (s, U_ZERO_ERROR)
      else if \<not> alloc (sizeof_UChar32 * (newLen + GROW_EXTRA))
      then (UnicodeSet_setToBogus s, U_MEMORY_ALLOCATION_ERROR)
      else (s\<lparr>us_buffer := True, us_bufferCapacity := newLen + GROW_EXTRA\<rparr>, U_ZERO_ERROR))"

text \<open>
  \<open>swapBuffers\<close> after \<open>xs\<close> was written to the buffer; a write beyond its capacity is \<open>None\<close>.
\<close>

definition UnicodeSet_swapBuffers :: "UnicodeSet \<Rightarrow> int list \<Rightarrow> UnicodeSet option" where
  "UnicodeSet_swapBuffers s xs =
     (if int (length xs) \<le> us_bufferCapacity s
      then Some (s\<lparr>us_list := xs, us_buffer := (us_list s \<noteq> []),
                   us_capacity := us_bufferCapacity s, us_bufferCapacity := us_capacity s\<rparr>)
      else None)"

text \<open>Writing \<open>xs\<close> over \<open>list\<close>.\<close>

definition write_list :: "UnicodeSet \<Rightarrow> int list \<Rightarrow> UnicodeSet option" where
  "write_list s xs = (if int (length xs) \<le> us_capacity s then Some (s\<lparr>us_list := xs\<rparr>) else None)"

definition UnicodeSet_allocateStrings :: "allocator \<Rightarrow> UChar list UVector option" where
  "UnicodeSet_allocateStrings alloc =
     (if \<not> alloc sizeof_UVector then None
      else case UVector_new alloc True (Some uhash_compareUnicodeString) 1 U_ZERO_ERROR of
             (v, status) \<Rightarrow> if U_FAILURE status then None else Some v)"

section \<open>The three merges on the object\<close>

text \<open>
  What the three methods share: make room in the buffer, run the loop into it, swap and drop the
  cached pattern.
\<close>

definition merge_into_buffer ::
  "allocator \<Rightarrow> UnicodeSet \<Rightarrow> int \<Rightarrow> (nat \<Rightarrow> int list \<Rightarrow> int list option) \<Rightarrow> UnicodeSet option" where
  "merge_into_buffer alloc s otherLen merge =
     (case UnicodeSet_ensureBufferCapacity alloc s (us_len s + otherLen) of
        (s, status) \<Rightarrow>
          if U_FAILURE status then Some s
          else do {
            xs \<leftarrow> merge (nat (us_bufferCapacity s)) (us_list s);
            s \<leftarrow> UnicodeSet_swapBuffers s xs;
            Some (UnicodeSet_releasePattern s)
          })"

definition UnicodeSet_exclusiveOr ::
  "allocator \<Rightarrow> UnicodeSet \<Rightarrow> int list \<Rightarrow> int \<Rightarrow> int \<Rightarrow> UnicodeSet option" where
  "UnicodeSet_exclusiveOr alloc s other otherLen polarity =
     (if UnicodeSet_isFrozen s \<or> UnicodeSet_isBogus s then Some s
      else merge_into_buffer alloc s otherLen (\<lambda>cap xs. exclusiveOr_merge cap xs other polarity))"

definition UnicodeSet_add_list ::
  "allocator \<Rightarrow> UnicodeSet \<Rightarrow> int list \<Rightarrow> int \<Rightarrow> int \<Rightarrow> UnicodeSet option" where
  "UnicodeSet_add_list alloc s other otherLen polarity =
     (if UnicodeSet_isFrozen s \<or> UnicodeSet_isBogus s \<or> other = [] then Some s
      else merge_into_buffer alloc s otherLen (\<lambda>cap xs. add_merge cap xs other polarity))"

definition UnicodeSet_retain_list ::
  "allocator \<Rightarrow> UnicodeSet \<Rightarrow> int list \<Rightarrow> int \<Rightarrow> int \<Rightarrow> UnicodeSet option" where
  "UnicodeSet_retain_list alloc s other otherLen polarity =
     (if UnicodeSet_isFrozen s \<or> UnicodeSet_isBogus s then Some s
      else merge_into_buffer alloc s otherLen (\<lambda>cap xs. retain_merge cap xs other polarity))"

section \<open>Ranges and code points\<close>

definition UnicodeSet_complement_range ::
  "allocator \<Rightarrow> UnicodeSet \<Rightarrow> UChar32 \<Rightarrow> UChar32 \<Rightarrow> UnicodeSet option" where
  "UnicodeSet_complement_range alloc s start end' =
     (if UnicodeSet_isFrozen s \<or> UnicodeSet_isBogus s then Some s
      else let start = pinCodePoint start; end' = pinCodePoint end' in
           do {
             s \<leftarrow> (if start \<le> end'
                   then UnicodeSet_exclusiveOr alloc s [start, end' + 1, UNICODESET_HIGH] 2 0
                   else Some s);
             Some (UnicodeSet_releasePattern s)
           })"

text \<open>
  The constructors.  \<open>None\<close>: the strings could not be allocated; the code then returns an object
  with null pointers that is not even marked bogus.
\<close>

definition UnicodeSet_new :: "allocator \<Rightarrow> UnicodeSet option" where
  "UnicodeSet_new alloc =
     do {
       strs \<leftarrow> UnicodeSet_allocateStrings alloc;
       let s = \<lparr>us_list = [], us_capacity = 1 + START_EXTRA, us_bmpSet = None, us_buffer = False,
                us_bufferCapacity = 0, us_pat = None, us_strings = strs, us_stringSpan = None,
                us_bogus = False\<rparr>;
       Some (if alloc (sizeof_UChar32 * us_capacity s) then s\<lparr>us_list := [UNICODESET_HIGH]\<rparr>
             else UnicodeSet_setToBogus s)
     }"

definition UnicodeSet_new_range ::
  "allocator \<Rightarrow> UChar32 \<Rightarrow> UChar32 \<Rightarrow> UnicodeSet option" where
  "UnicodeSet_new_range alloc start end' =
     do {
       s \<leftarrow> UnicodeSet_new alloc;
       if us_list s = [] then Some s else UnicodeSet_complement_range alloc s start end'
     }"

definition UnicodeSet_set ::
  "allocator \<Rightarrow> UnicodeSet \<Rightarrow> UChar32 \<Rightarrow> UChar32 \<Rightarrow> UnicodeSet option" where
  "UnicodeSet_set alloc s start end' =
     UnicodeSet_complement_range alloc (UnicodeSet_clear s) start end'"

text \<open>\<open>add(UChar32 c)\<close>: the in-place update of the inversion list.\<close>

definition UnicodeSet_add_cp :: "allocator \<Rightarrow> UnicodeSet \<Rightarrow> UChar32 \<Rightarrow> UnicodeSet option" where
  "UnicodeSet_add_cp alloc s c =
     (let c = pinCodePoint c;
          xs = us_list s;
          i = findCodePoint_list xs c in
      if odd i \<or> UnicodeSet_isFrozen s \<or> UnicodeSet_isBogus s then Some s
      else if c = xs ! i - 1 then
        (let s = s\<lparr>us_list := xs[i := c]\<rparr>;
             (s, status) = (if c = UNICODESET_HIGH - 1
                            then UnicodeSet_ensureCapacity alloc s (us_len s + 1)
                            else (s, U_ZERO_ERROR)) in
         if U_FAILURE status then Some s
         else do {
           s \<leftarrow> (if c = UNICODESET_HIGH - 1 then write_list s (us_list s @ [UNICODESET_HIGH])
                 else Some s);
           let ys = us_list s;
           s \<leftarrow> (if 0 < i \<and> c = ys ! (i - 1) then write_list s (take (i - 1) ys @ drop (i + 1) ys)
                 else Some s);
           Some (UnicodeSet_releasePattern s)
         })
      else if 0 < i \<and> c = xs ! (i - 1) then
        Some (UnicodeSet_releasePattern (s\<lparr>us_list := xs[i - 1 := xs ! (i - 1) + 1]\<rparr>))
      else
        (case UnicodeSet_ensureCapacity alloc s (us_len s + 2) of
           (s, status) \<Rightarrow>
             if U_FAILURE status then Some s
             else do {
               s \<leftarrow> write_list s (take i xs @ [c, c + 1] @ drop i xs);
               Some (UnicodeSet_releasePattern s)
             }))"

definition UnicodeSet_add_range ::
  "allocator \<Rightarrow> UnicodeSet \<Rightarrow> UChar32 \<Rightarrow> UChar32 \<Rightarrow> UnicodeSet option" where
  "UnicodeSet_add_range alloc s start end' =
     (let start = pinCodePoint start; end' = pinCodePoint end' in
      if start < end' then UnicodeSet_add_list alloc s [start, end' + 1, UNICODESET_HIGH] 2 0
      else if start = end' then UnicodeSet_add_cp alloc s start
      else Some s)"

definition UnicodeSet_retain_range ::
  "allocator \<Rightarrow> UnicodeSet \<Rightarrow> UChar32 \<Rightarrow> UChar32 \<Rightarrow> UnicodeSet option" where
  "UnicodeSet_retain_range alloc s start end' =
     (let start = pinCodePoint start; end' = pinCodePoint end' in
      if start \<le> end' then UnicodeSet_retain_list alloc s [start, end' + 1, UNICODESET_HIGH] 2 0
      else Some (UnicodeSet_clear s))"

definition UnicodeSet_retain_cp :: "allocator \<Rightarrow> UnicodeSet \<Rightarrow> UChar32 \<Rightarrow> UnicodeSet option" where
  "UnicodeSet_retain_cp alloc s c = UnicodeSet_retain_range alloc s c c"

definition UnicodeSet_remove_range ::
  "allocator \<Rightarrow> UnicodeSet \<Rightarrow> UChar32 \<Rightarrow> UChar32 \<Rightarrow> UnicodeSet option" where
  "UnicodeSet_remove_range alloc s start end' =
     (let start = pinCodePoint start; end' = pinCodePoint end' in
      if start \<le> end' then UnicodeSet_retain_list alloc s [start, end' + 1, UNICODESET_HIGH] 2 2
      else Some s)"

definition UnicodeSet_remove_cp :: "allocator \<Rightarrow> UnicodeSet \<Rightarrow> UChar32 \<Rightarrow> UnicodeSet option" where
  "UnicodeSet_remove_cp alloc s c = UnicodeSet_remove_range alloc s c c"

definition UnicodeSet_complement_cp :: "allocator \<Rightarrow> UnicodeSet \<Rightarrow> UChar32 \<Rightarrow> UnicodeSet option" where
  "UnicodeSet_complement_cp alloc s c = UnicodeSet_complement_range alloc s c c"

definition UnicodeSet_complement :: "allocator \<Rightarrow> UnicodeSet \<Rightarrow> UnicodeSet option" where
  "UnicodeSet_complement alloc s =
     (if UnicodeSet_isFrozen s \<or> UnicodeSet_isBogus s then Some s
      else let xs = us_list s;
               ys = (if hd xs = UNICODESET_LOW then tl xs else UNICODESET_LOW # xs) in
           case UnicodeSet_ensureBufferCapacity alloc s (int (length ys)) of
             (s, status) \<Rightarrow>
               if U_FAILURE status then Some s
               else do {
                 s \<leftarrow> UnicodeSet_swapBuffers s ys;
                 Some (UnicodeSet_releasePattern s)
               })"

section \<open>Strings\<close>

definition UnicodeSet_getSingleCP :: "UChar list \<Rightarrow> int" where
  "UnicodeSet_getSingleCP str =
     (if length str > 2 then -1
      else if length str = 1 then str ! 0
      else let cp = UnicodeString_char32At str 0 in if cp > 0xffff then cp else -1)"

definition UnicodeSet_add_new_string :: "allocator \<Rightarrow> UnicodeSet \<Rightarrow> UChar list \<Rightarrow> UnicodeSet" where
  "UnicodeSet_add_new_string alloc s str =
     (if UnicodeSet_isFrozen s \<or> UnicodeSet_isBogus s then s
      else if \<not> alloc sizeof_UnicodeString then UnicodeSet_setToBogus s
      else case UVector_sortedInsert alloc (us_strings s) (Pointer str) compareUnicodeString
                  U_ZERO_ERROR of
             (v, ec) \<Rightarrow>
               (let s = s\<lparr>us_strings := v\<rparr> in
                if U_FAILURE ec then UnicodeSet_setToBogus s else s))"

definition UnicodeSet_add_string :: "allocator \<Rightarrow> UnicodeSet \<Rightarrow> UChar list \<Rightarrow> UnicodeSet option" where
  "UnicodeSet_add_string alloc s str =
     (if length str = 0 \<or> UnicodeSet_isFrozen s \<or> UnicodeSet_isBogus s then Some s
      else let cp = UnicodeSet_getSingleCP str in
           if cp < 0 then
             if \<not> UVector_contains (us_strings s) str
             then Some (UnicodeSet_releasePattern (UnicodeSet_add_new_string alloc s str))
             else Some s
           else UnicodeSet_add_cp alloc s cp)"

definition UnicodeSet_remove_string :: "allocator \<Rightarrow> UnicodeSet \<Rightarrow> UChar list \<Rightarrow> UnicodeSet option" where
  "UnicodeSet_remove_string alloc s str =
     (if length str = 0 \<or> UnicodeSet_isFrozen s \<or> UnicodeSet_isBogus s then Some s
      else let cp = UnicodeSet_getSingleCP str in
           if cp < 0 then
             Some (UnicodeSet_releasePattern
                     (s\<lparr>us_strings := snd (UVector_removeElement (us_strings s) str)\<rparr>))
           else UnicodeSet_remove_range alloc s cp cp)"

definition UnicodeSet_complement_string ::
  "allocator \<Rightarrow> UnicodeSet \<Rightarrow> UChar list \<Rightarrow> UnicodeSet option" where
  "UnicodeSet_complement_string alloc s str =
     (if length str = 0 \<or> UnicodeSet_isFrozen s \<or> UnicodeSet_isBogus s then Some s
      else let cp = UnicodeSet_getSingleCP str in
           if cp < 0 then
             Some (UnicodeSet_releasePattern
               (if UVector_contains (us_strings s) str
                then s\<lparr>us_strings := snd (UVector_removeElement (us_strings s) str)\<rparr>
                else UnicodeSet_add_new_string alloc s str))
           else UnicodeSet_complement_range alloc s cp cp)"

definition UnicodeSet_removeAllStrings :: "UnicodeSet \<Rightarrow> UnicodeSet" where
  "UnicodeSet_removeAllStrings s = s\<lparr>us_strings := UVector_removeAllElements (us_strings s)\<rparr>"

text \<open>
  \<open>for (i = 0; i < s.length(); i += U16_LENGTH(cp)) { cp = s.char32At(i); add(cp); }\<close>
\<close>

function addAll_cp_loop ::
  "allocator \<Rightarrow> UChar list \<Rightarrow> nat \<Rightarrow> UnicodeSet \<Rightarrow> UnicodeSet option" where
  "addAll_cp_loop alloc str i s =
     (if i < length str then
        (let cp = UnicodeString_char32At str (int i) in
         case UnicodeSet_add_cp alloc s cp of
           None \<Rightarrow> None
         | Some s' \<Rightarrow> addAll_cp_loop alloc str (i + U16_LENGTH cp) s')
      else Some s)"
  by pat_completeness auto
termination
  by (relation "measure (\<lambda>(alloc, str, i, s). length str - i)") (auto simp: U16_LENGTH_def)

declare addAll_cp_loop.simps [simp del]

definition UnicodeSet_addAll_string :: "allocator \<Rightarrow> UnicodeSet \<Rightarrow> UChar list \<Rightarrow> UnicodeSet option" where
  "UnicodeSet_addAll_string alloc s str = addAll_cp_loop alloc str 0 s"

section \<open>Operations with another set\<close>

fun addAll_strings_loop :: "allocator \<Rightarrow> UChar list list \<Rightarrow> UnicodeSet \<Rightarrow> UnicodeSet" where
  "addAll_strings_loop alloc [] s = s"
| "addAll_strings_loop alloc (str # strs) s =
     addAll_strings_loop alloc strs
       (if \<not> UVector_contains (us_strings s) str then UnicodeSet_add_new_string alloc s str else s)"

definition UnicodeSet_addAll :: "allocator \<Rightarrow> UnicodeSet \<Rightarrow> UnicodeSet \<Rightarrow> UnicodeSet option" where
  "UnicodeSet_addAll alloc s c =
     do {
       s \<leftarrow> (if us_list c \<noteq> [] then UnicodeSet_add_list alloc s (us_list c) (us_len c) 0 else Some s);
       Some (addAll_strings_loop alloc (vec_strings (us_strings c)) s)
     }"

definition UnicodeSet_retainAll :: "allocator \<Rightarrow> UnicodeSet \<Rightarrow> UnicodeSet \<Rightarrow> UnicodeSet option" where
  "UnicodeSet_retainAll alloc s c =
     (if UnicodeSet_isFrozen s \<or> UnicodeSet_isBogus s then Some s
      else do {
        s \<leftarrow> UnicodeSet_retain_list alloc s (us_list c) (us_len c) 0;
        Some (s\<lparr>us_strings := snd (UVector_retainAll (us_strings s) (us_strings c))\<rparr>)
      })"

definition UnicodeSet_removeAll :: "allocator \<Rightarrow> UnicodeSet \<Rightarrow> UnicodeSet \<Rightarrow> UnicodeSet option" where
  "UnicodeSet_removeAll alloc s c =
     (if UnicodeSet_isFrozen s \<or> UnicodeSet_isBogus s then Some s
      else do {
        s \<leftarrow> UnicodeSet_retain_list alloc s (us_list c) (us_len c) 2;
        Some (s\<lparr>us_strings := snd (UVector_removeAll (us_strings s) (us_strings c))\<rparr>)
      })"

text \<open>\<open>s.removeAll(s)\<close>, where both vectors of strings are the same object.\<close>

definition UnicodeSet_removeAll_self :: "allocator \<Rightarrow> UnicodeSet \<Rightarrow> UnicodeSet option" where
  "UnicodeSet_removeAll_self alloc s =
     (if UnicodeSet_isFrozen s \<or> UnicodeSet_isBogus s then Some s
      else do {
        s \<leftarrow> UnicodeSet_retain_list alloc s (us_list s) (us_len s) 2;
        Some (s\<lparr>us_strings := snd (UVector_removeAll_self (us_strings s))\<rparr>)
      })"

fun complementAll_strings_loop :: "allocator \<Rightarrow> UChar list list \<Rightarrow> UnicodeSet \<Rightarrow> UnicodeSet" where
  "complementAll_strings_loop alloc [] s = s"
| "complementAll_strings_loop alloc (str # strs) s =
     complementAll_strings_loop alloc strs
       (case UVector_removeElement (us_strings s) str of
          (removed, v) \<Rightarrow>
            if \<not> removed then UnicodeSet_add_new_string alloc (s\<lparr>us_strings := v\<rparr>) str
            else s\<lparr>us_strings := v\<rparr>)"

definition UnicodeSet_complementAll :: "allocator \<Rightarrow> UnicodeSet \<Rightarrow> UnicodeSet \<Rightarrow> UnicodeSet option" where
  "UnicodeSet_complementAll alloc s c =
     (if UnicodeSet_isFrozen s \<or> UnicodeSet_isBogus s then Some s
      else do {
        s \<leftarrow> UnicodeSet_exclusiveOr alloc s (us_list c) (us_len c) 0;
        Some (complementAll_strings_loop alloc (vec_strings (us_strings c)) s)
      })"

text \<open>The three methods that build a temporary set of the code points of a string.\<close>

definition UnicodeSet_retainAll_string ::
  "allocator \<Rightarrow> UnicodeSet \<Rightarrow> UChar list \<Rightarrow> UnicodeSet option" where
  "UnicodeSet_retainAll_string alloc s str =
     do {
       set \<leftarrow> UnicodeSet_new alloc;
       set \<leftarrow> UnicodeSet_addAll_string alloc set str;
       UnicodeSet_retainAll alloc s set
     }"

definition UnicodeSet_complementAll_string ::
  "allocator \<Rightarrow> UnicodeSet \<Rightarrow> UChar list \<Rightarrow> UnicodeSet option" where
  "UnicodeSet_complementAll_string alloc s str =
     do {
       set \<leftarrow> UnicodeSet_new alloc;
       set \<leftarrow> UnicodeSet_addAll_string alloc set str;
       UnicodeSet_complementAll alloc s set
     }"

definition UnicodeSet_removeAll_string ::
  "allocator \<Rightarrow> UnicodeSet \<Rightarrow> UChar list \<Rightarrow> UnicodeSet option" where
  "UnicodeSet_removeAll_string alloc s str =
     do {
       set \<leftarrow> UnicodeSet_new alloc;
       set \<leftarrow> UnicodeSet_addAll_string alloc set str;
       UnicodeSet_removeAll alloc s set
     }"

definition UnicodeSet_createFrom :: "allocator \<Rightarrow> UChar list \<Rightarrow> UnicodeSet option" where
  "UnicodeSet_createFrom alloc str =
     do { s \<leftarrow> UnicodeSet_new alloc; UnicodeSet_add_string alloc s str }"

definition UnicodeSet_createFromAll :: "allocator \<Rightarrow> UChar list \<Rightarrow> UnicodeSet option" where
  "UnicodeSet_createFromAll alloc str =
     do { s \<leftarrow> UnicodeSet_new alloc; UnicodeSet_addAll_string alloc s str }"

section \<open>Copying, compacting, freezing\<close>

definition UnicodeSet_compact :: "allocator \<Rightarrow> UnicodeSet \<Rightarrow> UnicodeSet" where
  "UnicodeSet_compact alloc s =
     (if UnicodeSet_isFrozen s \<or> UnicodeSet_isBogus s then s
      else let s = s\<lparr>us_buffer := False\<rparr>;
               newCapacity = us_len s + (if us_len s = 0 then 1 else 0) in
           if us_len s < us_capacity s \<and> alloc (sizeof_UChar32 * newCapacity)
           then s\<lparr>us_capacity := newCapacity\<rparr> else s)"

text \<open>
  \<open>operator=\<close> for two distinct objects.  The status of \<open>strings->assign\<close> is not looked at, and the
  strings are copied by \<open>cloneUnicodeString\<close>.
\<close>

definition UnicodeSet_assign :: "allocator \<Rightarrow> UnicodeSet \<Rightarrow> UnicodeSet \<Rightarrow> UnicodeSet" where
  "UnicodeSet_assign alloc s o' =
     (if UnicodeSet_isFrozen s then s
      else if UnicodeSet_isBogus o' then UnicodeSet_setToBogus s
      else case UnicodeSet_ensureCapacity alloc s (us_len o') of
        (s, ec) \<Rightarrow>
          if U_FAILURE ec then s
          else
            let s = s\<lparr>us_list := us_list o'\<rparr> in
            if us_bmpSet o' \<noteq> None \<and> \<not> alloc sizeof_BMPSet then UnicodeSet_setToBogus s
            else
              let s = s\<lparr>us_bmpSet := map_option (\<lambda>b. BMPSet_copy b (us_list o')) (us_bmpSet o'),
                        us_strings := fst (UVector_assign alloc (us_strings s) (us_strings o') id ec)\<rparr>
              in
              if us_stringSpan o' \<noteq> None \<and> \<not> alloc sizeof_StringSpan then UnicodeSet_setToBogus s
              else
                let s = s\<lparr>us_stringSpan := us_stringSpan o', us_pat := None\<rparr>
                in case us_pat o' of None \<Rightarrow> s | Some p \<Rightarrow> UnicodeSet_setPattern alloc s p)"

definition UnicodeSet_copy :: "allocator \<Rightarrow> UnicodeSet \<Rightarrow> UnicodeSet option" where
  "UnicodeSet_copy alloc o' =
     do {
       strs \<leftarrow> UnicodeSet_allocateStrings alloc;
       let s = \<lparr>us_list = [],
                us_capacity = (if UnicodeSet_isFrozen o' then us_len o' else us_len o' + GROW_EXTRA),
                us_bmpSet = None, us_buffer = False,
                us_bufferCapacity = 0, us_pat = None, us_strings = strs, us_stringSpan = None,
                us_bogus = False\<rparr>;
       Some (if alloc (sizeof_UChar32 * us_capacity s) then UnicodeSet_assign alloc s o'
             else UnicodeSet_setToBogus s)
     }"

definition UnicodeSet_cloneAsThawed :: "allocator \<Rightarrow> UnicodeSet \<Rightarrow> UnicodeSet option" where
  "UnicodeSet_cloneAsThawed alloc o' =
     do {
       strs \<leftarrow> UnicodeSet_allocateStrings alloc;
       let s = \<lparr>us_list = [], us_capacity = us_len o' + GROW_EXTRA,
                us_bmpSet = None, us_buffer = False,
                us_bufferCapacity = 0, us_pat = None, us_strings = strs, us_stringSpan = None,
                us_bogus = False\<rparr>;
       Some (if alloc (sizeof_UChar32 * us_capacity s) then
               (let s = s\<lparr>us_list := us_list o',
                          us_strings := fst (UVector_assign alloc strs (us_strings o') id U_ZERO_ERROR)\<rparr>
                in case us_pat o' of None \<Rightarrow> s | Some p \<Rightarrow> UnicodeSet_setPattern alloc s p)
             else UnicodeSet_setToBogus s)
     }"

section \<open>Queries\<close>

definition UnicodeSet_findCodePoint :: "UnicodeSet \<Rightarrow> UChar32 \<Rightarrow> nat" where
  "UnicodeSet_findCodePoint s c = findCodePoint_list (us_list s) c"

definition list_contains :: "int list \<Rightarrow> UChar32 \<Rightarrow> bool" where
  "list_contains xs c = (if c \<ge> UNICODESET_HIGH then False else odd (findCodePoint_list xs c))"

definition StringSpan_contains :: "StringSpan \<Rightarrow> UChar32 \<Rightarrow> bool" where
  "StringSpan_contains ss c =
     (case ss_bmpSet ss of Some b \<Rightarrow> BMPSet_contains b c | None \<Rightarrow> list_contains (ss_list ss) c)"

definition UnicodeSet_contains :: "UnicodeSet \<Rightarrow> UChar32 \<Rightarrow> bool" where
  "UnicodeSet_contains s c =
     (case us_bmpSet s of
        Some b \<Rightarrow> BMPSet_contains b c
      | None \<Rightarrow>
          (case us_stringSpan s of
             Some ss \<Rightarrow> StringSpan_contains ss c
           | None \<Rightarrow> list_contains (us_list s) c))"

definition UnicodeSet_contains_range :: "UnicodeSet \<Rightarrow> UChar32 \<Rightarrow> UChar32 \<Rightarrow> bool" where
  "UnicodeSet_contains_range s start end' =
     (let i = UnicodeSet_findCodePoint s start in odd i \<and> end' < us_list s ! i)"

definition UnicodeSet_containsNone_range :: "UnicodeSet \<Rightarrow> UChar32 \<Rightarrow> UChar32 \<Rightarrow> bool" where
  "UnicodeSet_containsNone_range s start end' =
     (let i = UnicodeSet_findCodePoint s start in even i \<and> end' < us_list s ! i)"

definition UnicodeSet_contains_string :: "UnicodeSet \<Rightarrow> UChar list \<Rightarrow> bool" where
  "UnicodeSet_contains_string s str =
     (if length str = 0 then False
      else let cp = UnicodeSet_getSingleCP str in
           if cp < 0 then UVector_contains (us_strings s) str else UnicodeSet_contains s cp)"

definition UnicodeSet_getRangeCount :: "UnicodeSet \<Rightarrow> nat" where
  "UnicodeSet_getRangeCount s = length (us_list s) div 2"

definition UnicodeSet_getRangeStart :: "UnicodeSet \<Rightarrow> nat \<Rightarrow> UChar32" where
  "UnicodeSet_getRangeStart s index = us_list s ! (index * 2)"

definition UnicodeSet_getRangeEnd :: "UnicodeSet \<Rightarrow> nat \<Rightarrow> UChar32" where
  "UnicodeSet_getRangeEnd s index = us_list s ! (index * 2 + 1) - 1"

definition UnicodeSet_getStringCount :: "UnicodeSet \<Rightarrow> int" where
  "UnicodeSet_getStringCount s = count (us_strings s)"

definition UnicodeSet_getString :: "UnicodeSet \<Rightarrow> int \<Rightarrow> UChar list option" where
  "UnicodeSet_getString s index = UVector_elementAt (us_strings s) index"

text \<open>The \<open>for\<close> loops over ranges, as folds over the range indices in order.\<close>

definition UnicodeSet_size :: "UnicodeSet \<Rightarrow> int" where
  "UnicodeSet_size s =
     fold (\<lambda>i n. n + (UnicodeSet_getRangeEnd s i - UnicodeSet_getRangeStart s i + 1))
       [0..<UnicodeSet_getRangeCount s] 0 + count (us_strings s)"

definition UnicodeSet_isEmpty :: "UnicodeSet \<Rightarrow> bool" where
  "UnicodeSet_isEmpty s = (us_len s = 1 \<and> count (us_strings s) = 0)"

definition UnicodeSet_containsAll :: "UnicodeSet \<Rightarrow> UnicodeSet \<Rightarrow> bool" where
  "UnicodeSet_containsAll s c =
     (list_all (\<lambda>i. UnicodeSet_contains_range s (UnicodeSet_getRangeStart c i) (UnicodeSet_getRangeEnd c i))
        [0..<UnicodeSet_getRangeCount c] \<and>
      UVector_containsAll (us_strings s) (us_strings c))"

definition UnicodeSet_containsNone :: "UnicodeSet \<Rightarrow> UnicodeSet \<Rightarrow> bool" where
  "UnicodeSet_containsNone s c =
     (list_all (\<lambda>i. UnicodeSet_containsNone_range s (UnicodeSet_getRangeStart c i) (UnicodeSet_getRangeEnd c i))
        [0..<UnicodeSet_getRangeCount c] \<and>
      UVector_containsNone (us_strings s) (us_strings c))"

definition UnicodeSet_eq :: "UnicodeSet \<Rightarrow> UnicodeSet \<Rightarrow> bool" where
  "UnicodeSet_eq s o' =
     (if length (us_list s) \<noteq> length (us_list o') then False
      else list_all (\<lambda>i. us_list s ! i = us_list o' ! i) [0..<length (us_list s)] \<and>
           UVector_eq (us_strings s) (us_strings o'))"

text \<open>\<open>hashCode\<close>: 32-bit arithmetic that wraps.\<close>

definition UnicodeSet_hashCode :: "UnicodeSet \<Rightarrow> 32 word" where
  "UnicodeSet_hashCode s =
     fold (\<lambda>c result. result * 1000003 + word_of_int c) (us_list s) (of_nat (length (us_list s)))"

definition UnicodeSet_matchesIndexValue :: "UnicodeSet \<Rightarrow> int \<Rightarrow> bool" where
  "UnicodeSet_matchesIndexValue s v =
     (list_ex (\<lambda>i. let low = UnicodeSet_getRangeStart s i; high = UnicodeSet_getRangeEnd s i in
                   if low AND NOT 0xff = high AND NOT 0xff
                   then low AND 0xff \<le> v \<and> v \<le> high AND 0xff
                   else low AND 0xff \<le> v \<or> v \<le> high AND 0xff)
        [0..<UnicodeSet_getRangeCount s] \<or>
      list_ex (\<lambda>str. UnicodeString_char32At str 0 AND 0xff = v) (vec_strings (us_strings s)))"

text \<open>
  \<open>indexOf\<close> and \<open>charAt\<close>: the loops over the pairs of list entries.  \<open>indexOf\<close> has no end test; on
  running off the list the model gives \<open>None\<close>.
\<close>

fun indexOf_loop :: "int list \<Rightarrow> UChar32 \<Rightarrow> int \<Rightarrow> int option" where
  "indexOf_loop (start # rest) c n =
     (if c < start then Some (-1)
      else case rest of
             [] \<Rightarrow> None
           | limit # rest' \<Rightarrow>
               if c < limit then Some (n + c - start)
               else indexOf_loop rest' c (n + (limit - start)))"
| "indexOf_loop [] c n = None"

definition UnicodeSet_indexOf :: "UnicodeSet \<Rightarrow> UChar32 \<Rightarrow> int option" where
  "UnicodeSet_indexOf s c =
     (if c < 0 \<or> c > 0x10ffff then Some (-1) else indexOf_loop (us_list s) c 0)"

fun charAt_loop :: "int list \<Rightarrow> int \<Rightarrow> UChar32" where
  "charAt_loop (start # limit # rest) index =
     (if index < limit - start then start + index
      else charAt_loop rest (index - (limit - start)))"
| "charAt_loop _ index = -1"

definition UnicodeSet_charAt :: "UnicodeSet \<Rightarrow> int \<Rightarrow> UChar32" where
  "UnicodeSet_charAt s index = (if 0 \<le> index then charAt_loop (us_list s) index else -1)"

section \<open>Spans and freezing\<close>

text \<open>The code point loops at the end of \<open>span\<close> and \<open>spanBack\<close>; \<open>start\<close> is below \<open>length str\<close>.\<close>

function span_loop :: "(UChar32 \<Rightarrow> bool) \<Rightarrow> UChar list \<Rightarrow> nat \<Rightarrow> nat" where
  "span_loop stay str start =
     (if start < length str then
        (case U16_NEXT str start (length str) of
           (c, next) \<Rightarrow> if stay c then span_loop stay str next else start)
      else start)"
  by pat_completeness auto
termination
  by (relation "measure (\<lambda>(stay, str, start). length str - start)")
    (auto simp: U16_NEXT_def Let_def split: if_splits)

function spanBack_loop :: "(UChar32 \<Rightarrow> bool) \<Rightarrow> UChar list \<Rightarrow> nat \<Rightarrow> nat" where
  "spanBack_loop stay str limit =
     (if 0 < limit then
        (case U16_PREV str 0 limit of
           (c, prev) \<Rightarrow> if stay c then spanBack_loop stay str prev else limit)
      else limit)"
  by pat_completeness auto
termination
  by (relation "measure (\<lambda>(stay, str, limit). limit)")
    (auto simp: U16_PREV_def Let_def split: if_splits)

declare span_loop.simps [simp del] spanBack_loop.simps [simp del]

text \<open>
  The first half of \<open>UnicodeSet::freeze\<close>: drop the buffer and shrink the list; the result says
  whether the list survived.
\<close>

definition freeze_compact :: "allocator \<Rightarrow> UnicodeSet \<Rightarrow> UnicodeSet \<times> bool" where
  "freeze_compact alloc s =
     (let s = s\<lparr>us_buffer := False\<rparr> in
      if us_capacity s > us_len s + GROW_EXTRA then
        (let cap = us_len s + (if us_len s = 0 then 1 else 0) in
         if alloc (sizeof_UChar32 * cap) then (s\<lparr>us_capacity := cap\<rparr>, True)
         else (UnicodeSet_setToBogus (s\<lparr>us_capacity := cap, us_list := []\<rparr>), False))
      else (s, True))"

definition freeze_bmp :: "allocator \<Rightarrow> UnicodeSet \<Rightarrow> UnicodeSet option" where
  "freeze_bmp alloc s =
     (if alloc sizeof_BMPSet then do { b \<leftarrow> BMPSet_new (us_list s); Some (s\<lparr>us_bmpSet := Some b\<rparr>) }
      else Some (UnicodeSet_setToBogus s))"

text \<open>\<open>freeze\<close> of a set without strings, such as the \<open>spanSet\<close> of a string span.\<close>

definition freeze_code_points :: "allocator \<Rightarrow> UnicodeSet \<Rightarrow> UnicodeSet option" where
  "freeze_code_points alloc s =
     (if UnicodeSet_isFrozen s \<or> UnicodeSet_isBogus s then Some s
      else case freeze_compact alloc s of (s, ok) \<Rightarrow> if ok then freeze_bmp alloc s else Some s)"

text \<open>\<open>getUTF8Length\<close>: 0 for a string with an unpaired surrogate.\<close>

definition getUTF8Length :: "UChar list \<Rightarrow> int" where
  "getUTF8Length str =
     (if list_ex U_IS_SURROGATE (code_points str) then 0
      else sum_list (map (\<lambda>c. if c \<le> 0x7f then 1 else if c \<le> 0x7ff then 2
                              else if c \<le> 0xffff then 3 else 4) (code_points str)))"

text \<open>
  The constructor of \<open>UnicodeSetStringSpan\<close> for all span variants, up to its span tables: the set
  of code points \<open>spanSet\<close>, frozen if a string is relevant, and whether \<open>needsStringSpanUTF16()\<close>.
\<close>

definition StringSpan_new :: "allocator \<Rightarrow> UnicodeSet \<Rightarrow> (StringSpan \<times> bool) option" where
  "StringSpan_new alloc s =
     do {
       spanSet \<leftarrow> UnicodeSet_new_range alloc 0 0x10ffff;
       spanSet \<leftarrow> UnicodeSet_retainAll alloc spanSet s;
       let strs = vec_strings (us_strings s);
       let someRelevant =
         list_ex (\<lambda>str. span_loop (UnicodeSet_contains spanSet) str 0 < length str) strs;
       if \<not> someRelevant
       then Some (\<lparr>ss_list = us_list spanSet, ss_bmpSet = us_bmpSet spanSet\<rparr>, False)
       else do {
         spanSet \<leftarrow> freeze_code_points alloc spanSet;
         let allocSize = int (length strs) * 8 + sum_list (map getUTF8Length strs);
         Some (\<lparr>ss_list = us_list spanSet, ss_bmpSet = us_bmpSet spanSet\<rparr>,
               allocSize \<le> 128 \<or> alloc allocSize)
       }
     }"

definition UnicodeSet_freeze :: "allocator \<Rightarrow> UnicodeSet \<Rightarrow> UnicodeSet option" where
  "UnicodeSet_freeze alloc s =
     (if UnicodeSet_isFrozen s \<or> UnicodeSet_isBogus s then Some s
      else case freeze_compact alloc s of
        (s, ok) \<Rightarrow>
          if \<not> ok then Some s
          else do {
            span \<leftarrow> (if count (us_strings s) \<noteq> 0 \<and> alloc sizeof_StringSpan
                     then do {
                       (ss, needs) \<leftarrow> StringSpan_new alloc s;
                       Some (if needs then Some ss else None)
                     }
                     else Some None);
            let s = s\<lparr>us_stringSpan := span\<rparr>;
            if span = None then freeze_bmp alloc s else Some s
          })"

end
