(* ===== verification/UnicodeSetProps.thy ===== *)
theory UnicodeSetProps
  imports UnicodeSet
begin

text \<open>
  The invariant of \<open>UnicodeSet\<close> and the properties of its operations: each mutator, on a set that
  is neither frozen nor bogus, is the set-theoretic operation on code points and on strings, keeps
  the invariant and stays inside its arrays; the only other outcome is the bogus state after a
  refused allocation.
\<close>

section \<open>Meaning and invariant\<close>

definition us_cps :: "UnicodeSet \<Rightarrow> int set" where
  "us_cps s = inv_set (us_list s)"

definition us_strs :: "UnicodeSet \<Rightarrow> UChar list set" where
  "us_strs s = string_set (us_strings s)"

definition multi_string :: "UChar list \<Rightarrow> bool" where
  "multi_string str \<longleftrightarrow> str \<noteq> [] \<and> UnicodeSet_getSingleCP str < 0"

definition us_ok :: "UnicodeSet \<Rightarrow> bool" where
  "us_ok s \<longleftrightarrow> wf_inv (us_list s) \<and> us_len s \<le> us_capacity s \<and> strings_ok (us_strings s) \<and>
     (\<forall>str \<in> us_strs s. multi_string str) \<and>
     (\<forall>b. us_bmpSet s = Some b \<longrightarrow> (\<forall>c. BMPSet_contains b c \<longleftrightarrow> c \<in> us_cps s)) \<and>
     (\<forall>ss. us_stringSpan s = Some ss \<longrightarrow> (\<forall>c. StringSpan_contains ss c \<longleftrightarrow> c \<in> us_cps s))"

definition us_mutable :: "UnicodeSet \<Rightarrow> bool" where
  "us_mutable s \<longleftrightarrow> us_ok s \<and> \<not> UnicodeSet_isFrozen s \<and> \<not> UnicodeSet_isBogus s"

text \<open>
  The outcome of a mutator: the new code points and strings, or, if some allocation was refused,
  the bogus state.
\<close>

definition outcome :: "allocator \<Rightarrow> UnicodeSet \<Rightarrow> int set \<Rightarrow> UChar list set \<Rightarrow> bool" where
  "outcome alloc r A B \<longleftrightarrow> us_ok r \<and> \<not> UnicodeSet_isFrozen r \<and>
     (if UnicodeSet_isBogus r then \<exists>n. \<not> alloc n else us_cps r = A \<and> us_strs r = B)"

lemmas us_defs = us_ok_def us_cps_def us_strs_def UnicodeSet_isFrozen_def UnicodeSet_isBogus_def

lemma wf_inv_empty [simp]: "wf_inv [UNICODESET_HIGH]"
  by (simp add: wf_inv_def)

lemma wf_inv_nonempty: "wf_inv xs \<Longrightarrow> xs \<noteq> []"
  by (simp add: wf_inv_def)

lemma us_ok_clear:
  "us_ok s \<Longrightarrow> \<not> UnicodeSet_isFrozen s \<Longrightarrow>
    us_ok (UnicodeSet_clear s) \<and> us_cps (UnicodeSet_clear s) = {} \<and> us_strs (UnicodeSet_clear s) = {}
    \<and> \<not> UnicodeSet_isFrozen (UnicodeSet_clear s) \<and> \<not> UnicodeSet_isBogus (UnicodeSet_clear s)"
proof -
  assume s: "us_ok s" "\<not> UnicodeSet_isFrozen s"
  then have "us_list s \<noteq> []" by (simp add: us_ok_def wf_inv_nonempty)
  then have "1 \<le> us_len s" by (cases "us_list s") simp_all
  then have "1 \<le> us_capacity s" using s(1) unfolding us_ok_def by linarith
  with \<open>us_list s \<noteq> []\<close> s strings_clear [of "us_strings s"] show ?thesis
    by (auto simp: us_defs UnicodeSet_clear_def)
qed

lemma us_ok_setToBogus:
  "us_ok s \<Longrightarrow> \<not> UnicodeSet_isFrozen s \<Longrightarrow>
    us_ok (UnicodeSet_setToBogus s) \<and> UnicodeSet_isBogus (UnicodeSet_setToBogus s)
    \<and> \<not> UnicodeSet_isFrozen (UnicodeSet_setToBogus s)"
  using us_ok_clear [of s] by (auto simp: UnicodeSet_setToBogus_def us_defs)

lemma bogus_outcome:
  "us_mutable s \<Longrightarrow> \<not> alloc n \<Longrightarrow> outcome alloc (UnicodeSet_setToBogus s) A B"
  using us_ok_setToBogus [of s] by (auto simp: outcome_def us_mutable_def)

lemma releasePattern_simps [simp]:
  "us_ok (UnicodeSet_releasePattern s) = us_ok s"
  "us_cps (UnicodeSet_releasePattern s) = us_cps s"
  "us_strs (UnicodeSet_releasePattern s) = us_strs s"
  "UnicodeSet_isFrozen (UnicodeSet_releasePattern s) = UnicodeSet_isFrozen s"
  "UnicodeSet_isBogus (UnicodeSet_releasePattern s) = UnicodeSet_isBogus s"
  "us_mutable (UnicodeSet_releasePattern s) = us_mutable s"
  "us_list (UnicodeSet_releasePattern s) = us_list s"
  "us_strings (UnicodeSet_releasePattern s) = us_strings s"
  "outcome alloc (UnicodeSet_releasePattern s) A B = outcome alloc s A B"
  by (auto simp: UnicodeSet_releasePattern_def us_defs us_mutable_def outcome_def)

text \<open>Replacing the list of a mutable set by a well-formed one that fits.\<close>

lemma us_mutable_list:
  "us_mutable s \<Longrightarrow> wf_inv xs \<Longrightarrow> int (length xs) \<le> cap \<Longrightarrow>
    us_mutable (s\<lparr>us_list := xs, us_buffer := b, us_capacity := cap, us_bufferCapacity := bc\<rparr>)"
  by (auto simp: us_mutable_def us_defs)

lemma ensureBufferCapacity_spec:
  assumes "us_mutable s" and "UnicodeSet_ensureBufferCapacity alloc s n = (s', status)"
  shows "(U_FAILURE status \<and> s' = UnicodeSet_setToBogus s \<and> (\<exists>n. \<not> alloc n)) \<or>
    (\<not> U_FAILURE status \<and> (\<exists>bc \<ge> n. s' = s\<lparr>us_buffer := True, us_bufferCapacity := bc\<rparr>))"
proof (cases "us_buffer s \<and> n \<le> us_bufferCapacity s")
  case True
  then have "s' = s\<lparr>us_buffer := True, us_bufferCapacity := us_bufferCapacity s\<rparr>"
    using assms(2) by (cases s) (auto simp: UnicodeSet_ensureBufferCapacity_def)
  with True assms(2) show ?thesis by (auto simp: UnicodeSet_ensureBufferCapacity_def)
next
  case False
  show ?thesis
  proof (cases "alloc (sizeof_UChar32 * (n + GROW_EXTRA))")
    case True
    with False assms(2) have "s' = s\<lparr>us_buffer := True, us_bufferCapacity := n + GROW_EXTRA\<rparr>"
      "status = U_ZERO_ERROR"
      by (auto simp: UnicodeSet_ensureBufferCapacity_def)
    with False show ?thesis by (intro disjI2 conjI exI [of _ "n + GROW_EXTRA"]) auto
  qed (use False assms(2) in \<open>auto simp: UnicodeSet_ensureBufferCapacity_def\<close>)
qed

lemma ensureCapacity_spec:
  assumes "UnicodeSet_ensureCapacity alloc s n = (s', status)"
  shows "(U_FAILURE status \<and> s' = UnicodeSet_setToBogus s \<and> (\<exists>n. \<not> alloc n)) \<or>
    (\<not> U_FAILURE status \<and> (\<exists>c \<ge> n. c \<ge> us_capacity s \<and> s' = s\<lparr>us_capacity := c\<rparr>))"
proof (cases "n \<le> us_capacity s")
  case True
  then have "s' = s\<lparr>us_capacity := us_capacity s\<rparr>"
    using assms by (cases s) (auto simp: UnicodeSet_ensureCapacity_def)
  with True assms show ?thesis by (auto simp: UnicodeSet_ensureCapacity_def)
next
  case False
  show ?thesis
  proof (cases "alloc (sizeof_UChar32 * (n + GROW_EXTRA))")
    case True
    with False assms have "s' = s\<lparr>us_capacity := n + GROW_EXTRA\<rparr>"
      "status = U_ZERO_ERROR"
      by (auto simp: UnicodeSet_ensureCapacity_def)
    with False show ?thesis by (intro disjI2 conjI exI [of _ "n + GROW_EXTRA"]) auto
  qed (use False assms in \<open>auto simp: UnicodeSet_ensureCapacity_def\<close>)
qed

section \<open>The merges on the object\<close>

context inversion_merge
begin

lemma object:
  assumes s: "us_mutable s" and o: "inv_list (-1) other" and n: "int (below_high other) \<le> otherLen"
  shows "\<exists>r. merge_into_buffer alloc s otherLen (\<lambda>cap xs. merge cap xs other) = Some r \<and>
    outcome alloc r (setop (us_cps s) (inv_set other)) (us_strs s)"
proof -
  obtain s' status where e:
      "UnicodeSet_ensureBufferCapacity alloc s (us_len s + otherLen) = (s', status)"
    by fastforce
  have ok: "us_ok s" "wf_inv (us_list s)" using s by (auto simp: us_mutable_def us_ok_def)
  from ensureBufferCapacity_spec [OF s e] show ?thesis
  proof (elim disjE conjE exE)
    fix n assume "U_FAILURE status" "s' = UnicodeSet_setToBogus s" "\<not> alloc n"
    then show ?thesis using bogus_outcome [OF s] by (auto simp: merge_into_buffer_def e)
  next
    fix bc assume st: "\<not> U_FAILURE status" and bc: "us_len s + otherLen \<le> bc"
      and s': "s' = s\<lparr>us_buffer := True, us_bufferCapacity := bc\<rparr>"
    have "below_high (us_list s) + below_high other < nat bc"
      using below_high_wf [OF ok(2)] bc n by linarith
    from merge_correct [OF ok(2) o this] obtain out where out:
      "merge (nat bc) (us_list s) other = Some out" "wf_inv out"
      "inv_set out = setop (inv_set (us_list s)) (inv_set other)" by blast
    have len: "int (length out) \<le> bc"
      using merge_length [OF out(1)] out(2) by (cases out) (auto simp: wf_inv_def)
    let ?r = "s'\<lparr>us_list := out, us_buffer := us_list s' \<noteq> [], us_capacity := bc,
        us_bufferCapacity := us_capacity s'\<rparr>"
    have "merge_into_buffer alloc s otherLen (\<lambda>cap xs. merge cap xs other) =
        Some (UnicodeSet_releasePattern ?r)"
      using st out(1) len by (simp add: merge_into_buffer_def e s' UnicodeSet_swapBuffers_def)
    moreover have "us_mutable ?r"
      unfolding s' using us_mutable_list [OF s out(2) len] by (auto simp: us_mutable_def us_defs)
    then have "outcome alloc ?r (setop (us_cps s) (inv_set other)) (us_strs s)"
      using out(3) by (auto simp: outcome_def us_mutable_def s' us_defs)
    ultimately show ?thesis by auto
  qed
qed

end

section \<open>Ranges\<close>

lemma pinCodePoint_bounds: "0 \<le> pinCodePoint c" "pinCodePoint c < UNICODESET_HIGH"
  by (auto simp: pinCodePoint_def)

lemma pinCodePoint_id: "0 \<le> c \<Longrightarrow> c < UNICODESET_HIGH \<Longrightarrow> pinCodePoint c = c"
  by (simp add: pinCodePoint_def)

lemma range_list:
  assumes "0 \<le> a" and "a \<le> b" and "b < UNICODESET_HIGH"
  shows "inv_list (-1) [a, b + 1, UNICODESET_HIGH]"
    and "int (below_high [a, b + 1, UNICODESET_HIGH]) \<le> 2"
    and "inv_set [a, b + 1, UNICODESET_HIGH] = {a..b}"
  using assms by auto

lemma us_mutable_flags: "us_mutable s \<Longrightarrow> us_ok s \<and> \<not> UnicodeSet_isFrozen s \<and> \<not> UnicodeSet_isBogus s"
  by (simp add: us_mutable_def)

lemma outcome_same: "us_mutable s \<Longrightarrow> outcome alloc s (us_cps s) (us_strs s)"
  by (simp add: outcome_def us_mutable_def)

lemma retain_range_outcome:
  assumes "us_mutable s"
  shows "\<exists>r. UnicodeSet_retain_range alloc s a b = Some r \<and>
    outcome alloc r (us_cps s \<inter> {pinCodePoint a..pinCodePoint b})
      (if pinCodePoint a \<le> pinCodePoint b then us_strs s else {})"
proof (cases "pinCodePoint a \<le> pinCodePoint b")
  case True
  note r = range_list [OF pinCodePoint_bounds(1) True pinCodePoint_bounds(2)]
  show ?thesis
    using merge_inter.object [OF assms r(1,2), of alloc] us_mutable_flags [OF assms] True
    by (simp add: UnicodeSet_retain_range_def UnicodeSet_retain_list_def Let_def r(3) atLeastLessThanPlusOne_atLeastAtMost_int)
next
  case False
  then show ?thesis
    using us_ok_clear [of s] us_mutable_flags [OF assms]
    by (auto simp: UnicodeSet_retain_range_def Let_def outcome_def)
qed

lemma remove_range_outcome:
  assumes "us_mutable s"
  shows "\<exists>r. UnicodeSet_remove_range alloc s a b = Some r \<and>
    outcome alloc r (us_cps s - {pinCodePoint a..pinCodePoint b}) (us_strs s)"
proof (cases "pinCodePoint a \<le> pinCodePoint b")
  case True
  note r = range_list [OF pinCodePoint_bounds(1) True pinCodePoint_bounds(2)]
  show ?thesis
    using merge_diff.object [OF assms r(1,2), of alloc] us_mutable_flags [OF assms] True
    by (simp add: UnicodeSet_remove_range_def UnicodeSet_retain_list_def Let_def r(3) atLeastLessThanPlusOne_atLeastAtMost_int)
next
  case False
  then show ?thesis
    using outcome_same [OF assms] by (auto simp: UnicodeSet_remove_range_def Let_def)
qed

lemma complement_range_outcome:
  assumes "us_mutable s"
  shows "\<exists>r. UnicodeSet_complement_range alloc s a b = Some r \<and>
    outcome alloc r ((us_cps s - {pinCodePoint a..pinCodePoint b}) \<union>
      ({pinCodePoint a..pinCodePoint b} - us_cps s)) (us_strs s)"
proof (cases "pinCodePoint a \<le> pinCodePoint b")
  case True
  note r = range_list [OF pinCodePoint_bounds(1) True pinCodePoint_bounds(2)]
  show ?thesis
    using merge_xor.object [OF assms r(1,2), of alloc] us_mutable_flags [OF assms] True
    by (auto simp: UnicodeSet_complement_range_def UnicodeSet_exclusiveOr_def Let_def r(3) atLeastLessThanPlusOne_atLeastAtMost_int)
next
  case False
  then show ?thesis
    using outcome_same [OF assms] us_mutable_flags [OF assms]
    by (auto simp: UnicodeSet_complement_range_def Let_def)
qed

section \<open>Adding one code point in place\<close>

lemma write_list_outcome:
  assumes "us_mutable s" and "wf_inv xs" and "int (length xs) \<le> us_capacity s" and "inv_set xs = A"
  shows "\<exists>r. write_list s xs = Some r \<and> outcome alloc r A (us_strs s)"
  using assms by (auto simp: write_list_def us_mutable_def us_defs outcome_def)

lemma inv_set_insertI:
  assumes "wf_inv xs" and "wf_inv ys" and "0 \<le> c" and "c < UNICODESET_HIGH" and "c \<notin> inv_set xs"
    and "\<And>d. d < UNICODESET_HIGH \<Longrightarrow> par ys d = (par xs d \<noteq> (d = c))"
  shows "inv_set ys = insert c (inv_set xs)"
  using assms inv_set_par [OF wf_inv_inv_list [OF assms(1)]]
    inv_set_range [OF wf_inv_inv_list [OF assms(1)]]
  by (intro inv_set_eqI [OF wf_inv_inv_list [OF assms(2)]]) auto

lemma wf_inv_alt:
  "wf_inv xs \<longleftrightarrow> xs \<noteq> [] \<and> sorted_wrt (<) xs \<and> last xs = UNICODESET_HIGH \<and> (\<forall>x \<in> set xs. 0 \<le> x)"
  by (cases xs) (fastforce simp: wf_inv_def)+

text \<open>
  The split of the list at the position found: everything before is at most \<open>c\<close>, \<open>x\<close> and everything
  after is greater.
\<close>

lemma wf_inv_le_HIGH: "wf_inv (P @ x # Q) \<Longrightarrow> x \<le> UNICODESET_HIGH"
  by (cases Q rule: rev_cases) (auto simp: wf_inv_alt sorted_wrt_append)

lemma sorted_last_eq:
  "sorted_wrt (<) P \<Longrightarrow> \<forall>p \<in> set P. p \<le> d \<Longrightarrow> d \<in> set P \<Longrightarrow> \<exists>P'. P = P' @ [d]" for d :: int
  by (cases P rule: rev_cases) (auto simp: sorted_wrt_append)

lemma insert_before_range:
  assumes wf: "wf_inv (P @ x # Q)" and P: "\<forall>p \<in> set P. p \<le> c" and x: "x = c + 1" and c: "0 \<le> c"
    and nin: "c \<notin> inv_set (P @ x # Q)"
    and Q': "Q' = (if x = UNICODESET_HIGH then [UNICODESET_HIGH] else Q)"
  shows "c \<notin> set P \<Longrightarrow> wf_inv (P @ c # Q') \<and> inv_set (P @ c # Q') = insert c (inv_set (P @ x # Q))"
    and "P = P' @ [c] \<Longrightarrow> wf_inv (P' @ Q') \<and> inv_set (P' @ Q') = insert c (inv_set (P @ x # Q))"
proof -
  have nil: "Q = []" if "x = UNICODESET_HIGH"
  proof (rule ccontr)
    assume "Q \<noteq> []"
    then have "x < last Q" "last Q = UNICODESET_HIGH"
      using wf last_in_set [of Q] by (auto simp: wf_inv_alt sorted_wrt_append)
    with that show False by simp
  qed
  have q: "Q' \<noteq> []" "last Q' = UNICODESET_HIGH" "sorted_wrt (<) Q'" "\<forall>q \<in> set Q'. c < q"
    using wf x nil unfolding Q'
    by (auto simp: wf_inv_alt sorted_wrt_append split: if_splits)
  have h: "c < UNICODESET_HIGH" using wf_inv_le_HIGH [OF wf] x by simp
  have pq: "\<forall>p \<in> set P. \<forall>q \<in> set Q'. p < q" using P q(4) by fastforce
  have nonneg: "0 \<le> q" if "q \<in> set Q'" for q using q(4) c that by fastforce
  have par: "par Q' d = par Q d" if "d < UNICODESET_HIGH" for d
    using that nil unfolding Q' by auto
  show "wf_inv (P @ c # Q') \<and> inv_set (P @ c # Q') = insert c (inv_set (P @ x # Q))" if "c \<notin> set P"
  proof
    have "\<forall>p \<in> set P. p < c" using P that by (metis order_le_less)
    then show w: "wf_inv (P @ c # Q')" using wf q pq c
      by (auto simp: wf_inv_alt sorted_wrt_append nonneg)
    show "inv_set (P @ c # Q') = insert c (inv_set (P @ x # Q))"
      by (rule inv_set_insertI [OF wf w c h nin]) (use x par in auto)
  qed
  show "wf_inv (P' @ Q') \<and> inv_set (P' @ Q') = insert c (inv_set (P @ x # Q))" if "P = P' @ [c]"
  proof
    show w: "wf_inv (P' @ Q')" using wf q pq that
      by (auto simp: wf_inv_alt sorted_wrt_append nonneg)
    show "inv_set (P' @ Q') = insert c (inv_set (P @ x # Q))"
      by (rule inv_set_insertI [OF wf w c h nin]) (use x par that in auto)
  qed
qed

lemma insert_after_range:
  assumes wf: "wf_inv (P' @ c # x # Q)" and x: "c + 1 < x" and c: "0 \<le> c"
    and nin: "c \<notin> inv_set (P' @ c # x # Q)"
  shows "wf_inv (P' @ (c + 1) # x # Q) \<and>
    inv_set (P' @ (c + 1) # x # Q) = insert c (inv_set (P' @ c # x # Q))"
proof
  have h: "c < UNICODESET_HIGH"
    using wf_inv_le_HIGH [of "P' @ [c]" x Q] wf x by simp
  show w: "wf_inv (P' @ (c + 1) # x # Q)" using wf x c
    by (fastforce simp: wf_inv_alt sorted_wrt_append)
  show "inv_set (P' @ (c + 1) # x # Q) = insert c (inv_set (P' @ c # x # Q))"
    by (rule inv_set_insertI [OF wf w c h nin]) (use x in auto)
qed

lemma insert_isolated:
  assumes wf: "wf_inv (P @ x # Q)" and P: "\<forall>p \<in> set P. p < c" and x: "c + 1 < x" and c: "0 \<le> c"
    and nin: "c \<notin> inv_set (P @ x # Q)"
  shows "wf_inv (P @ c # (c + 1) # x # Q) \<and>
    inv_set (P @ c # (c + 1) # x # Q) = insert c (inv_set (P @ x # Q))"
proof
  have h: "c < UNICODESET_HIGH" using wf_inv_le_HIGH [OF wf] x by simp
  have p: "\<forall>p \<in> set P. p < c + 1 \<and> p < x" using P x by fastforce
  have qs: "\<forall>q \<in> set Q. c < q \<and> c + 1 < q" using wf x by (fastforce simp: wf_inv_alt sorted_wrt_append)
  show w: "wf_inv (P @ c # (c + 1) # x # Q)" using wf x c P p qs
    by (auto simp: wf_inv_alt sorted_wrt_append)
  show "inv_set (P @ c # (c + 1) # x # Q) = insert c (inv_set (P @ x # Q))"
    by (rule inv_set_insertI [OF wf w c h nin]) (use x in auto)
qed


lemma setToBogus_list:
  "ys \<noteq> [] \<Longrightarrow> us_list s \<noteq> [] \<Longrightarrow> \<not> UnicodeSet_isFrozen s \<Longrightarrow>
    UnicodeSet_setToBogus (s\<lparr>us_list := ys\<rparr>) = UnicodeSet_setToBogus s"
  by (simp add: UnicodeSet_setToBogus_def UnicodeSet_clear_def UnicodeSet_isFrozen_def)

text \<open>The situation after the search in \<open>add(c)\<close>, for a code point \<open>d\<close> not in the set.\<close>

definition cp_split :: "UnicodeSet \<Rightarrow> int \<Rightarrow> int list \<Rightarrow> int \<Rightarrow> int list \<Rightarrow> bool" where
  "cp_split s d P x Q \<longleftrightarrow> us_mutable s \<and> us_list s = P @ x # Q \<and>
     findCodePoint_list (us_list s) d = length P \<and> even (length P) \<and> (\<forall>p \<in> set P. p \<le> d) \<and> d < x \<and>
     0 \<le> d \<and> d \<notin> us_cps s"

lemma cp_splitD:
  assumes "cp_split s d P x Q"
  shows "us_mutable s" "us_list s = P @ x # Q" "findCodePoint_list (P @ x # Q) d = length P"
    "even (length P)" "\<forall>p \<in> set P. p \<le> d" "d < x" "0 \<le> d" "d \<notin> inv_set (P @ x # Q)"
    "wf_inv (P @ x # Q)" "us_cps s = inv_set (P @ x # Q)" "\<not> UnicodeSet_isFrozen s"
    "\<not> UnicodeSet_isBogus s" "int (length (P @ x # Q)) \<le> us_capacity s"
  using assms by (auto simp: cp_split_def us_mutable_def us_ok_def us_cps_def)

lemma cp_split_exists:
  assumes s: "us_mutable s" and d: "0 \<le> d" "d < UNICODESET_HIGH" "d \<notin> us_cps s"
  shows "\<exists>P x Q. cp_split s d P x Q"
proof -
  let ?xs = "us_list s"
  let ?i = "findCodePoint_list ?xs d"
  have wf: "wf_inv ?xs" using s by (simp add: us_mutable_def us_ok_def)
  have find: "?i < length ?xs" "d < ?xs ! ?i" "\<forall>j < ?i. ?xs ! j \<le> d"
    using findCodePoint_list_correct [OF wf d(2)] by auto
  have "even ?i" using findCodePoint_odd_iff [OF wf d(2)] d(3) by (simp add: us_cps_def)
  moreover have "\<forall>p \<in> set (take ?i ?xs). p \<le> d" using find(1,3) by (auto simp: in_set_conv_nth)
  ultimately have "cp_split s d (take ?i ?xs) (?xs ! ?i) (drop (Suc ?i) ?xs)"
    unfolding cp_split_def using s d find(1,2) by (simp add: id_take_nth_drop [symmetric])
  then show ?thesis by blast
qed

lemma cp_split_prev:
  assumes "cp_split s d P x Q"
  obtains (touch) P' where "P = P' @ [d]" "0 < length P" "(P @ zs) ! (length P - 1) = d"
  | (apart) "d \<notin> set P" "\<not> (0 < length P \<and> d = (P @ zs) ! (length P - 1))"
proof (cases "d \<in> set P")
  case True
  then obtain P' where "P = P' @ [d]"
    using sorted_last_eq [OF _ cp_splitD(5) [OF assms]] cp_splitD(9) [OF assms]
    by (auto simp: wf_inv_alt sorted_wrt_append)
  then show ?thesis by (intro touch [of P']) (auto simp: nth_append)
next
  case False
  have "(P @ zs) ! (length P - 1) \<in> set P" if "0 < length P" using that by (simp add: nth_append)
  with False show ?thesis by (intro apart) auto
qed

lemma add_cp_after:
  assumes sp: "cp_split s d P x Q" and dx: "d + 1 < x" and P': "P = P' @ [d]"
  shows "\<exists>r. UnicodeSet_add_cp alloc s d = Some r \<and> outcome alloc r (insert d (us_cps s)) (us_strs s)"
proof -
  note sp = cp_splitD [OF sp]
  have h: "pinCodePoint d = d" using wf_inv_le_HIGH [OF sp(9)] sp(6,7) by (simp add: pinCodePoint_id)
  let ?ys = "P' @ (d + 1) # x # Q"
  have "UnicodeSet_add_cp alloc s d = Some (UnicodeSet_releasePattern (s\<lparr>us_list := ?ys\<rparr>))"
    using sp(2-4,11,12) dx by (simp add: UnicodeSet_add_cp_def Let_def h P' nth_append)
  moreover have "outcome alloc (s\<lparr>us_list := ?ys\<rparr>) (insert d (us_cps s)) (us_strs s)"
    using insert_after_range [of P' d x Q] sp dx by (auto simp: P' us_mutable_def us_defs outcome_def)
  ultimately show ?thesis by simp
qed

lemma add_cp_isolated:
  assumes sp: "cp_split s d P x Q" and dx: "d + 1 < x" and dP: "d \<notin> set P"
    and far: "\<not> (0 < length P \<and> d = (P @ x # Q) ! (length P - 1))"
  shows "\<exists>r. UnicodeSet_add_cp alloc s d = Some r \<and> outcome alloc r (insert d (us_cps s)) (us_strs s)"
proof -
  note sp = cp_splitD [OF sp]
  have h: "pinCodePoint d = d" using wf_inv_le_HIGH [OF sp(9)] sp(6,7) by (simp add: pinCodePoint_id)
  let ?ys = "P @ d # (d + 1) # x # Q"
  have "\<forall>p \<in> set P. p < d" using sp(5) dP by (metis order_le_less)
  then have ins: "wf_inv ?ys" "inv_set ?ys = insert d (us_cps s)"
    using insert_isolated [OF sp(9) _ dx sp(7,8)] by (auto simp: sp(10))
  obtain s' status where e: "UnicodeSet_ensureCapacity alloc s (us_len s + 2) = (s', status)"
    by fastforce
  have add: "UnicodeSet_add_cp alloc s d = (if U_FAILURE status then Some s' else
      do { s \<leftarrow> write_list s' ?ys; Some (UnicodeSet_releasePattern s) })"
    using sp(2-4,11,12) dx far e by (auto simp: UnicodeSet_add_cp_def Let_def h)
  from ensureCapacity_spec [OF e] show ?thesis
  proof (elim disjE conjE exE)
    fix n assume "U_FAILURE status" "s' = UnicodeSet_setToBogus s" "\<not> alloc n"
    then show ?thesis using bogus_outcome [OF sp(1)] by (auto simp: add)
  next
    fix k assume st: "\<not> U_FAILURE status" and k: "us_len s + 2 \<le> k" "us_capacity s \<le> k"
      and s': "s' = s\<lparr>us_capacity := k\<rparr>"
    have "us_mutable s'" using sp(1) k unfolding s' us_mutable_def us_defs by auto
    moreover have "int (length ?ys) \<le> us_capacity s'" using k(1) by (simp add: s' sp(2))
    ultimately obtain r where "write_list s' ?ys = Some r"
      "outcome alloc r (insert d (us_cps s)) (us_strs s')"
      using write_list_outcome ins by blast
    then show ?thesis using st by (auto simp: add s' us_strs_def)
  qed
qed

text \<open>
  Extending the range that starts right after \<open>d\<close>.  \<open>Q'\<close> is the tail with a new terminator if the
  old one was overwritten; touching ranges collapse.
\<close>

lemma add_cp_before_collapse:
  assumes sp: "cp_split s d P x Q" and x: "x = d + 1"
    and Q': "Q' = (if x = UNICODESET_HIGH then [UNICODESET_HIGH] else Q)"
    and k: "us_capacity s \<le> k" "int (length (P @ d # Q')) \<le> k"
    and s3: "s3 = s\<lparr>us_list := P @ d # Q', us_capacity := k\<rparr>"
  shows "\<exists>r. (if 0 < length P \<and> d = us_list s3 ! (length P - 1)
       then write_list s3 (take (length P - 1) (us_list s3) @ drop (length P + 1) (us_list s3))
       else Some s3) = Some r \<and> outcome alloc r (insert d (us_cps s)) (us_strs s)"
proof (rule cp_split_prev [OF sp, of "d # Q'"])
  note D = cp_splitD [OF sp]
  note before = insert_before_range [OF D(9,5) x D(7,8) Q']
  fix P' assume P': "P = P' @ [d]" and t: "0 < length P" "(P @ d # Q') ! (length P - 1) = d"
  have ins: "wf_inv (P' @ Q')" "inv_set (P' @ Q') = insert d (us_cps s)"
    using before(2) [OF P'] D(10) by auto
  have "take (length P - 1) (us_list s3) @ drop (length P + 1) (us_list s3) = P' @ Q'"
    by (simp add: s3 P')
  moreover have "outcome alloc (s3\<lparr>us_list := P' @ Q'\<rparr>) (insert d (us_cps s)) (us_strs s)"
    using ins D(1) k(2) by (auto simp: s3 P' us_mutable_def us_defs outcome_def)
  ultimately show ?thesis using t k(2) by (auto simp: s3 write_list_def P' nth_append)
next
  note D = cp_splitD [OF sp]
  note before = insert_before_range [OF D(9,5) x D(7,8) Q']
  assume a: "d \<notin> set P" "\<not> (0 < length P \<and> d = (P @ d # Q') ! (length P - 1))"
  have "outcome alloc s3 (insert d (us_cps s)) (us_strs s)"
    using before(1) [OF a(1)] D(1,10) k by (auto simp: s3 us_mutable_def us_defs outcome_def)
  moreover have "\<not> (0 < length P \<and> d = us_list s3 ! (length P - 1))" using a(2) by (simp add: s3)
  ultimately show ?thesis by (simp only: if_False) blast
qed

lemma add_cp_before:
  assumes sp: "cp_split s d P x Q" and x: "x = d + 1"
  shows "\<exists>r. UnicodeSet_add_cp alloc s d = Some r \<and> outcome alloc r (insert d (us_cps s)) (us_strs s)"
proof -
  note D = cp_splitD [OF sp]
  have h: "pinCodePoint d = d" using wf_inv_le_HIGH [OF D(9)] D(6,7) by (simp add: pinCodePoint_id)
  let ?finish = "\<lambda>s3. (if 0 < length P \<and> d = us_list s3 ! (length P - 1)
       then write_list s3 (take (length P - 1) (us_list s3) @ drop (length P + 1) (us_list s3))
       else Some s3)"
  define s1 where "s1 = s\<lparr>us_list := P @ d # Q\<rparr>"
  show ?thesis
  proof (cases "d = UNICODESET_HIGH - 1")
    case False
    then have "UnicodeSet_add_cp alloc s d =
        do { s \<leftarrow> ?finish s1; Some (UnicodeSet_releasePattern s) }"
      using D(2-4,11,12) x by (simp add: UnicodeSet_add_cp_def Let_def h s1_def)
    moreover have "s1 = s\<lparr>us_list := P @ d # Q, us_capacity := us_capacity s\<rparr>"
      by (cases s) (simp add: s1_def)
    then have "\<exists>r. ?finish s1 = Some r \<and> outcome alloc r (insert d (us_cps s)) (us_strs s)"
      using False D(13) x by (intro add_cp_before_collapse [OF sp x]) auto
    ultimately show ?thesis by auto
  next
    case True
    have Q: "Q = []"
      using True D(9) x last_in_set [of Q] by (cases "Q = []") (auto simp: wf_inv_alt sorted_wrt_append)
    obtain s2 status where e: "UnicodeSet_ensureCapacity alloc s1 (us_len s1 + 1) = (s2, status)"
      by fastforce
    have add: "UnicodeSet_add_cp alloc s d = (if U_FAILURE status then Some s2 else
        do { s \<leftarrow> write_list s2 (us_list s2 @ [UNICODESET_HIGH]);
             s \<leftarrow> ?finish s; Some (UnicodeSet_releasePattern s) })"
      using D(2-4,11,12) x True e Q h [unfolded True]
      by (simp add: UnicodeSet_add_cp_def Let_def s1_def cong: if_cong)
    from ensureCapacity_spec [OF e] show ?thesis
    proof (elim disjE conjE exE)
      fix n assume "U_FAILURE status" "s2 = UnicodeSet_setToBogus s1" "\<not> alloc n"
      moreover have "UnicodeSet_setToBogus s1 = UnicodeSet_setToBogus s"
        unfolding s1_def by (rule setToBogus_list) (use D in auto)
      ultimately show ?thesis using bogus_outcome [OF D(1)] by (auto simp: add)
    next
      fix k assume st: "\<not> U_FAILURE status" and k: "us_len s1 + 1 \<le> k" "us_capacity s1 \<le> k"
        and s2: "s2 = s1\<lparr>us_capacity := k\<rparr>"
      let ?s3 = "s\<lparr>us_list := P @ d # [UNICODESET_HIGH], us_capacity := k\<rparr>"
      have "write_list s2 (us_list s2 @ [UNICODESET_HIGH]) = Some ?s3"
        using k(1) by (simp add: write_list_def s2 s1_def Q)
      moreover have "\<exists>r. ?finish ?s3 = Some r \<and> outcome alloc r (insert d (us_cps s)) (us_strs s)"
        using True k x by (intro add_cp_before_collapse [OF sp x]) (auto simp: s1_def Q)
      ultimately show ?thesis using st by (auto simp: add)
    qed
  qed
qed

lemma add_cp_outcome:
  assumes s: "us_mutable s"
  shows "\<exists>r. UnicodeSet_add_cp alloc s c = Some r \<and>
    outcome alloc r (insert (pinCodePoint c) (us_cps s)) (us_strs s)"
proof -
  let ?d = "pinCodePoint c"
  have wf: "wf_inv (us_list s)" using s by (simp add: us_mutable_def us_ok_def)
  have pin: "UnicodeSet_add_cp alloc s c = UnicodeSet_add_cp alloc s ?d"
    by (simp add: UnicodeSet_add_cp_def pinCodePoint_id pinCodePoint_bounds)
  show ?thesis
  proof (cases "?d \<in> us_cps s")
    case True
    then have "odd (findCodePoint_list (us_list s) ?d)"
      using findCodePoint_odd_iff [OF wf pinCodePoint_bounds(2)] by (simp add: us_cps_def)
    then have "UnicodeSet_add_cp alloc s c = Some s"
      unfolding UnicodeSet_add_cp_def Let_def by (simp only: simp_thms if_True)
    then show ?thesis using outcome_same [OF s] True by (auto simp: insert_absorb)
  next
    case False
    obtain P x Q where sp: "cp_split s ?d P x Q"
      using cp_split_exists [OF s pinCodePoint_bounds False] by blast
    show ?thesis
    proof (cases "x = ?d + 1")
      case True
      then show ?thesis unfolding pin using add_cp_before [OF sp] by blast
    next
      case False
      then have dx: "?d + 1 < x" using cp_splitD(6) [OF sp] by linarith
      show ?thesis
        unfolding pin
        by (rule cp_split_prev [OF sp, of "x # Q"]) 
          (rule add_cp_after [OF sp dx] add_cp_isolated [OF sp dx], assumption+)+
    qed
  qed
qed

lemma add_range_outcome:
  assumes "us_mutable s"
  shows "\<exists>r. UnicodeSet_add_range alloc s a b = Some r \<and>
    outcome alloc r (us_cps s \<union> {pinCodePoint a..pinCodePoint b}) (us_strs s)"
proof -
  consider "pinCodePoint a < pinCodePoint b" | "pinCodePoint a = pinCodePoint b"
    | "pinCodePoint b < pinCodePoint a" by linarith
  then show ?thesis
  proof cases
    case 1
    then have "pinCodePoint a \<le> pinCodePoint b" by simp
    note r = range_list [OF pinCodePoint_bounds(1) this pinCodePoint_bounds(2)]
    show ?thesis
      using merge_union.object [OF assms r(1,2), of alloc] us_mutable_flags [OF assms] 1
      by (simp add: UnicodeSet_add_range_def UnicodeSet_add_list_def Let_def r(3)
          atLeastLessThanPlusOne_atLeastAtMost_int)
  next
    case 2
    then have "us_cps s \<union> {pinCodePoint a..pinCodePoint b} =
        insert (pinCodePoint (pinCodePoint a)) (us_cps s)"
      by (simp add: pinCodePoint_id pinCodePoint_bounds)
    then show ?thesis
      using add_cp_outcome [OF assms, of alloc "pinCodePoint a"] 2
      by (simp add: UnicodeSet_add_range_def Let_def)
  next
    case 3
    then show ?thesis using outcome_same [OF assms] by (auto simp: UnicodeSet_add_range_def Let_def)
  qed
qed

section \<open>Complement\<close>

lemma wf_inv_complement:
  assumes "wf_inv xs"
  defines "ys \<equiv> (if hd xs = UNICODESET_LOW then tl xs else UNICODESET_LOW # xs)"
  shows "wf_inv ys \<and> inv_set ys = {0..<UNICODESET_HIGH} - inv_set xs"
proof
  have wf: "xs \<noteq> []" "sorted_wrt (<) xs" "last xs = UNICODESET_HIGH" "\<forall>x \<in> set xs. 0 \<le> x"
    using assms(1) by (auto simp: wf_inv_alt)
  obtain x xs' where xs: "xs = x # xs'" using wf(1) by (cases xs) auto
  show w: "wf_inv ys"
  proof (cases "x = UNICODESET_LOW")
    case True
    then have "xs' \<noteq> []" using wf(3) xs by auto
    with True wf xs show ?thesis by (auto simp: wf_inv_alt ys_def)
  next
    case False
    then have "0 < x" using wf(4) xs by fastforce
    then have "\<forall>y \<in> set xs. 0 < y" using wf(2) xs by fastforce
    with False wf xs show ?thesis by (auto simp: wf_inv_alt ys_def)
  qed
  have "c \<in> inv_set xs \<Longrightarrow> 0 \<le> c" for c
    using inv_set_bounds [OF wf_inv_inv_list [OF assms(1)]] by fastforce
  moreover have "\<not> par xs c" if "c < 0" for c
    by (rule par_none) (use wf(4) that in fastforce)
  moreover have "par ys c = (0 \<le> c \<and> \<not> par xs c)" for c
    using calculation(2) [of c] by (cases "x = 0") (auto simp: ys_def xs)
  ultimately show "inv_set ys = {0..<UNICODESET_HIGH} - inv_set xs"
    using inv_set_par [OF wf_inv_inv_list [OF assms(1)]]
    by (intro inv_set_eqI [OF wf_inv_inv_list [OF w]]) auto
qed

lemma complement_outcome:
  assumes s: "us_mutable s"
  shows "\<exists>r. UnicodeSet_complement alloc s = Some r \<and>
    outcome alloc r ({0..<UNICODESET_HIGH} - us_cps s) (us_strs s)"
proof -
  let ?xs = "us_list s"
  let ?ys = "if hd ?xs = UNICODESET_LOW then tl ?xs else UNICODESET_LOW # ?xs"
  obtain s' status where e: "UnicodeSet_ensureBufferCapacity alloc s (int (length ?ys)) = (s', status)"
    by fastforce
  have c: "UnicodeSet_complement alloc s = (if U_FAILURE status then Some s' else
      do { s \<leftarrow> UnicodeSet_swapBuffers s' ?ys; Some (UnicodeSet_releasePattern s) })"
    using us_mutable_flags [OF s] e unfolding UnicodeSet_complement_def Let_def by simp
  have wf: "wf_inv ?ys" "inv_set ?ys = {0..<UNICODESET_HIGH} - us_cps s"
    using wf_inv_complement [of ?xs] s by (auto simp: us_mutable_def us_defs)
  from ensureBufferCapacity_spec [OF s e] show ?thesis
  proof (elim disjE conjE exE)
    fix n assume "U_FAILURE status" "s' = UnicodeSet_setToBogus s" "\<not> alloc n"
    then show ?thesis using bogus_outcome [OF s] unfolding c by auto
  next
    fix bc assume st: "\<not> U_FAILURE status" and bc: "int (length ?ys) \<le> bc"
      and s': "s' = s\<lparr>us_buffer := True, us_bufferCapacity := bc\<rparr>"
    let ?r = "s'\<lparr>us_list := ?ys, us_buffer := us_list s' \<noteq> [], us_capacity := bc,
        us_bufferCapacity := us_capacity s'\<rparr>"
    have "UnicodeSet_complement alloc s = Some (UnicodeSet_releasePattern ?r)"
      unfolding c UnicodeSet_swapBuffers_def using st bc by (simp add: s')
    moreover have "us_mutable ?r"
      unfolding s' using us_mutable_list [OF s wf(1) bc] by (auto simp: us_mutable_def us_defs)
    then have "outcome alloc ?r ({0..<UNICODESET_HIGH} - us_cps s) (us_strs s)"
      using wf(2) by (auto simp: outcome_def us_mutable_def s' us_defs)
    ultimately show ?thesis by auto
  qed
qed

section \<open>Operations with another set\<close>

text \<open>
  The strings make one more way to become bogus: a vector of more than \<open>2^27\<close> strings cannot
  grow.  \<open>U\<close> is a finite set that has all strings that are ever in the vector.
\<close>

definition refused :: "allocator \<Rightarrow> UChar list set \<Rightarrow> bool" where
  "refused alloc U \<longleftrightarrow> (\<exists>n. \<not> alloc n) \<or> 0x7ffffff < card U"

definition settles :: "allocator \<Rightarrow> UChar list set \<Rightarrow> UnicodeSet \<Rightarrow> int set \<Rightarrow> UChar list set \<Rightarrow> bool" where
  "settles alloc U r A B \<longleftrightarrow> us_ok r \<and> \<not> UnicodeSet_isFrozen r \<and>
     (if UnicodeSet_isBogus r then refused alloc U else us_cps r = A \<and> us_strs r = B)"

lemma outcome_settles: "outcome alloc r A B \<Longrightarrow> settles alloc U r A B"
  by (auto simp: outcome_def settles_def refused_def)

lemma strings_insert_refused:
  assumes "strings_ok v" and "string_set v \<subseteq> U" and "finite U"
    and "UVector_sortedInsert alloc v e compare U_ZERO_ERROR = (v', ec)" and "U_FAILURE ec"
  shows "refused alloc U"
proof (rule strings_okE [OF assms(1)])
  fix strs assume v: "vec_ok v" "vec_contents v = map Pointer strs" "distinct strs" "string_set v = set strs"
  have "length strs = nat (count v)" using length_vec_contents [OF v(1)] v(2) by simp
  then have "int (card (string_set v)) = count v"
    using v by (simp add: distinct_card vec_ok_def)
  moreover have "card (string_set v) \<le> card U" using assms(2,3) by (simp add: card_mono)
  moreover have "(\<exists>n. \<not> alloc n) \<or> 0x7ffffff < count v"
    using assms(4,5) v(1)
    by (auto simp: UVector_sortedInsert_def UVector_ensureCapacity_def Let_def vec_ok_def
        split: if_splits)
  ultimately show ?thesis unfolding refused_def by auto
qed

lemma us_ok_strings:
  "us_ok s \<Longrightarrow> strings_ok v \<Longrightarrow> (\<forall>str \<in> string_set v. multi_string str) \<Longrightarrow> us_ok (s\<lparr>us_strings := v\<rparr>)"
  by (auto simp: us_defs)

lemma strings_update_simps [simp]:
  "UnicodeSet_isFrozen (s\<lparr>us_strings := v\<rparr>) = UnicodeSet_isFrozen s"
  "UnicodeSet_isBogus (s\<lparr>us_strings := v\<rparr>) = UnicodeSet_isBogus s"
  "us_cps (s\<lparr>us_strings := v\<rparr>) = us_cps s" "us_strs (s\<lparr>us_strings := v\<rparr>) = string_set v"
  by (simp_all add: us_defs)

lemma add_new_string_settles:
  assumes s: "us_ok s" "\<not> UnicodeSet_isFrozen s" and new: "str \<notin> us_strs s" "multi_string str"
    and U: "\<not> UnicodeSet_isBogus s \<Longrightarrow> us_strs s \<subseteq> U" "finite U"
    and bogus: "UnicodeSet_isBogus s \<Longrightarrow> refused alloc U"
  shows "settles alloc U (UnicodeSet_add_new_string alloc s str) (us_cps s) (insert str (us_strs s))"
proof (cases "UnicodeSet_isBogus s \<or> \<not> alloc sizeof_UnicodeString")
  case True
  then show ?thesis using s bogus us_ok_setToBogus [OF s]
    by (auto simp: UnicodeSet_add_new_string_def settles_def refused_def)
next
  case False
  obtain v ec where i: "UVector_sortedInsert alloc (us_strings s) (Pointer str) compareUnicodeString
      U_ZERO_ERROR = (v, ec)" by fastforce
  have ok: "strings_ok (us_strings s)" "\<forall>t \<in> string_set (us_strings s). multi_string t"
    using s(1) by (auto simp: us_defs)
  have cases: "(U_FAILURE ec \<and> v = us_strings s) \<or>
      (ec = U_ZERO_ERROR \<and> strings_ok v \<and> string_set v = insert str (us_strs s))"
    using strings_insert [OF ok(1) _ i] new(1) by (simp add: us_strs_def)
  then have "us_ok (s\<lparr>us_strings := v\<rparr>)" "\<not> UnicodeSet_isFrozen (s\<lparr>us_strings := v\<rparr>)"
    using s new ok by (auto intro!: us_ok_strings simp: us_strs_def)
  note b = us_ok_setToBogus [OF this]
  have "U_FAILURE ec \<Longrightarrow> refused alloc U"
    using strings_insert_refused [OF ok(1) _ U(2) i] U(1) False by (simp add: us_strs_def)
  with cases b us_ok_setToBogus [OF s] s False i
    \<open>us_ok (s\<lparr>us_strings := v\<rparr>)\<close> show ?thesis
    by (auto simp: UnicodeSet_add_new_string_def settles_def Let_def)
qed

text \<open>
  One step of the loops over the strings of the other set: \<open>s\<close> has settled so far, the next string is
  added if it is missing.
\<close>

lemma add_missing_settles:
  assumes "settles alloc U s A B" and "str \<notin> us_strs s" and "multi_string str"
    and "B \<subseteq> U" "finite U"
  shows "settles alloc U (UnicodeSet_add_new_string alloc s str) A (insert str B)"
proof (cases "UnicodeSet_isBogus s")
  case True
  then show ?thesis using assms by (simp add: UnicodeSet_add_new_string_def settles_def)
next
  case False
  then show ?thesis
    using add_new_string_settles [of s str U alloc] assms by (auto simp: settles_def)
qed

lemma addAll_strings_loop_settles:
  assumes "settles alloc U s A B" and "\<forall>str \<in> set strs. multi_string str"
    and "B \<union> set strs \<subseteq> U" and "finite U"
  shows "settles alloc U (addAll_strings_loop alloc strs s) A (B \<union> set strs)"
  using assms
proof (induction strs arbitrary: s B)
  case (Cons str strs)
  let ?s = "if \<not> UVector_contains (us_strings s) str then UnicodeSet_add_new_string alloc s str else s"
  have c: "UVector_contains (us_strings s) str \<longleftrightarrow> str \<in> us_strs s"
    using Cons.prems(1) by (simp add: settles_def us_defs strings_contains)
  have "settles alloc U ?s A (insert str B)"
  proof (cases "str \<in> us_strs s")
    case True
    then show ?thesis using c Cons.prems(1) by (auto simp: settles_def insert_absorb)
  next
    case False
    then show ?thesis using c add_missing_settles [OF Cons.prems(1) False] Cons.prems by auto
  qed
  then have "settles alloc U (addAll_strings_loop alloc strs ?s) A (insert str B \<union> set strs)"
    using Cons.prems by (intro Cons.IH) auto
  then show ?case by simp
qed simp

lemma complementAll_strings_loop_settles:
  assumes "settles alloc U s A B" and "\<forall>str \<in> set strs. multi_string str" and "distinct strs"
    and "B \<union> set strs \<subseteq> U" and "finite U"
  shows "settles alloc U (complementAll_strings_loop alloc strs s) A ((B - set strs) \<union> (set strs - B))"
  using assms
proof (induction strs arbitrary: s B)
  case (Cons str strs)
  obtain removed v where r: "UVector_removeElement (us_strings s) str = (removed, v)" by fastforce
  have ok: "us_ok s" "strings_ok (us_strings s)" using Cons.prems(1) by (auto simp: settles_def us_defs)
  note rm = strings_removeElement [OF ok(2) r]
  have ok': "us_ok (s\<lparr>us_strings := v\<rparr>)"
    using rm ok by (intro us_ok_strings) (auto simp: us_defs)
  let ?s = "if \<not> removed then UnicodeSet_add_new_string alloc (s\<lparr>us_strings := v\<rparr>) str else s\<lparr>us_strings := v\<rparr>"
  let ?B = "if str \<in> B then B - {str} else insert str B"
  have v: "settles alloc U (s\<lparr>us_strings := v\<rparr>) A (B - {str})"
    using Cons.prems(1) ok' rm(2) [folded us_strs_def] unfolding settles_def
    by (cases "UnicodeSet_isBogus s") simp_all
  have new: "str \<notin> us_strs (s\<lparr>us_strings := v\<rparr>)" using rm(2) by simp
  have added: "settles alloc U (UnicodeSet_add_new_string alloc (s\<lparr>us_strings := v\<rparr>) str) A (insert str (B - {str}))"
    by (rule add_missing_settles [OF v new]) (use Cons.prems in auto)
  have step: "settles alloc U ?s A ?B"
  proof (cases "UnicodeSet_isBogus s")
    case True
    then have "UnicodeSet_isBogus ?s" by (simp add: UnicodeSet_add_new_string_def)
    then show ?thesis using v added by (auto simp: settles_def)
  next
    case False
    then have "removed \<longleftrightarrow> str \<in> B" using rm(3) Cons.prems(1) by (auto simp: settles_def us_strs_def)
    then show ?thesis using v added by (cases removed) simp_all
  qed
  have "settles alloc U (complementAll_strings_loop alloc strs ?s) A ((?B - set strs) \<union> (set strs - ?B))"
    using Cons.prems step by (intro Cons.IH) (auto split: if_splits)
  moreover have "(?B - set strs) \<union> (set strs - ?B) =
      (B - set (str # strs)) \<union> (set (str # strs) - B)"
    using Cons.prems(3) by auto
  ultimately show ?case using r by (simp only: complementAll_strings_loop.simps prod.case)
qed simp

section \<open>Properties of the mutators\<close>

text \<open>Sample sets: \<open>[A-Z {ch}]\<close> and \<open>[F-a {ch}{ll}]\<close>.\<close>

definition sample_strings :: "UChar list list \<Rightarrow> UChar list UVector" where
  "sample_strings strs = \<lparr>count = int (length strs), capacity = int (length strs),
     elements = map Pointer strs, deleter = True, comparer = Some uhash_compareUnicodeString, freed = []\<rparr>"

definition sample_set :: "int list \<Rightarrow> UChar list list \<Rightarrow> UnicodeSet" where
  "sample_set xs strs = \<lparr>us_list = xs, us_capacity = int (length xs), us_bmpSet = None, us_buffer = False,
     us_bufferCapacity = 0, us_pat = None, us_strings = sample_strings strs, us_stringSpan = None,
     us_bogus = False\<rparr>"

abbreviation sample_A :: UnicodeSet where
  "sample_A \<equiv> sample_set [0x41, 0x5b, 0x110000] [[0x63, 0x68]]"

abbreviation sample_B :: UnicodeSet where
  "sample_B \<equiv> sample_set [0x46, 0x62, 0x110000] [[0x63, 0x68], [0x6c, 0x6c]]"

lemma sample_set_mutable:
  assumes "wf_inv xs" and "distinct strs" and "length strs < 100" and "\<forall>str \<in> set strs. multi_string str"
    and "sorted_wrt (\<lambda>a b. UnicodeString_doCompare a b \<le> 0) strs"
  shows "us_mutable (sample_set xs strs)" "us_cps (sample_set xs strs) = inv_set xs"
    "us_strs (sample_set xs strs) = set strs"
  using assms by (auto simp: sample_set_def sample_strings_def us_mutable_def us_defs strings_ok_def
      string_set_def vec_defs)

lemma sample_A: "us_mutable sample_A" "us_cps sample_A = {0x41..<0x5b}" "us_strs sample_A = {[0x63, 0x68]}"
proof -
  have "multi_string [0x63, 0x68]" by code_simp
  then show "us_mutable sample_A" "us_cps sample_A = {0x41..<0x5b}" "us_strs sample_A = {[0x63, 0x68]}"
    by (simp_all add: sample_set_mutable wf_inv_def)
qed

lemma sample_B: "us_mutable sample_B" "us_cps sample_B = {0x46..<0x62}"
  "us_strs sample_B = {[0x63, 0x68], [0x6c, 0x6c]}"
proof -
  have m: "multi_string [0x63, 0x68]" "multi_string [0x6c, 0x6c]" by code_simp+
  have "UnicodeString_doCompare [0x63, 0x68] [0x6c, 0x6c] \<le> 0" by code_simp
  with m show "us_mutable sample_B" "us_cps sample_B = {0x46..<0x62}"
    "us_strs sample_B = {[0x63, 0x68], [0x6c, 0x6c]}"
    by (simp_all add: sample_set_mutable wf_inv_def)
qed

lemma us_mutable_ok: "us_mutable s \<Longrightarrow> us_ok s"
  by (simp add: us_mutable_def)

lemma us_ok_other:
  assumes "us_ok c"
  shows "inv_list (-1) (us_list c)" "int (below_high (us_list c)) \<le> us_len c" "us_list c \<noteq> []"
    "strings_ok (us_strings c)" "\<forall>str \<in> us_strs c. multi_string str"
    "set (vec_strings (us_strings c)) = us_strs c" "distinct (vec_strings (us_strings c))" "finite (us_strs c)"
proof -
  have wf: "wf_inv (us_list c)" "strings_ok (us_strings c)" using assms by (auto simp: us_ok_def)
  show "inv_list (-1) (us_list c)" "us_list c \<noteq> []" using wf by (auto simp: wf_inv_inv_list wf_inv_nonempty)
  show "int (below_high (us_list c)) \<le> us_len c" using below_high_wf [OF wf(1)] by linarith
  show "strings_ok (us_strings c)" "\<forall>str \<in> us_strs c. multi_string str" using assms by (auto simp: us_ok_def)
  show "set (vec_strings (us_strings c)) = us_strs c" "finite (us_strs c)"
    by (simp_all add: us_strs_def string_set_def)
  show "distinct (vec_strings (us_strings c))" by (rule strings_okE [OF wf(2)]) simp
qed

text \<open>Replacing the strings after the code points have settled.\<close>

lemma settles_strings:
  assumes "outcome alloc r A B" and "strings_ok v" and "string_set v \<subseteq> us_strs r"
    and "\<not> UnicodeSet_isBogus r \<Longrightarrow> string_set v = B'"
  shows "settles alloc U (r\<lparr>us_strings := v\<rparr>) A B'"
proof -
  have "us_ok (r\<lparr>us_strings := v\<rparr>)"
    using assms by (intro us_ok_strings) (auto simp: outcome_def us_ok_def)
  with assms show ?thesis by (auto simp: settles_def outcome_def refused_def)
qed

text \<open>
  C1. \<open>addAll\<close>: on a set that is neither frozen nor bogus the result is the union of the code points
  and of the strings, for any other set, and no array is overrun.  The set becomes bogus only
  after a refused allocation, or with more than \<open>2^27\<close> strings.
\<close>

theorem addAll_union:
  assumes s: "us_mutable s" and c: "us_ok c"
  shows "\<exists>r. UnicodeSet_addAll alloc s c = Some r \<and>
    settles alloc (us_strs s \<union> us_strs c) r (us_cps s \<union> us_cps c) (us_strs s \<union> us_strs c)"
proof -
  note C = us_ok_other [OF c]
  obtain r where r: "UnicodeSet_add_list alloc s (us_list c) (us_len c) 0 = Some r"
    "outcome alloc r (us_cps s \<union> us_cps c) (us_strs s)"
    using merge_union.object [OF s C(1,2), of alloc] us_mutable_flags [OF s] C(3)
    by (auto simp: UnicodeSet_add_list_def us_cps_def)
  let ?U = "us_strs s \<union> us_strs c"
  have "settles alloc ?U (addAll_strings_loop alloc (vec_strings (us_strings c)) r)
      (us_cps s \<union> us_cps c) (us_strs s \<union> set (vec_strings (us_strings c)))"
    by (rule addAll_strings_loop_settles [OF outcome_settles [OF r(2)]])
      (use C s in \<open>auto simp: us_ok_other(8) us_mutable_def\<close>)
  then show ?thesis using r(1) C(3,6) by (simp add: UnicodeSet_addAll_def)
qed

theorem addAll_union_witness:
  "\<exists>r. UnicodeSet_addAll (\<lambda>n. True) sample_A sample_B = Some r \<and>
    us_cps r = {0x41..<0x62} \<and> us_strs r = {[0x63, 0x68], [0x6c, 0x6c]}"
  using addAll_union [OF sample_A(1) us_mutable_ok [OF sample_B(1)], of "\<lambda>n. True"]
  by (fastforce simp: settles_def sample_A sample_B refused_def card_insert_if split: if_splits)

lemma retainAll_settles:
  assumes s: "us_mutable s" and c: "us_ok c"
  shows "\<exists>r. UnicodeSet_retainAll alloc s c = Some r \<and>
    settles alloc (us_strs s) r (us_cps s \<inter> us_cps c) (us_strs s \<inter> us_strs c)"
proof -
  note C = us_ok_other [OF c]
  obtain r where r: "UnicodeSet_retain_list alloc s (us_list c) (us_len c) 0 = Some r"
    "outcome alloc r (us_cps s \<inter> us_cps c) (us_strs s)"
    using merge_inter.object [OF s C(1,2), of alloc] us_mutable_flags [OF s]
    by (auto simp: UnicodeSet_retain_list_def us_cps_def)
  have "strings_ok (us_strings r)" using r(2) by (simp add: outcome_def us_ok_def)
  note v = strings_retainAll [OF this C(4)]
  have "settles alloc (us_strs s) (r\<lparr>us_strings := snd (UVector_retainAll (us_strings r) (us_strings c))\<rparr>)
      (us_cps s \<inter> us_cps c) (us_strs s \<inter> us_strs c)"
    by (rule settles_strings [OF r(2)]) (use v r(2) in \<open>auto simp: us_strs_def outcome_def\<close>)
  then show ?thesis using r(1) us_mutable_flags [OF s] by (simp add: UnicodeSet_retainAll_def)
qed

text \<open>
  C2. \<open>retainAll\<close> is the intersection of the code points and of the strings.
\<close>

theorem retainAll_inter:
  assumes "us_mutable s" and "us_ok c"
  shows "\<exists>r. UnicodeSet_retainAll alloc s c = Some r \<and>
    settles alloc (us_strs s) r (us_cps s \<inter> us_cps c) (us_strs s \<inter> us_strs c)"
  by (rule retainAll_settles [OF assms])

theorem retainAll_inter_witness:
  "\<exists>r. UnicodeSet_retainAll (\<lambda>n. True) sample_A sample_B = Some r \<and>
    us_cps r = {0x46..<0x5b} \<and> us_strs r = {[0x63, 0x68]}"
  using retainAll_inter [OF sample_A(1) us_mutable_ok [OF sample_B(1)], of "\<lambda>n. True"]
  by (fastforce simp: settles_def sample_A sample_B refused_def card_insert_if split: if_splits)

text \<open>
  C3. \<open>removeAll\<close> of another set object is the difference of the code points and of the strings.
\<close>

theorem removeAll_diff:
  assumes s: "us_mutable s" and c: "us_ok c"
  shows "\<exists>r. UnicodeSet_removeAll alloc s c = Some r \<and>
    settles alloc (us_strs s) r (us_cps s - us_cps c) (us_strs s - us_strs c)"
proof -
  note C = us_ok_other [OF c]
  obtain r where r: "UnicodeSet_retain_list alloc s (us_list c) (us_len c) 2 = Some r"
    "outcome alloc r (us_cps s - us_cps c) (us_strs s)"
    using merge_diff.object [OF s C(1,2), of alloc] us_mutable_flags [OF s]
    by (auto simp: UnicodeSet_retain_list_def us_cps_def)
  have "strings_ok (us_strings r)" using r(2) by (simp add: outcome_def us_ok_def)
  note v = strings_removeAll [OF this C(4)]
  have "settles alloc (us_strs s) (r\<lparr>us_strings := snd (UVector_removeAll (us_strings r) (us_strings c))\<rparr>)
      (us_cps s - us_cps c) (us_strs s - us_strs c)"
    by (rule settles_strings [OF r(2)]) (use v r(2) in \<open>auto simp: us_strs_def outcome_def\<close>)
  then show ?thesis using r(1) us_mutable_flags [OF s] by (simp add: UnicodeSet_removeAll_def)
qed

theorem removeAll_diff_witness:
  "\<exists>r. UnicodeSet_removeAll (\<lambda>n. True) sample_A sample_B = Some r \<and>
    us_cps r = {0x41..<0x46} \<and> us_strs r = {}"
  using removeAll_diff [OF sample_A(1) us_mutable_ok [OF sample_B(1)], of "\<lambda>n. True"]
  by (fastforce simp: settles_def sample_A sample_B refused_def card_insert_if split: if_splits)

text \<open>
  \<open>s.removeAll(s)\<close> is not the empty set: the code points go, but every second string stays.
\<close>

theorem removeAll_self_keeps:
  assumes s: "us_mutable s"
  shows "\<exists>r. UnicodeSet_removeAll_self alloc s = Some r \<and>
    settles alloc (us_strs s) r {} (set (every_second (vec_strings (us_strings s))))"
proof -
  note C = us_ok_other [OF us_mutable_ok [OF s]]
  obtain r where r: "UnicodeSet_retain_list alloc s (us_list s) (us_len s) 2 = Some r"
    "outcome alloc r {} (us_strs s)"
    using merge_diff.object [OF s C(1,2), of alloc] us_mutable_flags [OF s]
    by (auto simp: UnicodeSet_retain_list_def us_cps_def)
  have ok: "strings_ok (us_strings r)" using r(2) by (simp add: outcome_def us_ok_def)
  have same: "vec_strings (us_strings r) = vec_strings (us_strings s)" if "\<not> UnicodeSet_isBogus r"
    using vec_strings_unique [OF ok C(4)] r(2) that by (simp add: outcome_def us_strs_def)
  have "settles alloc (us_strs s) (r\<lparr>us_strings := snd (UVector_removeAll_self (us_strings r))\<rparr>)
      {} (set (every_second (vec_strings (us_strings s))))"
    by (rule settles_strings [OF r(2)]) (use strings_removeAll_self [OF ok] same in \<open>auto simp: us_strs_def\<close>)
  then show ?thesis using r(1) us_mutable_flags [OF s] by (simp add: UnicodeSet_removeAll_self_def)
qed

theorem removeAll_self_keeps_witness:
  "\<exists>r. UnicodeSet_removeAll_self (\<lambda>n. True) sample_B = Some r \<and> us_cps r = {} \<and> us_strs r = {[0x6c, 0x6c]}"
proof -
  have "vec_strings (us_strings sample_B) = [[0x63, 0x68], [0x6c, 0x6c]]"
    by (simp add: sample_set_def sample_strings_def vec_contents_def)
  then show ?thesis
    using removeAll_self_keeps [OF sample_B(1), of "\<lambda>n. True"]
    by (fastforce simp: settles_def sample_B refused_def card_insert_if split: if_splits)
qed

text \<open>
  C4. \<open>complementAll\<close> of another set object is the symmetric difference of the code points and of the
  strings.
\<close>

theorem complementAll_xor:
  assumes s: "us_mutable s" and c: "us_ok c"
  shows "\<exists>r. UnicodeSet_complementAll alloc s c = Some r \<and>
    settles alloc (us_strs s \<union> us_strs c) r ((us_cps s - us_cps c) \<union> (us_cps c - us_cps s))
      ((us_strs s - us_strs c) \<union> (us_strs c - us_strs s))"
proof -
  note C = us_ok_other [OF c]
  obtain r where r: "UnicodeSet_exclusiveOr alloc s (us_list c) (us_len c) 0 = Some r"
    "outcome alloc r ((us_cps s - us_cps c) \<union> (us_cps c - us_cps s)) (us_strs s)"
    using merge_xor.object [OF s C(1,2), of alloc] us_mutable_flags [OF s]
    by (auto simp: UnicodeSet_exclusiveOr_def us_cps_def)
  have "settles alloc (us_strs s \<union> us_strs c)
      (complementAll_strings_loop alloc (vec_strings (us_strings c)) r)
      ((us_cps s - us_cps c) \<union> (us_cps c - us_cps s))
      ((us_strs s - set (vec_strings (us_strings c))) \<union> (set (vec_strings (us_strings c)) - us_strs s))"
    by (rule complementAll_strings_loop_settles [OF outcome_settles [OF r(2)]])
      (use C s in \<open>auto simp: us_ok_other(8) us_mutable_def\<close>)
  then show ?thesis
    using r(1) us_mutable_flags [OF s] C(6) by (simp add: UnicodeSet_complementAll_def)
qed

theorem complementAll_xor_witness:
  "\<exists>r. UnicodeSet_complementAll (\<lambda>n. True) sample_A sample_B = Some r \<and>
    us_cps r = {0x41..<0x46} \<union> {0x5b..<0x62} \<and> us_strs r = {[0x6c, 0x6c]}"
  using complementAll_xor [OF sample_A(1) us_mutable_ok [OF sample_B(1)], of "\<lambda>n. True"]
  by (fastforce simp: settles_def sample_A sample_B refused_def card_insert_if split: if_splits)

text \<open>
  C5. The range methods act on the code points as the set operations with the range \<open>R\<close> between the pinned bounds, which
  is empty when the start is behind the end: \<open>add\<close> is the union, \<open>retain\<close> the intersection,
  \<open>remove\<close> the difference, \<open>complement(start, end)\<close> the symmetric difference, and \<open>complement()\<close>
  the complement in all code points.  All of them leave the strings alone, but for \<open>retain\<close> with an empty range, which
  clears the strings too; with any other range \<open>retain\<close> keeps all strings, although none of them is in the range.
\<close>

theorem range_operations:
  fixes a b :: int
  assumes "us_mutable s"
  defines "R \<equiv> {pinCodePoint a..pinCodePoint b}"
  shows "(\<exists>r. UnicodeSet_add_range alloc s a b = Some r \<and> outcome alloc r (us_cps s \<union> R) (us_strs s)) \<and>
    (\<exists>r. UnicodeSet_retain_range alloc s a b = Some r \<and>
       outcome alloc r (us_cps s \<inter> R) (if R = {} then {} else us_strs s)) \<and>
    (\<exists>r. UnicodeSet_remove_range alloc s a b = Some r \<and> outcome alloc r (us_cps s - R) (us_strs s)) \<and>
    (\<exists>r. UnicodeSet_complement_range alloc s a b = Some r \<and>
       outcome alloc r ((us_cps s - R) \<union> (R - us_cps s)) (us_strs s)) \<and>
    (\<exists>r. UnicodeSet_complement alloc s = Some r \<and>
       outcome alloc r ({0..<UNICODESET_HIGH} - us_cps s) (us_strs s))"
  using add_range_outcome [OF assms(1), of alloc a b] retain_range_outcome [OF assms(1), of alloc a b]
    remove_range_outcome [OF assms(1), of alloc a b] complement_range_outcome [OF assms(1), of alloc a b]
    complement_outcome [OF assms(1), of alloc]
  unfolding R_def by (cases "pinCodePoint a \<le> pinCodePoint b") simp_all

theorem range_operations_witness:
  "(\<exists>r. UnicodeSet_remove_range (\<lambda>n. True) sample_A 0x50 0x200000 = Some r \<and>
     us_cps r = {0x41..<0x50} \<and> us_strs r = {[0x63, 0x68]}) \<and>
   (\<exists>r. UnicodeSet_retain_range (\<lambda>n. True) sample_A 0x50 0x200000 = Some r \<and>
     us_cps r = {0x50..<0x5b} \<and> us_strs r = {[0x63, 0x68]})"
proof -
  have R: "{pinCodePoint 0x50..pinCodePoint 0x200000} = {0x50..0x10ffff}" by (simp add: pinCodePoint_def)
  note ops = range_operations [OF sample_A(1), where alloc = "\<lambda>n. True" and a = "0x50" and b = "0x200000", unfolded R]
  have ne: "{0x50..0x10ffff :: int} \<noteq> {}" by simp
  have "{0x41..<0x5b} - {0x50..0x10ffff} = {0x41..<0x50 :: int}"
    "{0x41..<0x5b} \<inter> {0x50..0x10ffff} = {0x50..<0x5b :: int}" by auto
  with ops [THEN conjunct2, THEN conjunct1] ops [THEN conjunct2, THEN conjunct2, THEN conjunct1] show ?thesis
    unfolding if_not_P [OF ne] by (auto simp: outcome_def sample_A split: if_splits)
qed

text \<open>
  C6. \<open>add(c)\<close>, which edits the inversion list in place, adds exactly the pinned code point.
\<close>

theorem add_cp_insert:
  assumes "us_mutable s"
  shows "\<exists>r. UnicodeSet_add_cp alloc s c = Some r \<and>
    outcome alloc r (insert (pinCodePoint c) (us_cps s)) (us_strs s)"
  by (rule add_cp_outcome [OF assms])

theorem add_cp_insert_witness:
  "\<exists>r. UnicodeSet_add_cp (\<lambda>n. True) sample_A 0x5b = Some r \<and> us_cps r = insert 0x5b {0x41..<0x5b}"
  using add_cp_insert [OF sample_A(1), where alloc = "\<lambda>n. True" and c = "0x5b"]
  by (fastforce simp: outcome_def sample_A pinCodePoint_def split: if_splits)

section \<open>Queries\<close>

lemma list_contains_iff: "wf_inv xs \<Longrightarrow> list_contains xs c \<longleftrightarrow> c \<in> inv_set xs"
  using findCodePoint_odd_iff [of xs c] inv_set_range [OF wf_inv_inv_list, of xs c]
  by (auto simp: list_contains_def)

lemma contains_iff: "us_ok s \<Longrightarrow> UnicodeSet_contains s c \<longleftrightarrow> c \<in> us_cps s"
  by (auto simp: UnicodeSet_contains_def us_ok_def us_cps_def list_contains_iff split: option.splits)

text \<open>
  On every well-formed set, frozen or not, \<open>contains(c)\<close> is membership, for every integer \<open>c\<close>;
  \<open>contains(s)\<close> for a string is membership of the string, or of its only code point.
\<close>

theorem contains_membership:
  assumes "us_ok s" and "str \<noteq> []"
  shows "(UnicodeSet_contains s c \<longleftrightarrow> c \<in> us_cps s) \<and>
    (UnicodeSet_contains_string s str \<longleftrightarrow>
      (if UnicodeSet_getSingleCP str < 0 then str \<in> us_strs s else UnicodeSet_getSingleCP str \<in> us_cps s))"
  using assms contains_iff [OF assms(1)] us_ok_other(4) [OF assms(1)]
  by (simp add: UnicodeSet_contains_string_def Let_def strings_contains us_strs_def)

theorem contains_membership_witness:
  "UnicodeSet_contains sample_A 0x42 \<and> UnicodeSet_contains_string sample_A [0x63, 0x68]"
proof -
  have "UnicodeSet_getSingleCP [0x63, 0x68] < 0" by code_simp
  then show ?thesis
    using contains_membership [OF us_mutable_ok [OF sample_A(1)], where str = "[0x63, 0x68]" and c = "0x42"]
    by (simp add: sample_A)
qed

end
