(* ===== verification/UnicodeSetQueries.thy ===== *)
theory UnicodeSetQueries
  imports UnicodeSetProps
begin

text \<open>
  What the queries of \<open>UnicodeSet\<close> return, in terms of the code points and strings of the set:
  equality, size, subset and disjointness tests, and the numbering of the code points by
  \<open>indexOf\<close> and \<open>charAt\<close>.
\<close>

section \<open>Inversion lists are canonical\<close>

lemma par_change:
  assumes "sorted_wrt (<) xs"
  shows "par xs c \<noteq> par xs (c - 1) \<longleftrightarrow> c \<in> set xs"
  using assms
proof (induction xs)
  case (Cons x xs)
  then have "x \<notin> set xs" by auto
  with Cons show ?case by (cases "x = c") auto
qed simp

lemma wf_inv_unique:
  assumes "wf_inv xs" and "wf_inv ys" and "inv_set xs = inv_set ys"
  shows "xs = ys"
proof -
  have s: "sorted_wrt (<) xs" "sorted_wrt (<) ys" using assms by (auto simp: wf_inv_def)
  have "par xs c = par ys c" if "c < UNICODESET_HIGH" for c
    using inv_set_par [OF wf_inv_inv_list [OF assms(1)] that]
      inv_set_par [OF wf_inv_inv_list [OF assms(2)] that] assms(3) by simp
  then have low: "c \<in> set xs \<longleftrightarrow> c \<in> set ys" if "c < UNICODESET_HIGH" for c
    using par_change [OF s(1), of c] par_change [OF s(2), of c] that by simp
  have high: "UNICODESET_HIGH \<in> set zs" "\<forall>c \<in> set zs. c \<le> UNICODESET_HIGH" if "wf_inv zs" for zs
  proof -
    show "UNICODESET_HIGH \<in> set zs" using that last_in_set [of zs] by (auto simp: wf_inv_def)
    show "\<forall>c \<in> set zs. c \<le> UNICODESET_HIGH"
      using that wf_inv_le_HIGH by (blast dest: split_list)
  qed
  have "set xs = set ys"
    using low high [OF assms(1)] high [OF assms(2)] by (metis order_le_less subsetI subset_antisym)
  then show ?thesis
    using s by (intro sorted_distinct_set_unique)
      (auto simp: strict_sorted_iff)
qed

section \<open>Ranges\<close>

lemma inv_set_ranges:
  "wf_inv xs \<Longrightarrow> inv_set xs = (\<Union>i < length xs div 2. {xs ! (i * 2)..<xs ! (i * 2 + 1)})"
proof (induction xs rule: inv_set.induct)
  case (3 x y xs)
  show ?case
  proof (cases "xs = []")
    case False
    then have "wf_inv xs" using 3 by (auto simp: wf_inv_alt)
    then have "inv_set xs = (\<Union>i < length xs div 2. {xs ! (i * 2)..<xs ! (i * 2 + 1)})"
      using 3 by simp
    moreover have "{..<length (x # y # xs) div 2} = insert 0 (Suc ` {..<length xs div 2})"
      by (auto simp: image_iff less_Suc_eq_0_disj)
    ultimately show ?thesis by simp
  qed auto
qed (auto simp: wf_inv_def)

lemma card_inv_set_Cons:
  assumes "wf_inv (x # y # xs)"
  shows "int (card (inv_set (x # y # xs))) = (y - x) + int (card (inv_set xs))" "finite (inv_set xs)"
    "inv_set xs \<inter> {..y} = {}" "x < y" "xs \<noteq> [] \<Longrightarrow> wf_inv xs" "xs = [] \<Longrightarrow> y = UNICODESET_HIGH"
proof -
  show xy: "x < y" and w: "xs \<noteq> [] \<Longrightarrow> wf_inv xs" and "xs = [] \<Longrightarrow> y = UNICODESET_HIGH"
    using assms by (auto simp: wf_inv_alt)
  have "inv_list y xs" if "xs \<noteq> []"
  proof -
    have "y < UNICODESET_HIGH" using assms that last_in_set [of xs] by (auto simp: wf_inv_alt)
    then show ?thesis using wf_inv_inv_list [OF assms] xy by (auto split: if_splits)
  qed
  then have "inv_set xs \<subseteq> {y<..<UNICODESET_HIGH}" using inv_set_bounds by (cases "xs = []") auto
  then show fin: "finite (inv_set xs)" and dis: "inv_set xs \<inter> {..y} = {}"
    using finite_subset by (blast, fastforce)
  have "{x..<y} \<inter> inv_set xs = {}" using dis by auto
  then show "int (card (inv_set (x # y # xs))) = (y - x) + int (card (inv_set xs))"
    using fin xy by (simp add: card_Un_disjoint)
qed

lemma range_sum:
  "wf_inv xs \<Longrightarrow> fold (\<lambda>i n. n + ((xs ! (i * 2 + 1) - 1) - xs ! (i * 2) + 1)) [0..<length xs div 2] m
     = m + int (card (inv_set xs))"
proof (induction xs arbitrary: m rule: inv_set.induct)
  case (3 x y xs)
  note c = card_inv_set_Cons [OF 3(2)]
  have up: "[0..<length (x # y # xs) div 2] = 0 # map Suc [0..<length xs div 2]"
    by (simp add: upt_conv_Cons map_Suc_upt del: upt_Suc)
  show ?case
  proof (cases "xs = []")
    case False
    then have "fold (\<lambda>i n. n + ((xs ! (i * 2 + 1) - 1) - xs ! (i * 2) + 1)) [0..<length xs div 2] (m + (y - x))
        = m + (y - x) + int (card (inv_set xs))"
      using 3(1) c(5) by blast
    then show ?thesis unfolding up using c(1) by (simp add: fold_map comp_def)
  next
    case True
    then show ?thesis using c(1) by simp
  qed
qed (auto simp: wf_inv_def)

text \<open>
  C7. \<open>operator==\<close> compares list entries and string vectors position by position; on well-formed sets
  this decides equality of the sets of code points and of strings.
\<close>

theorem eq_set_equality:
  assumes "us_ok s" and "us_ok t"
  shows "UnicodeSet_eq s t \<longleftrightarrow> us_cps s = us_cps t \<and> us_strs s = us_strs t"
proof -
  have wf: "wf_inv (us_list s)" "wf_inv (us_list t)" and so: "strings_ok (us_strings s)" "strings_ok (us_strings t)"
    using assms by (auto simp: us_ok_def)
  have "(length (us_list s) = length (us_list t) \<and>
      list_all (\<lambda>i. us_list s ! i = us_list t ! i) [0..<length (us_list s)]) \<longleftrightarrow> us_list s = us_list t"
    by (auto simp: list_all_iff intro: nth_equalityI)
  then have l: "(length (us_list s) = length (us_list t) \<and>
      list_all (\<lambda>i. us_list s ! i = us_list t ! i) [0..<length (us_list s)]) \<longleftrightarrow> us_cps s = us_cps t"
    using wf_inv_unique [OF wf] by (auto simp: us_cps_def)
  have "UVector_eq (us_strings s) (us_strings t) \<longleftrightarrow> us_strs s = us_strs t"
    using strings_eq [OF so] by (simp add: us_strs_def)
  with l show ?thesis by (auto simp: UnicodeSet_eq_def)
qed

theorem eq_set_equality_witness: "UnicodeSet_eq sample_A sample_A \<and> \<not> UnicodeSet_eq sample_A sample_B"
  using eq_set_equality [OF us_mutable_ok us_mutable_ok, OF sample_A(1) sample_A(1)]
    eq_set_equality [OF us_mutable_ok us_mutable_ok, OF sample_A(1) sample_B(1)]
  by (simp add: sample_A sample_B)

text \<open>
  \<open>size()\<close> is the number of code points plus the number of strings, and \<open>isEmpty()\<close> says that
  there are none.
\<close>

theorem size_card:
  assumes "us_ok s"
  shows "UnicodeSet_size s = int (card (us_cps s)) + int (card (us_strs s)) \<and>
    (UnicodeSet_isEmpty s \<longleftrightarrow> us_cps s = {} \<and> us_strs s = {})"
proof -
  have wf: "wf_inv (us_list s)" using assms by (simp add: us_ok_def)
  from assms have "strings_ok (us_strings s)" by (simp add: us_ok_def)
  then obtain strs where v: "vec_ok (us_strings s)" "vec_contents (us_strings s) = map Pointer strs"
    "distinct strs" "us_strs s = set strs"
    by (rule strings_okE) (simp add: us_strs_def)
  then have n: "count (us_strings s) = int (card (us_strs s))"
    using length_vec_contents [OF v(1)] by (simp add: distinct_card vec_ok_def)
  have "us_len s = 1 \<longleftrightarrow> us_cps s = {}"
  proof -
    have "us_list s = [UNICODESET_HIGH] \<longleftrightarrow> us_len s = 1"
      using wf by (auto simp: wf_inv_def length_Suc_conv)
    moreover have "us_list s = [UNICODESET_HIGH] \<longleftrightarrow> us_cps s = {}"
      using wf_inv_unique [OF wf wf_inv_empty] by (auto simp: us_cps_def)
    ultimately show ?thesis by blast
  qed
  moreover have "card (us_strs s) = 0 \<longleftrightarrow> us_strs s = {}" using v(4) by simp
  ultimately show ?thesis
    using range_sum [OF wf, of 0] n
    by (simp add: UnicodeSet_size_def UnicodeSet_isEmpty_def UnicodeSet_getRangeCount_def
        UnicodeSet_getRangeStart_def UnicodeSet_getRangeEnd_def us_cps_def)
qed

theorem size_card_witness: "UnicodeSet_size sample_B = 30 \<and> \<not> UnicodeSet_isEmpty sample_B"
  using size_card [OF us_mutable_ok [OF sample_B(1)]] by (simp add: sample_B)

section \<open>Numbering\<close>

lemma inv_set_Cons_below:
  assumes "wf_inv (x # y # xs)" and "y \<le> c"
  shows "card (inv_set (x # y # xs) \<inter> {..<c}) = nat (y - x) + card (inv_set xs \<inter> {..<c})"
proof -
  note C = card_inv_set_Cons [OF assms(1)]
  have "inv_set (x # y # xs) \<inter> {..<c} = {x..<y} \<union> (inv_set xs \<inter> {..<c})" using assms(2) by auto
  moreover have "{x..<y} \<inter> (inv_set xs \<inter> {..<c}) = {}" using C(3) by auto
  ultimately show ?thesis using C(2) by (simp add: card_Un_disjoint)
qed

lemma inv_set_Cons_within:
  assumes "wf_inv (x # y # xs)" and "c < y"
  shows "inv_set (x # y # xs) \<inter> {..<c} = {x..<c}" and "c \<in> inv_set (x # y # xs) \<longleftrightarrow> x \<le> c"
  using card_inv_set_Cons(3) [OF assms(1)] assms(2) by fastforce+

lemma indexOf_loop_correct:
  "wf_inv xs \<Longrightarrow> c < UNICODESET_HIGH \<Longrightarrow> indexOf_loop xs c n =
     Some (if c \<in> inv_set xs then n + int (card (inv_set xs \<inter> {..<c})) else -1)"
proof (induction xs arbitrary: n rule: inv_set.induct)
  case (2 x)
  then show ?case by (auto simp: wf_inv_def)
next
  case (3 x y xs)
  note C = card_inv_set_Cons [OF 3(2)]
  show ?case
  proof (cases "c < y")
    case True
    then show ?thesis using inv_set_Cons_within [OF 3(2) True] C(4) by auto
  next
    case False
    then have "xs \<noteq> []" using C(6) 3(3) by auto
    then have "indexOf_loop xs c (n + (y - x)) =
        Some (if c \<in> inv_set xs then n + (y - x) + int (card (inv_set xs \<inter> {..<c})) else -1)"
      using 3 C(5) by blast
    then show ?thesis using inv_set_Cons_below [OF 3(2), of c] False C(4) by auto
  qed
qed (simp add: wf_inv_def)

lemma charAt_loop_correct:
  "wf_inv xs \<Longrightarrow> 0 \<le> i \<Longrightarrow>
     (if i < int (card (inv_set xs))
      then charAt_loop xs i \<in> inv_set xs \<and> int (card (inv_set xs \<inter> {..<charAt_loop xs i})) = i
      else charAt_loop xs i = -1)"
proof (induction xs arbitrary: i rule: inv_set.induct)
  case (2 x)
  then show ?case by (auto simp: wf_inv_def)
next
  case (3 x y xs)
  note C = card_inv_set_Cons [OF 3(2)]
  show ?case
  proof (cases "i < y - x")
    case True
    then show ?thesis using inv_set_Cons_within [OF 3(2), of "x + i"] C(1,4) 3(3) by auto
  next
    case False
    show ?thesis
    proof (cases "xs = []")
      case False
      let ?d = "charAt_loop xs (i - (y - x))"
      have ih: "if i - (y - x) < int (card (inv_set xs))
        then ?d \<in> inv_set xs \<and> int (card (inv_set xs \<inter> {..<?d})) = i - (y - x) else ?d = -1"
        using 3(1)[OF C(5)] False \<open>\<not> i < y - x\<close> by simp
      have "y \<le> ?d" if "?d \<in> inv_set xs" using C(3) that by fastforce
      then show ?thesis
        using ih inv_set_Cons_below [OF 3(2), of ?d] \<open>\<not> i < y - x\<close> C(1,4) by (auto split: if_splits)
    qed (use False C in auto)
  qed
qed (simp add: wf_inv_def)

lemma card_below_inject:
  assumes "finite A" "c \<in> A" "d \<in> A" "card (A \<inter> {..<c}) = card (A \<inter> {..<d})"
  shows "c = (d :: int)"
proof (rule ccontr)
  have strict: "card (A \<inter> {..<a}) < card (A \<inter> {..<b})" if "a < b" "a \<in> A" for a b :: int
    using assms(1) that by (intro psubset_card_mono) auto
  assume "c \<noteq> d"
  then show False using strict [of c d] strict [of d c] assms by (cases c d rule: linorder_cases) auto
qed

text \<open>
  C8. \<open>indexOf\<close> and \<open>charAt\<close> number the code points of a set in ascending order and are inverse to each
  other; both return -1 outside, and \<open>indexOf\<close> never reads past its list.
\<close>

theorem indexOf_charAt:
  assumes "us_ok s"
  shows "(UnicodeSet_indexOf s c =
      Some (if c \<in> us_cps s then int (card (us_cps s \<inter> {..<c})) else -1)) \<and>
    (c \<in> us_cps s \<longrightarrow> UnicodeSet_charAt s (int (card (us_cps s \<inter> {..<c}))) = c) \<and>
    (if 0 \<le> i \<and> i < int (card (us_cps s))
     then UnicodeSet_charAt s i \<in> us_cps s \<and> UnicodeSet_indexOf s (UnicodeSet_charAt s i) = Some i
     else UnicodeSet_charAt s i = -1)"
proof -
  have wf: "wf_inv (us_list s)" using assms by (simp add: us_ok_def)
  have range: "inv_set (us_list s) \<subseteq> {0..<UNICODESET_HIGH}"
    using inv_set_bounds [OF wf_inv_inv_list [OF wf]] by auto
  then have fin: "finite (us_cps s)" using finite_subset us_cps_def by auto
  have idx: "UnicodeSet_indexOf s c = Some (if c \<in> us_cps s then int (card (us_cps s \<inter> {..<c})) else -1)"
    for c
    using indexOf_loop_correct [OF wf, of c 0] range by (auto simp: UnicodeSet_indexOf_def us_cps_def)
  have chr: "if 0 \<le> i \<and> i < int (card (us_cps s))
      then UnicodeSet_charAt s i \<in> us_cps s \<and> int (card (us_cps s \<inter> {..<UnicodeSet_charAt s i})) = i
      else UnicodeSet_charAt s i = -1" for i
    using charAt_loop_correct [OF wf, of i] by (simp add: UnicodeSet_charAt_def us_cps_def)
  have "UnicodeSet_charAt s (int (card (us_cps s \<inter> {..<c}))) = c" if c: "c \<in> us_cps s"
  proof -
    have "card (us_cps s \<inter> {..<c}) < card (us_cps s)"
      using fin c by (intro psubset_card_mono) auto
    then show ?thesis
      using chr [of "int (card (us_cps s \<inter> {..<c}))"] c
      by (intro card_below_inject [OF fin]) auto
  qed
  then show ?thesis using idx chr [of i] by auto
qed

theorem indexOf_charAt_witness:
  "UnicodeSet_indexOf sample_A 0x43 = Some 2 \<and> UnicodeSet_charAt sample_A 2 = 0x43 \<and>
    UnicodeSet_indexOf sample_A 0x60 = Some (-1) \<and> UnicodeSet_charAt sample_A 26 = -1"
proof -
  note t = indexOf_charAt [OF us_mutable_ok [OF sample_A(1)]]
  have "{0x41..<0x5b} \<inter> {..<0x43} = {0x41..<(0x43 :: int)}" by auto
  then show ?thesis using t [of "0x43" 26] t [of "0x60" 26] by (simp add: sample_A)
qed

section \<open>Subset and disjointness\<close>

lemma findCodePoint_unique:
  assumes "wf_inv xs" and "c < UNICODESET_HIGH" and "i < length xs" and "c < xs ! i" and "\<forall>j < i. xs ! j \<le> c"
  shows "findCodePoint_list xs c = i"
  using findCodePoint_list_correct [OF assms(1,2)] assms(3-5) by (meson linorder_neqE_nat not_le)

lemma range_membership:
  assumes wf: "wf_inv xs" and ab: "a \<le> b" "b < UNICODESET_HIGH"
  defines "i \<equiv> findCodePoint_list xs a"
  shows "(\<forall>c \<in> {a..b}. (c \<in> inv_set xs) = odd i) \<longleftrightarrow> b < xs ! i"
proof -
  have a: "a < UNICODESET_HIGH" using ab by simp
  note A = findCodePoint_list_correct [OF wf a, folded i_def]
  have same: "(c \<in> inv_set xs) = odd i" if "a \<le> c" "c < xs ! i" "c \<le> b" for c
  proof -
    have "findCodePoint_list xs c = i"
      by (rule findCodePoint_unique [OF wf]) (use A that ab in fastforce)+
    then show ?thesis using findCodePoint_odd_iff [OF wf, of c] that ab by simp
  qed
  have flip: "(xs ! i \<in> inv_set xs) \<noteq> odd i" if "xs ! i \<le> b"
  proof -
    have h: "xs ! i < UNICODESET_HIGH" using that ab by simp
    have last: "xs ! (length xs - 1) = UNICODESET_HIGH" and s: "sorted_wrt (<) xs"
      using wf by (auto simp: wf_inv_def last_conv_nth)
    have i1: "i + 1 < length xs" using h last A by (cases "i = length xs - 1") auto
    have "findCodePoint_list xs (xs ! i) = i + 1"
    proof (rule findCodePoint_unique [OF wf h i1])
      show "xs ! i < xs ! (i + 1)" using s i1 by (simp add: sorted_wrt_iff_nth_less)
      show "\<forall>j < i + 1. xs ! j \<le> xs ! i"
        using s i1 by (auto simp: sorted_wrt_iff_nth_less less_Suc_eq intro: less_imp_le)
    qed
    then show ?thesis using findCodePoint_odd_iff [OF wf h] by simp
  qed
  have "xs ! i \<in> {a..b}" if "\<not> b < xs ! i" using that A by simp
  with same flip show ?thesis by (metis atLeastAtMost_iff not_le order.strict_trans1 order.strict_implies_order)
qed

lemma contains_range_iff:
  assumes "us_ok s" and "a \<le> b" "b < UNICODESET_HIGH"
  shows "UnicodeSet_contains_range s a b \<longleftrightarrow> {a..b} \<subseteq> us_cps s"
    and "UnicodeSet_containsNone_range s a b \<longleftrightarrow> {a..b} \<inter> us_cps s = {}"
proof -
  have wf: "wf_inv (us_list s)" using assms(1) by (simp add: us_ok_def)
  note m = range_membership [OF wf assms(2,3)] 
  have a: "a \<in> {a..b}" and h: "a < UNICODESET_HIGH" using assms(2,3) by auto
  note o = findCodePoint_odd_iff [OF wf h]
  show "UnicodeSet_contains_range s a b \<longleftrightarrow> {a..b} \<subseteq> us_cps s"
    unfolding UnicodeSet_contains_range_def UnicodeSet_findCodePoint_def Let_def us_cps_def
    using m o a by (cases "odd (findCodePoint_list (us_list s) a)") (auto dest: subsetD [of _ _ a])
  show "UnicodeSet_containsNone_range s a b \<longleftrightarrow> {a..b} \<inter> us_cps s = {}"
    unfolding UnicodeSet_containsNone_range_def UnicodeSet_findCodePoint_def Let_def us_cps_def
    using m o a by (cases "odd (findCodePoint_list (us_list s) a)") (auto simp: disjoint_iff)
qed

lemma string_loops:
  assumes "strings_ok v"
  shows "containsAll_loop v (map Pointer strs) \<longleftrightarrow> set strs \<subseteq> string_set v"
    and "containsNone_loop v (map Pointer strs) \<longleftrightarrow> set strs \<inter> string_set v = {}"
proof -
  have "UVector_indexOf v (Pointer str) 0 False < 0 \<longleftrightarrow> str \<notin> string_set v" for str
    by (rule strings_okE [OF assms]) (auto simp: indexOf_neg_iff)
  then show "containsAll_loop v (map Pointer strs) \<longleftrightarrow> set strs \<subseteq> string_set v"
    "containsNone_loop v (map Pointer strs) \<longleftrightarrow> set strs \<inter> string_set v = {}"
    by (induction strs) (auto simp: not_less [symmetric])
qed

lemma strings_subset:
  assumes "strings_ok v" and "strings_ok w"
  shows "UVector_containsAll v w \<longleftrightarrow> string_set w \<subseteq> string_set v"
    and "UVector_containsNone v w \<longleftrightarrow> string_set w \<inter> string_set v = {}"
  by (rule strings_okE [OF assms(2)], simp add: UVector_containsAll_def UVector_containsNone_def
      vec_contents_def string_loops [OF assms(1)])+

text \<open>
  C9. \<open>containsAll(c)\<close> and \<open>containsNone(c)\<close>, which look up the ranges and strings of \<open>c\<close> one by one,
  are inclusion and disjointness of the two sets of code points and of the two sets of strings.
\<close>

theorem containsAll_subset:
  assumes "us_ok s" and "us_ok c"
  shows "(UnicodeSet_containsAll s c \<longleftrightarrow> us_cps c \<subseteq> us_cps s \<and> us_strs c \<subseteq> us_strs s) \<and>
    (UnicodeSet_containsNone s c \<longleftrightarrow> us_cps c \<inter> us_cps s = {} \<and> us_strs c \<inter> us_strs s = {})"
proof -
  let ?n = "length (us_list c) div 2" and ?xs = "us_list c"
  have wf: "wf_inv ?xs" and st: "strings_ok (us_strings s)" "strings_ok (us_strings c)"
    using assms by (auto simp: us_ok_def)
  have r: "?xs ! (i * 2) \<le> ?xs ! (i * 2 + 1) - 1" "?xs ! (i * 2 + 1) - 1 < UNICODESET_HIGH" if "i < ?n" for i
  proof -
    have l: "i * 2 + 1 < length ?xs" using that by linarith
    have "?xs ! (i * 2) < ?xs ! (i * 2 + 1)" using wf l by (simp add: wf_inv_def sorted_wrt_iff_nth_less)
    then show "?xs ! (i * 2) \<le> ?xs ! (i * 2 + 1) - 1" by simp
    have "?xs ! (i * 2 + 1) \<le> UNICODESET_HIGH" using wf_inv_le [OF wf] l by simp
    then show "?xs ! (i * 2 + 1) - 1 < UNICODESET_HIGH" by simp
  qed
  have cps: "us_cps c = (\<Union>i < ?n. {?xs ! (i * 2)..?xs ! (i * 2 + 1) - 1})"
    using inv_set_ranges [OF wf] by (auto simp: us_cps_def)
  have disj: "(\<Union>i < ?n. A i) \<inter> B = {} \<longleftrightarrow> (\<forall>i < ?n. A i \<inter> B = {})" for A and B :: "int set" by blast
  show ?thesis
    unfolding UnicodeSet_containsAll_def UnicodeSet_containsNone_def UnicodeSet_getRangeStart_def
      UnicodeSet_getRangeEnd_def UnicodeSet_getRangeCount_def cps us_strs_def disj UN_subset_iff
    using contains_range_iff [OF assms(1) r] strings_subset [OF st]
    by (simp add: list_all_iff Ball_def)
qed

theorem containsAll_subset_witness:
  "\<not> UnicodeSet_containsAll sample_A sample_B \<and> \<not> UnicodeSet_containsNone sample_A sample_B \<and>
    UnicodeSet_containsAll sample_A sample_A"
  using containsAll_subset [OF us_mutable_ok us_mutable_ok, OF sample_A(1) sample_B(1)]
    containsAll_subset [OF us_mutable_ok us_mutable_ok, OF sample_A(1) sample_A(1)]
  by (simp add: sample_A sample_B)

end
