(* ===== verification/BMPSetProps.thy ===== *)
theory BMPSetProps
  imports BMPSet
begin

text \<open>
  The tables of a \<open>BMPSet\<close> answer \<open>contains\<close> like the inversion list they were built from.
\<close>

section \<open>Bits of the tables\<close>

text \<open>Bit number \<open>n\<close> of a table in the vertical organisation.\<close>

definition tbit :: "uint32 list \<Rightarrow> nat \<Rightarrow> bool" where
  "tbit t n = bit (t ! (n mod 64)) (n div 64)"

lemma length_or_column [simp]: "length (or_column t b i j) = length t"
  by simp

lemma nth_or_column [simp]:
  "k < length t \<Longrightarrow> or_column t b i j ! k = (if i \<le> k \<and> k < j then t ! k OR b else t ! k)"
  by (simp add: nth_enumerate_eq)

declare or_column.simps [simp del]

lemma nat_and_63: "n AND 0x3f = n mod 64" for n :: nat
  using take_bit_eq_mask [of 6 n] by (simp add: mask_eq_exp_minus_1 take_bit_eq_mod)

lemma nat_drop_6: "drop_bit 6 n = n div 64" for n :: nat
  by (simp add: drop_bit_eq_div)

lemma bit_one_word: "k < 32 \<Longrightarrow> j < 32 \<Longrightarrow> bit (push_bit k (1 :: uint32)) j \<longleftrightarrow> j = k"
  by (auto simp: bit_exp_iff)

lemma exp_minus_1_mask: "push_bit k (1 :: uint32) - 1 = mask k"
  by (simp add: mask_eq_exp_minus_1 push_bit_eq_mult)

lemma bit_mask_word: "j < 32 \<Longrightarrow> bit (mask k :: uint32) j \<longleftrightarrow> j < k"
  by (auto simp: bit_mask_iff)

lemma tbit_or_column:
  assumes "length t = 64" and "n < 2048"
  shows "tbit (or_column t b i j) n \<longleftrightarrow> tbit t n \<or> (i \<le> n mod 64 \<and> n mod 64 < j \<and> bit b (n div 64))"
  using assms by (auto simp: tbit_def bit_or_iff)

text \<open>Order of code points as order of leads and trails.\<close>

lemma le_lead_trail: "s \<le> n \<longleftrightarrow> s div 64 < n div 64 \<or> (s div 64 = n div 64 \<and> s mod 64 \<le> n mod 64)"
  for s n :: nat
proof -
  have "s = 64 * (s div 64) + s mod 64" "n = 64 * (n div 64) + n mod 64" "s mod 64 < 64" "n mod 64 < 64"
    by simp_all
  then show ?thesis by (cases "s div 64" "n div 64" rule: linorder_cases) linarith+
qed

lemma less_lead_trail: "n < l \<longleftrightarrow> n div 64 < l div 64 \<or> (n div 64 = l div 64 \<and> n mod 64 < l mod 64)"
  for n l :: nat
  using le_lead_trail [of l n] by (auto simp: not_le not_less)

lemma set32x64Bits_tbit:
  assumes t: "length t = 64" and sl: "s < l" "l \<le> 0x800" and n: "n < 2048"
  shows "tbit (set32x64Bits t s l) n \<longleftrightarrow> tbit t n \<or> (s \<le> n \<and> n < l)"
proof -
  have lead: "s div 64 < 32" "n div 64 < 32" using sl n by auto
  let ?b = "push_bit (s div 64) (1 :: uint32)"
  have bs: "bit ?b (n div 64) \<longleftrightarrow> n div 64 = s div 64" using bit_one_word lead by blast
  show ?thesis
  proof (cases "s + 1 = l")
    case True
    then have "tbit (set32x64Bits t s l) n \<longleftrightarrow> tbit t n \<or> (n mod 64 = s mod 64 \<and> n div 64 = s div 64)"
      using t bs by (auto simp: set32x64Bits_def Let_def nat_and_63 nat_drop_6 tbit_def bit_or_iff nth_list_update)
    also have "(n mod 64 = s mod 64 \<and> n div 64 = s div 64) \<longleftrightarrow> n = s" by (metis div_mod_decomp)
    finally show ?thesis using True by auto
  next
    case many: False
    show ?thesis
    proof (cases "s div 64 = l div 64")
      case True
      then have "tbit (set32x64Bits t s l) n \<longleftrightarrow>
          tbit t n \<or> (s mod 64 \<le> n mod 64 \<and> n mod 64 < l mod 64 \<and> n div 64 = s div 64)"
        using t many bs n by (simp add: set32x64Bits_def Let_def nat_and_63 nat_drop_6 tbit_or_column)
      also have "(s mod 64 \<le> n mod 64 \<and> n mod 64 < l mod 64 \<and> n div 64 = s div 64) \<longleftrightarrow> s \<le> n \<and> n < l"
        using True by (auto simp: le_lead_trail [of s n] less_lead_trail [of n l])
      finally show ?thesis .
    next
      case False
      then have d: "s div 64 < l div 64" using sl by (simp add: div_le_mono less_le)
      let ?lead = "if s mod 64 > 0 then s div 64 + 1 else s div 64"
      let ?t1 = "if s mod 64 > 0 then or_column t ?b (s mod 64) 64 else t"
      let ?rect = "let m = NOT (push_bit ?lead (1 :: uint32) - 1)
          in if l div 64 < 0x20 then m AND (push_bit (l div 64) 1 - 1) else m"
      let ?t2 = "if ?lead < l div 64 then or_column ?t1 ?rect 0 64 else ?t1"
      let ?last = "push_bit (if l div 64 = 0x20 then l div 64 - 1 else l div 64) (1 :: uint32)"
      have def: "set32x64Bits t s l = or_column ?t2 ?last 0 (l mod 64)"
        using many False by (simp add: set32x64Bits_def Let_def nat_and_63 nat_drop_6)
      have len: "length ?t1 = 64" "length ?t2 = 64" using t by auto
      have b1: "tbit ?t1 n \<longleftrightarrow> tbit t n \<or> (s mod 64 > 0 \<and> s mod 64 \<le> n mod 64 \<and> n div 64 = s div 64)"
        using t n bs by (auto simp: tbit_or_column)
      have "bit ?rect (n div 64) \<longleftrightarrow> ?lead \<le> n div 64 \<and> n div 64 < l div 64"
        unfolding exp_minus_1_mask Let_def
        using lead(2) by (auto simp: bit_not_iff bit_and_iff bit_mask_word)
      then have b2: "tbit ?t2 n \<longleftrightarrow> tbit ?t1 n \<or> (?lead \<le> n div 64 \<and> n div 64 < l div 64)"
        using len(1) n by (auto simp: tbit_or_column)
      have "bit ?last (n div 64) \<longleftrightarrow> n div 64 = (if l div 64 = 32 then 31 else l div 64)"
        using bit_one_word [of "if l div 64 = 32 then 31 else l div 64" "n div 64"] lead(2) sl by auto
      then have "tbit (set32x64Bits t s l) n \<longleftrightarrow> tbit ?t2 n \<or>
          (n mod 64 < l mod 64 \<and> n div 64 = (if l div 64 = 32 then 31 else l div 64))"
        unfolding def using len(2) n by (auto simp: tbit_or_column)
      moreover have "l div 64 = 32 \<Longrightarrow> l mod 64 = 0" using sl by presburger
      ultimately have "tbit (set32x64Bits t s l) n \<longleftrightarrow> tbit t n \<or>
          (s mod 64 > 0 \<and> s mod 64 \<le> n mod 64 \<and> n div 64 = s div 64) \<or>
          (?lead \<le> n div 64 \<and> n div 64 < l div 64) \<or> (n mod 64 < l mod 64 \<and> n div 64 = l div 64)"
        using b1 b2 by auto
      also have "\<dots> \<longleftrightarrow> tbit t n \<or> (s \<le> n \<and> n < l)"
        using d by (auto simp: le_lead_trail [of s n] less_lead_trail [of n l] not_less)
      finally show ?thesis .
    qed
  qed
qed

section \<open>Reading the ranges\<close>

text \<open>
  A range that was read and the unread rest of the list: a proper range or the end marker, followed
  by later ranges.
\<close>

definition pending :: "int \<Rightarrow> int \<Rightarrow> int list \<Rightarrow> bool" where
  "pending s l rest \<longleftrightarrow> 0 \<le> s \<and> (s < l \<and> l \<le> UNICODESET_HIGH \<or> s = UNICODESET_HIGH \<and> l = UNICODESET_HIGH) \<and>
     (if rest = [] then l = UNICODESET_HIGH else wf_inv rest \<and> l < hd rest)"

definition remaining :: "int \<Rightarrow> int \<Rightarrow> int list \<Rightarrow> int set" where
  "remaining s l rest = {s..<l} \<union> inv_set rest"

lemma wf_inv_tl: "wf_inv (x # xs) \<Longrightarrow> xs \<noteq> [] \<Longrightarrow> wf_inv xs \<and> x < hd xs"
  by (cases xs) (auto simp: wf_inv_def)

lemma read_range_wf:
  assumes "wf_inv xs"
  obtains s l r where "read_range xs = Some (s, l, r)" "pending s l r" "inv_set xs = remaining s l r"
    "length r < length xs" "hd xs = s"
proof (cases xs rule: read_range.cases)
  case 1
  then show ?thesis using assms by (simp add: wf_inv_def)
next
  case (2 x)
  then show ?thesis using assms by (intro that [of x UNICODESET_HIGH "[]"])
      (auto simp: wf_inv_def pending_def remaining_def)
next
  case (3 x y r)
  have "x < y" "0 \<le> x" using assms 3 by (auto simp: wf_inv_def)
  moreover have "r = [] \<Longrightarrow> y = UNICODESET_HIGH" using assms 3 by (auto simp: wf_inv_def)
  moreover have "y \<le> UNICODESET_HIGH" using wf_inv_le [OF assms] 3 by simp
  moreover have "r \<noteq> [] \<Longrightarrow> wf_inv r \<and> y < hd r"
    using wf_inv_tl [of x "y # r"] wf_inv_tl [of y r] assms 3 by simp
  ultimately show ?thesis
    using 3 by (intro that [of x y r]) (auto simp: pending_def remaining_def)
qed

lemma inv_set_lower: "wf_inv xs \<Longrightarrow> c \<in> inv_set xs \<Longrightarrow> hd xs \<le> c"
  using inv_set_bounds [of "hd xs - 1" xs] wf_inv_inv_list [of xs]
  by (cases xs) (fastforce split: if_splits)+

lemma pending_rest:
  assumes "pending s l r" and "l < UNICODESET_HIGH"
  shows "wf_inv r" and "\<And>c. c \<in> inv_set r \<Longrightarrow> l < c"
  using assms inv_set_lower by (fastforce simp: pending_def split: if_splits)+

lemma pending_above: "pending s l r \<Longrightarrow> c \<in> inv_set r \<Longrightarrow> l < c \<and> s < c"
  using inv_set_lower [of r c] inv_set_range [OF wf_inv_inv_list, of r c]
  by (auto simp: pending_def split: if_splits)

section \<open>ASCII\<close>

lemma ascii_fill_correct:
  assumes "0 \<le> s" "s < l" "s < 0x80" "length bytes = 0xc0" "ascii_fill bytes s l = (bytes', s')"
  shows "s' = min l 0x80 \<and> length bytes' = 0xc0 \<and>
    (\<forall>k < 0x80. bytes' ! k \<longleftrightarrow> bytes ! k \<or> (s \<le> int k \<and> int k < l))"
  using assms
proof (induction bytes s l arbitrary: bytes' s' rule: ascii_fill.induct)
  case (1 bytes s l)
  have n: "nat s < length bytes" using 1 by simp
  show ?case
  proof (cases "s + 1 < l \<and> s + 1 < 0x80")
    case True
    then have f: "ascii_fill (bytes[nat s := True]) (s + 1) l = (bytes', s')"
      using "1.prems"(5) by (subst (asm) ascii_fill.simps) (simp add: Let_def)
    have "s' = min l 0x80 \<and> length bytes' = 0xc0 \<and> (\<forall>k < 0x80. bytes' ! k \<longleftrightarrow>
        bytes[nat s := True] ! k \<or> (s + 1 \<le> int k \<and> int k < l))"
      using "1.IH" [OF refl refl True _ _ _ _ f] "1.prems" True by simp
    then show ?thesis using n "1.prems"(1,2) by (auto simp: nth_list_update)
  next
    case False
    then have "bytes' = bytes[nat s := True]" "s' = s + 1"
      using "1.prems"(5) by (auto simp: ascii_fill.simps [of bytes s l] Let_def)
    moreover have "s + 1 = min l 0x80" using False "1.prems"(2,3) by auto
    ultimately show ?thesis using n "1.prems" by (auto simp: nth_list_update)
  qed
qed

lemma initBits_ascii_correct:
  assumes "wf_inv xs" "length bytes = 0xc0"
  shows "\<exists>bytes' s l r. initBits_ascii xs bytes = Some (bytes', s, l, r) \<and> length bytes' = 0xc0 \<and>
    pending s l r \<and> 0x80 \<le> s \<and> (\<forall>k < 0x80. bytes' ! k \<longleftrightarrow> bytes ! k \<or> int k \<in> inv_set xs) \<and>
    (\<forall>c \<ge> 0x80. c \<in> inv_set xs \<longleftrightarrow> c \<in> remaining s l r)"
  using assms
proof (induction xs bytes rule: initBits_ascii.induct)
  case (1 xs bytes)
  obtain s l r where rr: "read_range xs = Some (s, l, r)" "pending s l r" "inv_set xs = remaining s l r"
    using read_range_wf [OF "1.prems"(1)] by metis
  show ?case
  proof (cases "s \<ge> 0x80")
    case True
    then have "k < 0x80 \<Longrightarrow> int k \<notin> inv_set xs" for k
      using pending_above [OF rr(2), of "int k"] rr(3) by (auto simp: remaining_def)
    with True rr "1.prems" show ?thesis by (auto simp: initBits_ascii.simps [of xs bytes])
  next
    case False
    obtain bytes1 s1 where f: "ascii_fill bytes s l = (bytes1, s1)" by fastforce
    have sl: "0 \<le> s" "s < l" using rr(2) False by (auto simp: pending_def)
    note F = ascii_fill_correct [OF sl _ "1.prems"(2) f]
    have F': "s1 = min l 0x80" "length bytes1 = 0xc0"
      "\<forall>k < 0x80. bytes1 ! k \<longleftrightarrow> bytes ! k \<or> (s \<le> int k \<and> int k < l)"
      using F False by auto
    have init: "initBits_ascii xs bytes =
        (if l \<le> 0x80 then initBits_ascii r bytes1 else Some (bytes1, s1, l, r))"
      using False rr f by (simp add: initBits_ascii.simps [of xs bytes])
    show ?thesis
    proof (cases "l \<le> 0x80")
      case True
      then have "l < UNICODESET_HIGH" by simp
      note P = pending_rest [OF rr(2) this]
      from "1.IH" [OF rr(1) refl refl False f [symmetric] True P(1) F'(2)]
      show ?thesis using init True F'(3) rr(3) by (auto simp: remaining_def)
    next
      case l: False
      then have "k < 0x80 \<Longrightarrow> int k \<in> inv_set xs \<longleftrightarrow> s \<le> int k \<and> int k < l" for k
        using pending_above [OF rr(2), of "int k"] rr(3) by (auto simp: remaining_def)
      moreover have "pending s1 l r" using rr(2) l F'(1) by (auto simp: pending_def)
      ultimately show ?thesis using init l F' rr(3) \<open>\<not> 0x80 \<le> s\<close> by (auto simp: remaining_def)
    qed
  qed
qed

section \<open>Code points below U+0800\<close>

lemma length_set32x64Bits [simp]: "length (set32x64Bits t s l) = length t"
  by (simp add: set32x64Bits_def Let_def)

lemma initBits_7FF_correct:
  assumes "pending s l r" "0x80 \<le> s" "length t = 64"
  shows "\<exists>t' s' l' r'. initBits_7FF t s l r = Some (t', s', l', r') \<and> length t' = 64 \<and>
    pending s' l' r' \<and> 0x800 \<le> s' \<and> (\<forall>n < 0x800. tbit t' n \<longleftrightarrow> tbit t n \<or> int n \<in> remaining s l r) \<and>
    (\<forall>c \<ge> 0x800. c \<in> remaining s l r \<longleftrightarrow> c \<in> remaining s' l' r')"
  using assms
proof (induction t s l r rule: initBits_7FF.induct)
  case (1 t s l r)
  show ?case
  proof (cases "s < 0x800")
    case False
    then have "n < 0x800 \<Longrightarrow> int n \<notin> remaining s l r" for n
      using pending_above [OF "1.prems"(1), of "int n"] by (auto simp: remaining_def)
    with False "1.prems" show ?thesis by (auto simp: initBits_7FF.simps [of t s l r])
  next
    case True
    let ?l = "nat (if l \<le> 0x800 then l else 0x800)"
    let ?t = "set32x64Bits t (nat s) ?l"
    have sl: "s < l" using "1.prems"(1) True by (auto simp: pending_def)
    have T: "tbit ?t n \<longleftrightarrow> tbit t n \<or> (s \<le> int n \<and> int n < l)" if "n < 0x800" for n
    proof -
      have "nat s < ?l" "?l \<le> 0x800" using sl True "1.prems"(2) by auto
      from set32x64Bits_tbit [OF "1.prems"(3) this, of n] that show ?thesis
        using "1.prems"(2) by auto
    qed
    show ?thesis
    proof (cases "l > 0x800")
      case l: True
      have "int n \<notin> inv_set r" if "n < 0x800" for n
        using pending_above [OF "1.prems"(1), of "int n"] that l by auto
      moreover have "pending 0x800 l r" using "1.prems"(1) l by (auto simp: pending_def)
      moreover have "initBits_7FF t s l r = Some (?t, 0x800, l, r)"
        using True l by (simp add: initBits_7FF.simps [of t s l r])
      ultimately show ?thesis using T True "1.prems"(3) by (auto simp: remaining_def)
    next
      case l: False
      then have "l < UNICODESET_HIGH" by simp
      note P = pending_rest [OF "1.prems"(1) this]
      obtain s' l' r' where rr: "read_range r = Some (s', l', r')" "pending s' l' r'"
        "inv_set r = remaining s' l' r'" "hd r = s'" using read_range_wf [OF P(1)] by metis
      have "l < s'" using "1.prems"(1) rr(4) \<open>l < UNICODESET_HIGH\<close> by (auto simp: pending_def split: if_splits)
      then have s': "0x80 \<le> s'" using sl "1.prems"(2) by linarith
      have eq: "initBits_7FF t s l r = initBits_7FF ?t s' l' r'"
        using True l rr(1) by (simp add: initBits_7FF.simps [of t s l r])
      have "length ?t = 64" using "1.prems"(3) by simp
      from "1.IH" [OF True refl l rr(1) refl refl rr(2) s' this]
      show ?thesis unfolding eq using T rr(3) l by (auto simp: remaining_def)
    qed
  qed
qed

section \<open>Blocks of 64 code points\<close>

lemma int_and_63: "c AND 0x3f = c mod 64" for c :: int
  using and_low_mask [of c 6] by (simp add: mask_eq_exp_minus_1)

lemma int_and_not_63: "c AND - 64 = 64 * (c div 64)" for c :: int
  using and_not_low_mask [of c 6] by (simp add: mask_eq_exp_minus_1 push_bit_eq_mult drop_bit_eq_div)

lemma int_drop_6: "drop_bit 6 c = c div 64" for c :: int
  by (simp add: drop_bit_eq_div)

lemma int_push_6: "push_bit 6 c = 64 * c" for c :: int
  by (simp add: push_bit_eq_mult)

lemmas block_arith = int_and_63 int_and_not_63 int_drop_6 int_push_6

lemma bit_10001: "i < 32 \<Longrightarrow> bit (0x10001 :: uint32) i \<longleftrightarrow> i = 0 \<or> i = 16"
proof -
  assume i: "i < 32"
  have "(0x10001 :: uint32) = 1 OR push_bit 16 1" by simp
  also have "bit \<dots> i \<longleftrightarrow> i = 0 \<or> i = 16"
    unfolding bit_or_iff bit_push_bit_iff bit_1_iff using i by auto
  finally show ?thesis .
qed

lemma lead_trail_eq: "n = b \<longleftrightarrow> n mod 64 = b mod 64 \<and> n div 64 = b div 64" for n b :: nat
  by (metis div_mod_decomp)

lemma tbit_mark_mixed:
  assumes "length t = 64" "b < 1024" "n < 2048"
  shows "tbit (mark_mixed t b) n \<longleftrightarrow> tbit t n \<or> n = b \<or> n = b + 1024"
proof -
  have lead: "n div 64 < 32" "b div 64 < 16" using assms by auto
  have "bit (push_bit (b div 64) (0x10001 :: uint32)) (n div 64) \<longleftrightarrow>
      n div 64 = b div 64 \<or> n div 64 = b div 64 + 16"
    using lead bit_10001 [of "n div 64 - b div 64"] by (auto simp: bit_push_bit_iff)
  then have "tbit (mark_mixed t b) n \<longleftrightarrow> tbit t n \<or>
      (n mod 64 = b mod 64 \<and> (n div 64 = b div 64 \<or> n div 64 = b div 64 + 16))"
    using assms(1) by (auto simp: mark_mixed_def Let_def nat_and_63 nat_drop_6 tbit_def bit_or_iff nth_list_update)
  also have "(n mod 64 = b mod 64 \<and> (n div 64 = b div 64 \<or> n div 64 = b div 64 + 16)) \<longleftrightarrow> n = b \<or> n = b + 1024"
  proof -
    have "(b + 1024) div 64 = b div 64 + 16" "(b + 1024) mod 64 = b mod 64"
      using div_mult_self1 [of 64 b 16] mod_mult_self1 [of b 16 64] by simp_all
    then show ?thesis
      unfolding lead_trail_eq [of n b] lead_trail_eq [of n "b + 1024"] by auto
  qed
  finally show ?thesis .
qed

lemma length_mark_mixed [simp]: "length (mark_mixed t b) = length t"
  by (simp add: mark_mixed_def Let_def)

text \<open>
  The block bits are sound for a set of code points: an all-ones block that is not mixed is in the
  set.
\<close>

definition blocks_sound :: "int set \<Rightarrow> uint32 list \<Rightarrow> bool" where
  "blocks_sound A t \<longleftrightarrow> length t = 64 \<and>
     (\<forall>k < 1024. tbit t k \<and> \<not> tbit t (k + 1024) \<longrightarrow> {64 * int k..<64 * int k + 64} \<subseteq> A)"

definition grows :: "uint32 list \<Rightarrow> uint32 list \<Rightarrow> bool" where
  "grows t t' \<longleftrightarrow> (\<forall>n < 2048. tbit t n \<longrightarrow> tbit t' n)"

lemma grows_trans: "grows t t' \<Longrightarrow> grows t' t'' \<Longrightarrow> grows t t''"
  by (simp add: grows_def)

lemma grows_refl: "grows t t"
  by (simp add: grows_def)

lemma mark_mixed_sound:
  assumes "blocks_sound A t" "b < 1024"
  shows "blocks_sound A (mark_mixed t b)" "grows t (mark_mixed t b)"
    "tbit (mark_mixed t b) b" "tbit (mark_mixed t b) (b + 1024)"
  using assms by (auto simp: blocks_sound_def grows_def tbit_mark_mixed)

lemma set_blocks_sound:
  assumes "blocks_sound A t" "s < l" "l \<le> 1024" "{64 * int s..<64 * int l} \<subseteq> A"
  shows "blocks_sound A (set32x64Bits t s l)" "grows t (set32x64Bits t s l)"
    "\<And>k. s \<le> k \<Longrightarrow> k < l \<Longrightarrow> tbit (set32x64Bits t s l) k"
proof -
  have len: "length t = 64" using assms(1) by (simp add: blocks_sound_def)
  have b: "tbit (set32x64Bits t s l) n \<longleftrightarrow> tbit t n \<or> (s \<le> n \<and> n < l)" if "n < 2048" for n
    using set32x64Bits_tbit [OF len assms(2) _ that] assms(3) by simp
  have "{64 * int k..<64 * int k + 64} \<subseteq> A" if "s \<le> k" "k < l" for k
    using assms(4) that by fastforce
  then show "blocks_sound A (set32x64Bits t s l)" "grows t (set32x64Bits t s l)"
    "\<And>k. s \<le> k \<Longrightarrow> k < l \<Longrightarrow> tbit (set32x64Bits t s l) k"
    using assms b by (auto simp: blocks_sound_def grows_def)
qed

text \<open>The bits of the block of a code point.\<close>

abbreviation block :: "int \<Rightarrow> nat" where "block c \<equiv> nat (c div 64)"

definition mixed :: "uint32 list \<Rightarrow> nat \<Rightarrow> bool" where
  "mixed t b \<longleftrightarrow> tbit t b \<and> tbit t (b + 1024)"

lemma mixed_grows: "mixed t b \<Longrightarrow> grows t t' \<Longrightarrow> b < 1024 \<Longrightarrow> mixed t' b"
  by (auto simp: mixed_def grows_def)

lemma bmp_block_range_correct:
  assumes t: "blocks_sound A t" and m: "minS mod 64 = 0" "minS \<le> 0x10000"
    and sl: "0 \<le> s" "l \<le> 0x10000" and A: "{s..<l} \<subseteq> A"
    and r: "bmp_block_range t minS s l = (t', minS', l')"
  shows "blocks_sound A t'" and "grows t t'" and "\<And>c. s \<le> c \<Longrightarrow> c < l \<Longrightarrow> tbit t' (block c)"
    and "minS' = minS \<or> (\<exists>b < 1024. minS' = 64 * (int b + 1) \<and> 64 * int b \<le> l \<and> mixed t' b)"
    and "l' = l \<or> (l' = minS' \<and> l \<noteq> 0x10000)"
proof -
  define t1 where "t1 = (if s mod 64 \<noteq> 0 then mark_mixed t (block s) else t)"
  define s1 where "s1 = (if s mod 64 \<noteq> 0 then 64 * (s div 64 + 1) else s)"
  define m1 where "m1 = (if s mod 64 \<noteq> 0 then s1 else minS)"
  define t2 where "t2 = (if s1 < 64 * (l div 64) then set32x64Bits t1 (block s1) (block l) else t1)"
  have res: "bmp_block_range t minS s l =
      (if s < l then if s1 < l then if l mod 64 \<noteq> 0
         then (mark_mixed t2 (block l), 64 * (l div 64 + 1), 64 * (l div 64 + 1))
         else (t2, m1, l) else (t1, m1, l) else (t, minS, l))"
    by (simp add: bmp_block_range_def Let_def block_arith t1_def s1_def m1_def t2_def)
  have len: "block s < 1024" if "s < l" using sl that by linarith
  have T1: "blocks_sound A t1" "grows t t1" "s < s1 \<Longrightarrow> s < l \<Longrightarrow> mixed t1 (block s)" if "s < l"
    using mark_mixed_sound [OF t len [OF that]] t
    by (auto simp: t1_def s1_def mixed_def grows_refl)
  have S1: "s1 mod 64 = 0" "s \<le> s1" "s1 < s + 64"
    unfolding s1_def by presburger+
  have S1': "c div 64 = s div 64 \<and> s < s1" if "s \<le> c" "c < s1" for c
    using that unfolding s1_def by (auto split: if_splits)
  have T2: "blocks_sound A t2" "grows t1 t2" "\<And>c. s1 \<le> c \<Longrightarrow> c < 64 * (l div 64) \<Longrightarrow> tbit t2 (block c)"
    if s: "s < l"
  proof -
    have "blocks_sound A t2 \<and> grows t1 t2 \<and> (\<forall>c. s1 \<le> c \<longrightarrow> c < 64 * (l div 64) \<longrightarrow> tbit t2 (block c))"
    proof (cases "s1 < 64 * (l div 64)")
      case True
      have s1: "0 \<le> s1" "64 * (s1 div 64) = s1" "0 \<le> l div 64" using S1 sl s by auto
      have lt: "block s1 < block l" "block l \<le> 1024" using True s1 sl by linarith+
      have "{64 * int (block s1)..<64 * int (block l)} \<subseteq> {s..<l}" using s1 S1(2) by auto
      then have sub: "{64 * int (block s1)..<64 * int (block l)} \<subseteq> A" using A by blast
      have "block s1 \<le> block c \<and> block c < block l" if "s1 \<le> c" "c < 64 * (l div 64)" for c
        using that s1 by linarith
      then show ?thesis
        using set_blocks_sound [OF T1(1) [OF s] lt sub] True by (auto simp: t2_def)
    qed (use T1(1) [OF s] in \<open>auto simp: t2_def grows_refl\<close>)
    then show "blocks_sound A t2" "grows t1 t2"
      "\<And>c. s1 \<le> c \<Longrightarrow> c < 64 * (l div 64) \<Longrightarrow> tbit t2 (block c)" by auto
  qed
  consider (none) "\<not> s < l" | (inner) "s < l" "\<not> s1 < l"
    | (aligned) "s < l" "s1 < l" "l mod 64 = 0" | (both) "s < l" "s1 < l" "l mod 64 \<noteq> 0" by blast
  then have "blocks_sound A t' \<and> grows t t' \<and> (\<forall>c. s \<le> c \<longrightarrow> c < l \<longrightarrow> tbit t' (block c)) \<and>
     (minS' = minS \<or> (\<exists>b < 1024. minS' = 64 * (int b + 1) \<and> 64 * int b \<le> l \<and> mixed t' b)) \<and>
     (l' = l \<or> (l' = minS' \<and> l \<noteq> 0x10000))"
  proof cases
    case none
    then have "t' = t" "minS' = minS" "l' = l" using res r by auto
    with none t show ?thesis by (auto simp: grows_refl)
  next
    case inner
    have "t' = t1" "minS' = m1" "l' = l" using res r inner by auto
    moreover have "s < s1" using inner by linarith
    moreover from this have "m1 = 64 * (int (block s) + 1)" using sl by (auto simp: m1_def s1_def)
    moreover have "64 * int (block s) \<le> l" using inner sl by linarith
    moreover have "tbit t1 (block c)" if "s \<le> c" "c < l" for c
      using T1(3) [OF inner(1) _ inner(1)] S1' [of c] that inner(2) by (auto simp: mixed_def)
    ultimately show ?thesis using T1 [OF inner(1)] len [OF inner(1)] inner(1) by blast
  next
    case aligned
    have out: "t' = t2" "minS' = m1" "l' = l" using res r aligned by auto
    have cover: "tbit t2 (block c)" if c: "s \<le> c" "c < l" for c
    proof (cases "c < s1")
      case True
      then have "mixed t1 (block c)" using T1(3) [OF aligned(1) _ aligned(1)] S1' [OF c(1)] by simp
      moreover have "block c < 1024" using c sl by linarith
      ultimately show ?thesis using T2(2) [OF aligned(1)] by (auto simp: mixed_def grows_def)
    next
      case False
      then show ?thesis using T2(3) [OF aligned(1), of c] c aligned(3) by auto
    qed
    have "m1 = minS \<or> (m1 = 64 * (int (block s) + 1) \<and> 64 * int (block s) \<le> l \<and> mixed t2 (block s))"
    proof (cases "s mod 64 = 0")
      case False
      then have "s < s1" using S1(1,2) by (metis order_le_less)
      then have "mixed t2 (block s)"
        using mixed_grows [OF T1(3) T2(2)] aligned(1) len by blast
      moreover have "64 * int (block s) \<le> l" using aligned(1) sl by linarith
      ultimately show ?thesis using False sl by (auto simp: m1_def s1_def)
    qed (simp add: m1_def)
    then show ?thesis
      using out cover T2 [OF aligned(1)] grows_trans [OF T1(2) T2(2)] aligned(1) len by blast
  next
    case both
    let ?t = "mark_mixed t2 (block l)"
    have out: "t' = ?t" "minS' = 64 * (l div 64 + 1)" "l' = minS'" using res r both by auto
    have l1: "l \<noteq> 0x10000" using both(3) by auto
    then have l: "block l < 1024" "0 \<le> l div 64" "l \<noteq> 0x10000" using both sl by linarith+
    note M = mark_mixed_sound [OF T2(1) [OF both(1)] l(1)]
    have cover: "tbit ?t (block c)" if c: "s \<le> c" "c < l" for c
    proof -
      have b: "block c < 1024" using c sl by linarith
      consider "c < s1" | "s1 \<le> c" "c < 64 * (l div 64)" | "64 * (l div 64) \<le> c" by linarith
      then show ?thesis
      proof cases
        case 1
        then have "mixed t1 (block c)" using T1(3) [OF both(1) _ both(1)] S1' [OF c(1)] by simp
        then show ?thesis using T2(2) [OF both(1)] M(2) b by (auto simp: mixed_def grows_def)
      next
        case 2
        then show ?thesis using T2(3) [OF both(1), of c] M(2) b by (auto simp: grows_def)
      next
        case 3
        then have "c div 64 = l div 64" using c(2) by linarith
        then show ?thesis using M(3) by simp
      qed
    qed
    have "mixed ?t (block l)" "minS' = 64 * (int (block l) + 1)" "64 * int (block l) \<le> l"
      using M(3,4) out l sl both by (auto simp: mixed_def)
    then show ?thesis
      using out cover M grows_trans [OF grows_trans [OF T1(2) T2(2)] M(2)] both(1) l by blast
  qed
  then show "blocks_sound A t'" and "grows t t'" and "\<And>c. s \<le> c \<Longrightarrow> c < l \<Longrightarrow> tbit t' (block c)"
    and "minS' = minS \<or> (\<exists>b < 1024. minS' = 64 * (int b + 1) \<and> 64 * int b \<le> l \<and> mixed t' b)"
    and "l' = l \<or> (l' = minS' \<and> l \<noteq> 0x10000)"
    by blast+
qed

text \<open>
  The third loop: \<open>A\<close> is the whole set.  Code points already passed have the bit of their block;
  code points still to come below \<open>minStart\<close> lie in a mixed block.
\<close>

definition bmp_state :: "int set \<Rightarrow> uint32 list \<Rightarrow> int \<Rightarrow> int \<Rightarrow> int \<Rightarrow> int list \<Rightarrow> bool" where
  "bmp_state A t minS s l r \<longleftrightarrow> blocks_sound A t \<and> pending s l r \<and> 0x800 \<le> s \<and> minS mod 64 = 0 \<and>
     minS \<le> 0x10000 \<and> remaining s l r \<subseteq> A \<and>
     (\<forall>c \<in> A - remaining s l r. 0x800 \<le> c \<longrightarrow> c < 0x10000 \<longrightarrow> tbit t (block c)) \<and>
     (\<forall>c \<in> remaining s l r. c < minS \<longrightarrow> mixed t (block c))"

lemma block_less: "0 \<le> c \<Longrightarrow> c < 0x10000 \<Longrightarrow> block c < 1024"
  by linarith

lemma block_of: "64 * int b \<le> c \<Longrightarrow> c < 64 * (int b + 1) \<Longrightarrow> block c = b"
proof -
  assume "64 * int b \<le> c" "c < 64 * (int b + 1)"
  then have "c div 64 = int b" by (intro int_div_pos_eq [of c 64 _ "c - 64 * int b"]) auto
  then show ?thesis by simp
qed

lemma initBits_bmp_correct:
  assumes "bmp_state A t minS s l r"
  shows "\<exists>t'. initBits_bmp t minS s l r = Some t' \<and> blocks_sound A t' \<and>
    (\<forall>c \<in> A. 0x800 \<le> c \<longrightarrow> c < 0x10000 \<longrightarrow> tbit t' (block c))"
  using assms
proof (induction t minS s l r rule: initBits_bmp.induct)
  case (1 t minS s l r)
  note st = "1.prems" [unfolded bmp_state_def]
  show ?case
  proof (cases "s < 0x10000")
    case False
    then have "\<forall>c \<in> remaining s l r. 0x10000 \<le> c"
      using pending_above st by (fastforce simp: remaining_def)
    with False st show ?thesis by (fastforce simp: initBits_bmp.simps [of t minS s l r])
  next
    case True
    let ?l = "if l > 0x10000 then 0x10000 else l"
    let ?s = "if s < minS then minS else s"
    obtain t' minS' l' where r: "bmp_block_range t minS ?s ?l = (t', minS', l')" by (metis prod_cases3)
    have A: "{?s..<?l} \<subseteq> A" using st by (auto simp: remaining_def)
    have bounds: "0 \<le> ?s" "?l \<le> 0x10000" using st by auto
    note B = bmp_block_range_correct [OF _ _ _ bounds A r]
    have B': "blocks_sound A t'" "grows t t'" "\<And>c. ?s \<le> c \<Longrightarrow> c < ?l \<Longrightarrow> tbit t' (block c)"
      "minS' = minS \<or> (\<exists>b < 1024. minS' = 64 * (int b + 1) \<and> 64 * int b \<le> ?l \<and> mixed t' b)"
      "l' = ?l \<or> (l' = minS' \<and> ?l \<noteq> 0x10000)"
      using B st by auto
    have passed: "tbit t' (block c)" if c: "c \<in> A" "0x800 \<le> c" "c < 0x10000" "c \<notin> inv_set r" for c
    proof (cases "c \<in> remaining s l r \<and> minS \<le> c")
      case True
      then show ?thesis using B'(3) [of c] c by (auto simp: remaining_def)
    next
      case False
      then have "tbit t (block c)" using st c by (auto simp: mixed_def)
      then show ?thesis using B'(2) block_less [of c] c by (auto simp: grows_def)
    qed
    have later: "mixed t' (block c)" if c: "c \<in> inv_set r" "c < minS'" "c < 0x10000" for c
    proof -
      have gt: "l < c" "0 \<le> c" "?l \<le> c" using pending_above [OF _ c(1)] st c(3) by fastforce+
      from B'(4) show ?thesis
      proof (elim disjE exE conjE)
        assume "minS' = minS"
        then have "mixed t (block c)" using st c by (auto simp: remaining_def)
        then show ?thesis using mixed_grows [OF _ B'(2)] block_less gt(2) c(3) by blast
      next
        fix b assume "minS' = 64 * (int b + 1)" "64 * int b \<le> ?l" "mixed t' b"
        then show ?thesis using block_of [of b c] c gt(3) by auto
      qed
    qed
    have m': "minS' mod 64 = 0" "minS' \<le> 0x10000"
      using B'(4) st by auto
    show ?thesis
    proof (cases "l' = 0x10000")
      case stop: True
      have "tbit t' (block c)" if c: "c \<in> A" "0x800 \<le> c" "c < 0x10000" for c
      proof (cases "c \<in> inv_set r")
        case in_rest: True
        have "l < c" using pending_above in_rest st by blast
        then have "minS' = 0x10000" using B'(5) stop c(3) by (auto split: if_splits)
        then show ?thesis using later [OF in_rest] c(3) by (auto simp: mixed_def)
      qed (use passed c in blast)
      then show ?thesis using True stop r B'(1) by (auto simp: initBits_bmp.simps [of t minS s l r])
    next
      case go: False
      then have l: "l < 0x10000" using B'(5) by (auto split: if_splits)
      then have "l < UNICODESET_HIGH" by simp
      note P = pending_rest [OF conjunct1 [OF conjunct2 [OF st]] this]
      obtain s2 l2 r2 where rr: "read_range r = Some (s2, l2, r2)" "pending s2 l2 r2"
        "inv_set r = remaining s2 l2 r2" "hd r = s2" using read_range_wf [OF P(1)] by metis
      have "l < s2" using st rr(4) \<open>l < UNICODESET_HIGH\<close> by (auto simp: pending_def split: if_splits)
      then have s2: "0x800 \<le> s2" using st True by (auto simp: pending_def)
      have eq: "initBits_bmp t minS s l r = initBits_bmp t' minS' s2 l2 r2"
        using True go r rr(1) by (simp add: initBits_bmp.simps [of t minS s l r])
      have "bmp_state A t' minS' s2 l2 r2"
        unfolding bmp_state_def using B'(1) rr(2) s2 m' st passed later rr(3)
        by (auto simp: remaining_def)
      from "1.IH" [OF True refl refl r [symmetric] refl go rr(1) refl refl this]
      show ?thesis unfolding eq .
    qed
  qed
qed

section \<open>Searching in an index range\<close>

lemma BMPSet_findCodePoint_eq:
  assumes wf: "wf_inv xs" and lo: "\<And>j. j < lo \<Longrightarrow> xs ! j \<le> c" and hi: "lo \<le> hi" "hi < length xs" "c < xs ! hi"
  shows "BMPSet_findCodePoint xs c lo hi = findCodePoint_list xs c"
proof -
  have s: "sorted_wrt (<) xs" using wf by (simp add: wf_inv_def)
  have "xs ! hi \<le> UNICODESET_HIGH" using wf_inv_le [OF wf] hi(2) by simp
  then have c: "c < UNICODESET_HIGH" using hi(3) by simp
  let ?f = "BMPSet_findCodePoint xs c lo hi"
  have "?f < length xs \<and> c < xs ! ?f \<and> (\<forall>j < ?f. xs ! j \<le> c)"
  proof -
    consider "c < xs ! lo" | "\<not> c < xs ! lo" "lo \<ge> hi \<or> c \<ge> xs ! (hi - 1)"
      | "\<not> c < xs ! lo" "lo < hi" "c < xs ! (hi - 1)" by linarith
    then show ?thesis
    proof cases
      case 1
      then show ?thesis using lo hi by (simp add: BMPSet_findCodePoint_def)
    next
      case 2
      then have "lo < hi" using hi by (metis order_le_less)
      then have "xs ! (hi - 1) \<le> c" using 2 by auto
      then have "\<forall>j < hi. xs ! j \<le> c"
        using s hi(2) by (metis One_nat_def Suc_pred less_Suc_eq linorder_not_less not_less_eq
            order_le_less order_trans sorted_wrt_nth_less zero_order(3) diff_less less_imp_diff_less)
      then show ?thesis using 2 hi by (simp add: BMPSet_findCodePoint_def)
    next
      case 3
      then show ?thesis
        using findCodePoint_loop_correct [OF 3(2) hi(2) s] hi(3) by (simp add: BMPSet_findCodePoint_def)
    qed
  qed
  moreover note findCodePoint_list_correct [OF wf c]
  ultimately show ?thesis by (metis linorder_neqE_nat not_le)
qed

section \<open>Finding the list segment\<close>

lemma starts_4k_eq:
  assumes wf: "wf_inv xs" and "i + n \<le> 17" and "\<And>j. j < prev \<Longrightarrow> xs ! j \<le> int i * 4096" and "prev < length xs"
  shows "starts_4k xs prev i n = map (\<lambda>i. findCodePoint_list xs (int i * 4096)) [i..<i + n] @ [length xs - 1]"
  using assms(2-4)
proof (induction n arbitrary: i prev)
  case (Suc n)
  have last: "xs ! (length xs - 1) = UNICODESET_HIGH" "xs \<noteq> []"
    using wf by (auto simp: wf_inv_def last_conv_nth)
  have c: "int i * 4096 < UNICODESET_HIGH" using Suc.prems(1) by simp
  have e: "int (push_bit 12 i) = int i * 4096" by (simp add: push_bit_eq_mult)
  let ?f = "findCodePoint_list xs (int i * 4096)"
  have f: "BMPSet_findCodePoint xs (int i * 4096) prev (length xs - 1) = ?f"
    by (rule BMPSet_findCodePoint_eq [OF wf Suc.prems(2)]) (use Suc.prems(3) last c in auto)
  note F = findCodePoint_list_correct [OF wf c]
  have "starts_4k xs ?f (Suc i) n = map (\<lambda>i. findCodePoint_list xs (int i * 4096)) [Suc i..<Suc i + n] @ [length xs - 1]"
    using F Suc.prems by (intro Suc.IH) fastforce+
  then show ?case using f by (simp add: Let_def e upt_conv_Cons del: upt_Suc)
qed simp

lemma starts_nth:
  assumes wf: "wf_inv xs"
  defines "s0 \<equiv> BMPSet_findCodePoint xs 0x800 0 (length xs - 1)"
  defines "starts \<equiv> s0 # starts_4k xs s0 1 0x10"
  shows "starts ! 0 = findCodePoint_list xs 0x800"
    and "\<And>i. 1 \<le> i \<Longrightarrow> i \<le> 16 \<Longrightarrow> starts ! i = findCodePoint_list xs (int i * 4096)"
    and "starts ! 17 = length xs - 1"
proof -
  have last: "xs ! (length xs - 1) = UNICODESET_HIGH" "xs \<noteq> []"
    using wf by (auto simp: wf_inv_def last_conv_nth)
  have s0: "s0 = findCodePoint_list xs 0x800"
    unfolding s0_def by (rule BMPSet_findCodePoint_eq [OF wf]) (use last in auto)
  have F: "s0 < length xs" "\<forall>j < s0. xs ! j \<le> 0x800"
    using findCodePoint_list_correct [OF wf, where c = "0x800"] s0 by auto
  have st: "starts_4k xs s0 1 0x10 = map (\<lambda>i. findCodePoint_list xs (int i * 4096)) [1..<1 + 0x10] @ [length xs - 1]"
    by (rule starts_4k_eq [OF wf]) (use F in fastforce)+
  show "starts ! 0 = findCodePoint_list xs 0x800" by (simp add: starts_def s0)
  show "starts ! i = findCodePoint_list xs (int i * 4096)" if "1 \<le> i" "i \<le> 16" for i
    using that st by (cases i) (simp_all add: starts_def nth_append del: upt_Suc)
  show "starts ! 17 = length xs - 1" using st by (simp add: starts_def nth_append del: upt_Suc)
qed

lemma containsSlow_block:
  assumes wf: "wf_inv xs" and lo: "lo = findCodePoint_list xs a" "a \<le> c"
    and hi: "hi = findCodePoint_list xs b" "c < b" "b < UNICODESET_HIGH"
  shows "BMPSet_containsSlow xs c lo hi \<longleftrightarrow> c \<in> inv_set xs"
proof -
  have ab: "a < UNICODESET_HIGH" "c < UNICODESET_HIGH" using assms by auto
  note L = findCodePoint_list_correct [OF wf ab(1)] and H = findCodePoint_list_correct [OF wf hi(3)]
  have "lo \<le> hi"
  proof (rule ccontr)
    assume "\<not> lo \<le> hi"
    then have "xs ! hi \<le> a" using L lo(1) by simp
    then show False using H hi lo(2) by simp
  qed
  then have "BMPSet_findCodePoint xs c lo hi = findCodePoint_list xs c"
    using L H assms by (intro BMPSet_findCodePoint_eq [OF wf]) (fastforce, simp_all)
  then show ?thesis using findCodePoint_odd_iff [OF wf ab(2)] by (simp add: BMPSet_containsSlow_def)
qed

lemma containsSlow_end:
  assumes wf: "wf_inv xs" and lo: "lo = findCodePoint_list xs a" "a \<le> c" "c < UNICODESET_HIGH"
  shows "BMPSet_containsSlow xs c lo (length xs - 1) \<longleftrightarrow> c \<in> inv_set xs"
proof -
  have last: "xs ! (length xs - 1) = UNICODESET_HIGH" "xs \<noteq> []"
    using wf by (auto simp: wf_inv_def last_conv_nth)
  have "a < UNICODESET_HIGH" using lo by simp
  note L = findCodePoint_list_correct [OF wf this]
  have "BMPSet_findCodePoint xs c lo (length xs - 1) = findCodePoint_list xs c"
    using L lo last by (intro BMPSet_findCodePoint_eq [OF wf]) (fastforce, linarith, simp_all)
  then show ?thesis using findCodePoint_odd_iff [OF wf lo(3)] by (simp add: BMPSet_containsSlow_def)
qed

section \<open>Overriding and looking up\<close>

lemma and_push_one: "k < 32 \<Longrightarrow> (w :: uint32) AND push_bit k 1 \<noteq> 0 \<longleftrightarrow> bit w k"
  by (simp add: push_bit_of_1 and_exp_eq_0_iff_not_bit)

lemma two_bits:
  assumes "lead < 16"
  shows "drop_bit lead (w :: uint32) AND 0x10001 =
    (if bit w lead then 1 else 0) + (if bit w (lead + 16) then 0x10000 else 0)"
proof -
  have "drop_bit lead w AND 0x10001 = (if bit w lead then 1 else 0) OR (if bit w (lead + 16) then push_bit 16 1 else 0)"
  proof (rule bit_word_eqI)
    fix n assume "n < LENGTH(32)"
    then have n: "n < 32" by simp
    have h: "bit (0x10000 :: uint32) n \<longleftrightarrow> n = 16" using bit_one_word [of 16 n] n by simp
    show "bit (drop_bit lead w AND 0x10001) n \<longleftrightarrow>
        bit ((if bit w lead then 1 else 0) OR (if bit w (lead + 16) then push_bit 16 (1 :: uint32) else 0)) n"
      unfolding bit_and_iff bit_or_iff bit_drop_bit_eq comp_def bit_10001 [OF n]
      using n assms h by (cases "n = 0"; cases "n = 16") (simp_all add: bit_1_iff)
  qed
  then show ?thesis by auto
qed


lemma two_bits_test:
  assumes "lead < 16"
  shows "drop_bit lead (w :: uint32) AND 0x10001 \<le> 1 \<longleftrightarrow> \<not> bit w (lead + 16)"
    and "\<not> bit w (lead + 16) \<Longrightarrow> drop_bit lead w AND 0x10001 \<noteq> 0 \<longleftrightarrow> bit w lead"
  unfolding two_bits [OF assms] by (simp_all add: word_le_nat_alt)

lemma override_outside:
  assumes "BMPSet_overrideIllegal xs starts (bytes, t7, bmp) = (bytes', t7', bmp')"
    and len: "length bytes = 0xc0" "length t7 = 64" "length bmp = 64"
  shows "\<And>k. k < 0x80 \<Longrightarrow> bytes' ! k = bytes ! k"
    and "\<And>n. 0x80 \<le> n \<Longrightarrow> n < 0x800 \<Longrightarrow> tbit t7' n = tbit t7 n"
    and "\<And>n. n < 2048 \<Longrightarrow> 32 \<le> n mod 1024 \<Longrightarrow> \<not> (864 \<le> n mod 1024 \<and> n mod 1024 < 896) \<Longrightarrow>
      tbit bmp' n = tbit bmp n"
proof -
  show "bytes' ! k = bytes ! k" if "k < 0x80" for k
    using assms that by (auto simp: BMPSet_overrideIllegal_def Let_def nth_enumerate_eq split: if_splits)
  show "tbit t7' n = tbit t7 n" if n: "0x80 \<le> n" "n < 0x800" for n
  proof -
    have "2 \<le> n div 64" "n div 64 < 32" using n by simp_all
    then have "\<not> bit (3 :: uint32) (n div 64)"
      using bit_mask_word [of "n div 64" 2] by (simp add: mask_numeral)
    then show ?thesis
      using assms n by (auto simp: BMPSet_overrideIllegal_def Let_def tbit_or_column split: if_splits)
  qed
  show "tbit bmp' n = tbit bmp n"
    if n: "n < 2048" "32 \<le> n mod 1024" "\<not> (864 \<le> n mod 1024 \<and> n mod 1024 < 896)" for n
  proof -
    have k: "n div 64 < 32" "n mod 64 < length bmp" using n(1) len by auto
    have surr: "n div 64 \<noteq> 13 \<and> n div 64 \<noteq> 29" if "32 \<le> n mod 64"
    proof -
      obtain q r where q: "n div 64 = q" "n mod 64 = r" and "n = q * 64 + r" "r < 64"
        by (metis div_mult_mod_eq mod_less_divisor zero_less_numeral)
      moreover have "n mod 1024 = (if n < 1024 then n else n - 1024)" using n(1) by (simp add: le_mod_geq)
      ultimately show ?thesis using that n unfolding q by (auto split: if_splits)
    qed
    have m: "bit (NOT (push_bit 0xd (0x10001 :: uint32))) (n div 64)" if "32 \<le> n mod 64"
    proof -
      have "n div 64 \<noteq> 13 \<and> n div 64 \<noteq> 29" using surr that by blast
      then show ?thesis unfolding bit_not_iff bit_push_bit_iff using k(1) bit_10001 [of "n div 64 - 13"]
        by (auto simp: not_le)
    qed
    have o: "\<not> bit (push_bit 0xd (1 :: uint32)) (n div 64)" if "32 \<le> n mod 64"
    proof -
      have "n div 64 \<noteq> 13" using surr that by blast
      then show ?thesis using k(1) by (simp add: bit_one_word del: push_bit_of_1)
    qed
    have l: "\<not> bit (1 :: uint32) (n div 64)" if "n mod 64 < 32"
    proof -
      have "n div 64 \<noteq> 0"
      proof
        assume "n div 64 = 0"
        then have "n < 64" by simp
        then show False using that n by simp
      qed
      then show ?thesis by (simp add: bit_1_iff)
    qed
    show ?thesis
      using assms k m [simplified] o l by (auto simp: BMPSet_overrideIllegal_def Let_def tbit_def nth_enumerate_eq
          bit_and_iff bit_or_iff split: if_splits)
  qed
qed


section \<open>The lookup is membership\<close>

lemma initBits_correct:
  assumes wf: "wf_inv xs"
  shows "\<exists>bytes t7 bmp. BMPSet_initBits xs = Some (bytes, t7, bmp) \<and> length bytes = 0xc0 \<and>
    length t7 = 64 \<and> blocks_sound (inv_set xs) bmp \<and>
    (\<forall>k < 0x80. bytes ! k \<longleftrightarrow> int k \<in> inv_set xs) \<and>
    (\<forall>n. 0x80 \<le> n \<longrightarrow> n < 0x800 \<longrightarrow> (tbit t7 n \<longleftrightarrow> int n \<in> inv_set xs)) \<and>
    (\<forall>c \<in> inv_set xs. 0x800 \<le> c \<longrightarrow> c < 0x10000 \<longrightarrow> tbit bmp (block c))"
proof -
  obtain bytes s l r where a: "initBits_ascii xs (replicate 0xc0 False) = Some (bytes, s, l, r)"
    "length bytes = 0xc0" "pending s l r" "0x80 \<le> s"
    "\<forall>k < 0x80. bytes ! k \<longleftrightarrow> int k \<in> inv_set xs"
    "\<forall>c \<ge> 0x80. c \<in> inv_set xs \<longleftrightarrow> c \<in> remaining s l r"
    using initBits_ascii_correct [OF wf, of "replicate 0xc0 False"] by auto
  obtain t7 s' l' r' where b: "initBits_7FF (replicate 64 0) s l r = Some (t7, s', l', r')"
    "length t7 = 64" "pending s' l' r'" "0x800 \<le> s'"
    "\<forall>n < 0x800. tbit t7 n \<longleftrightarrow> int n \<in> remaining s l r"
    "\<forall>c \<ge> 0x800. c \<in> remaining s l r \<longleftrightarrow> c \<in> remaining s' l' r'"
    using initBits_7FF_correct [OF a(3,4), of "replicate 64 0"] by (auto simp: tbit_def)
  have low: "0x800 \<le> c" if "c \<in> remaining s' l' r'" for c
    using that b(4) pending_above [OF b(3), of c] by (auto simp: remaining_def)
  have in_iff: "c \<in> inv_set xs \<longleftrightarrow> c \<in> remaining s' l' r'" if "0x800 \<le> c" for c
    using that a(6) b(6) by auto
  have "bmp_state (inv_set xs) (replicate 64 0) 0x800 s' l' r'"
    unfolding bmp_state_def blocks_sound_def
    using b(3,4) low in_iff by (fastforce simp: tbit_def)
  from initBits_bmp_correct [OF this] obtain bmp where
    "initBits_bmp (replicate 64 0) 0x800 s' l' r' = Some bmp" "blocks_sound (inv_set xs) bmp"
    "\<forall>c \<in> inv_set xs. 0x800 \<le> c \<longrightarrow> c < 0x10000 \<longrightarrow> tbit bmp (block c)" by blast
  then show ?thesis using a b by (simp add: BMPSet_initBits_def)
qed

lemma int_drop_12: "drop_bit 12 c = c div 4096" for c :: int
  by (simp add: drop_bit_eq_div)

lemma contains_block:
  assumes wf: "wf_inv xs" and b: "blocks_sound (inv_set xs) bmp"
    "\<forall>c \<in> inv_set xs. 0x800 \<le> c \<longrightarrow> c < 0x10000 \<longrightarrow> tbit bmp (block c)"
    and c: "0x800 \<le> c" "c < 0x10000" and not_mixed: "\<not> tbit bmp (block c + 1024)"
  shows "tbit bmp (block c) \<longleftrightarrow> c \<in> inv_set xs"
proof
  assume t: "tbit bmp (block c)"
  have "block c < 1024" using block_less c by simp
  with b(1) t not_mixed have "{64 * int (block c)..<64 * int (block c) + 64} \<subseteq> inv_set xs"
    unfolding blocks_sound_def by blast
  moreover have "64 * int (block c) \<le> c" "c < 64 * int (block c) + 64" using c by linarith+
  ultimately show "c \<in> inv_set xs" by auto
qed (use b c in blast)

theorem BMPSet_contains_correct:
  assumes wf: "wf_inv xs"
  shows "\<exists>b. BMPSet_new xs = Some b \<and> parentList b = xs \<and> (\<forall>c. BMPSet_contains b c \<longleftrightarrow> c \<in> inv_set xs)"
proof -
  obtain bytes t7 bmp where i: "BMPSet_initBits xs = Some (bytes, t7, bmp)" "length bytes = 0xc0"
    "length t7 = 64" "blocks_sound (inv_set xs) bmp"
    "\<forall>k < 0x80. bytes ! k \<longleftrightarrow> int k \<in> inv_set xs"
    "\<forall>n. 0x80 \<le> n \<longrightarrow> n < 0x800 \<longrightarrow> (tbit t7 n \<longleftrightarrow> int n \<in> inv_set xs)"
    "\<forall>c \<in> inv_set xs. 0x800 \<le> c \<longrightarrow> c < 0x10000 \<longrightarrow> tbit bmp (block c)"
    using initBits_correct [OF wf] by blast
  define s0 where "s0 = BMPSet_findCodePoint xs 0x800 0 (length xs - 1)"
  define starts where "starts = s0 # starts_4k xs s0 1 0x10"
  note st = starts_nth [OF wf, folded s0_def, folded starts_def]
  obtain bytes' t7' bmp' where o: "BMPSet_overrideIllegal xs starts (bytes, t7, bmp) = (bytes', t7', bmp')"
    by (cases "BMPSet_overrideIllegal xs starts (bytes, t7, bmp)")
  have lb: "length bmp = 64" using i(4) by (simp add: blocks_sound_def)
  note O = override_outside [OF o i(2,3) lb]
  let ?b = "\<lparr>asciiBytes = bytes', table7FF = t7', bmpBlockBits = bmp', list4kStarts = starts, parentList = xs\<rparr>"
  have new: "BMPSet_new xs = Some ?b"
    using i(1) o by (simp add: BMPSet_new_def Let_def s0_def starts_def)
  have "BMPSet_contains ?b c \<longleftrightarrow> c \<in> inv_set xs" for c
  proof -
    consider "c < 0 \<or> UNICODESET_HIGH \<le> c" | "0 \<le> c" "c \<le> 0x7f" | "0x80 \<le> c" "c \<le> 0x7ff"
      | "0x800 \<le> c" "c < 0x10000" "\<not> (0xd800 \<le> c \<and> c < 0xe000)"
      | "(0xd800 \<le> c \<and> c < 0xe000) \<or> 0x10000 \<le> c" "c < UNICODESET_HIGH" by linarith
    then show ?thesis
    proof cases
      case 1
      then have "c \<notin> inv_set xs" using inv_set_bounds [OF wf_inv_inv_list [OF wf]] by force
      with 1 show ?thesis by (auto simp: BMPSet_contains_def)
    next
      case 2
      then show ?thesis using O(1) [of "nat c"] i(5) by (simp add: BMPSet_contains_def nat_less_iff)
    next
      case 3
      then have "tbit t7' (nat c) \<longleftrightarrow> c \<in> inv_set xs"
        using O(2) [of "nat c"] i(6) by (simp add: nat_less_iff)
      moreover have "nat (c div 64) < 32" "nat c mod 64 = nat (c mod 64)" "nat c div 64 = nat (c div 64)"
        using 3 by (auto simp: nat_mod_distrib nat_div_distrib)
      ultimately show ?thesis using 3
        by (simp add: BMPSet_contains_def tbit_def and_push_one block_arith del: push_bit_of_1)
    next
      case 4
      let ?n = "block c" and ?lead = "nat (c div 4096)"
      let ?w = "bmp' ! nat (c div 64 mod 64)"
      have n: "32 \<le> ?n" "?n < 1024" "\<not> (864 \<le> ?n \<and> ?n < 896)" using 4 by linarith+
      have l: "1 \<le> ?lead" "?lead < 16" if "0x1000 \<le> c" using 4 that by linarith+
      have lead: "?lead < 16" "int ?lead = c div 4096" using 4 by linarith+
      have split: "?n mod 64 = nat (c div 64 mod 64)" "?n div 64 = ?lead"
        using 4 by (simp_all add: nat_mod_distrib nat_div_distrib zdiv_zmult2_eq [symmetric])
      have split': "(?n + 1024) mod 64 = ?n mod 64" "(?n + 1024) div 64 = ?n div 64 + 16"
        using mod_mult_self1 [of ?n 16 64] div_mult_self1 [of 64 ?n 16] by simp_all
      have bits: "bit ?w ?lead = tbit bmp ?n" "bit ?w (?lead + 16) = tbit bmp (?n + 1024)"
        using O(3) [of ?n] O(3) [of "?n + 1024"] n by (simp_all only: tbit_def split' split) simp_all
      have hi: "starts ! (?lead + 1) = findCodePoint_list xs (int (?lead + 1) * 4096)"
        by (rule st(2)) (use lead in auto)
      have slow: "BMPSet_containsSlow xs c (starts ! ?lead) (starts ! (?lead + 1)) \<longleftrightarrow> c \<in> inv_set xs"
      proof (cases "?lead = 0")
        case True
        show ?thesis unfolding True
          by (rule containsSlow_block [OF wf st(1) _ hi [unfolded True]]) (use 4 True in auto)
      next
        case False
        have e: "int (?lead + 1) = c div 4096 + 1" using lead by simp
        have "int ?lead * 4096 \<le> c" "c < int (?lead + 1) * 4096" "int (?lead + 1) * 4096 < UNICODESET_HIGH"
          unfolding e lead(2) distrib_right using 4 by linarith+
        then show ?thesis
          by (intro containsSlow_block [OF wf st(2) _ hi]) (use False lead in auto)
      qed
      have bmp_or: "c < 0xd800 \<or> 0xe000 \<le> c" using 4 by linarith
      have "BMPSet_contains ?b c \<longleftrightarrow> (if bit ?w (?lead + 16) then
          BMPSet_containsSlow xs c (starts ! ?lead) (starts ! (?lead + 1)) else bit ?w ?lead)"
        using 4 two_bits_test [OF lead(1), of ?w] bmp_or
        by (simp add: BMPSet_contains_def Let_def block_arith int_drop_12)
      also have "\<dots> \<longleftrightarrow> c \<in> inv_set xs"
        using slow bits contains_block [OF wf i(4,7) 4(1,2)] by simp
      finally show ?thesis .
    next
      case 5
      have "BMPSet_contains ?b c = BMPSet_containsSlow xs c (starts ! 0xd) (starts ! 0x11)"
        using 5 by (auto simp: BMPSet_contains_def)
      also have "\<dots> \<longleftrightarrow> c \<in> inv_set xs"
        unfolding st(3) by (rule containsSlow_end [OF wf st(2)]) (use 5 in auto)
      finally show ?thesis .
    qed
  qed
  with new show ?thesis by auto
qed

end
