(* ===== verification/BMPSpan.thy ===== *)
theory BMPSpan
  imports BMPSetProps UnicodeSet
begin

text \<open>
  \<open>BMPSet::span\<close> and \<open>BMPSet::spanBack\<close> (\<open>common/bmpset.cpp\<close>): the loops over UTF-16 text that look
  each code point up in the bit tables.  They are shown equal to the plain loops at the end of
  \<open>UnicodeSet::span\<close> and \<open>UnicodeSet::spanBack\<close>, which decode with \<open>U16_NEXT\<close> and \<open>U16_PREV\<close> and test
  membership.
\<close>

section \<open>Spans\<close>

text \<open>The three table lookups for a unit that is not a surrogate.\<close>

definition BMPSet_unit :: "BMPSet \<Rightarrow> UChar \<Rightarrow> bool" where
  "BMPSet_unit bs c =
     (if c \<le> 0x7f then asciiBytes bs ! nat c
      else if c \<le> 0x7ff then table7FF bs ! nat (c AND 0x3f) AND push_bit (nat (drop_bit 6 c)) 1 \<noteq> 0
      else
        let lead = nat (drop_bit 12 c);
            twoBits = drop_bit lead (bmpBlockBits bs ! nat (drop_bit 6 c AND 0x3f)) AND 0x10001
        in if twoBits \<le> 1 then twoBits \<noteq> 0
           else BMPSet_containsSlow (parentList bs) c (list4kStarts bs ! lead)
                  (list4kStarts bs ! (lead + 1)))"

text \<open>
  \<open>BMPSet::span\<close> and \<open>BMPSet::spanBack\<close>: the source has each loop twice, once for each value of
  \<open>spanCondition\<close>, with the tests negated; \<open>cond\<close> is that value.  The index \<open>s\<close> runs over the text.
\<close>

function BMPSet_span :: "BMPSet \<Rightarrow> UChar list \<Rightarrow> nat \<Rightarrow> nat \<Rightarrow> bool \<Rightarrow> nat" where
  "BMPSet_span bs text s limit cond =
     (let c = text ! s; c2 = text ! (s + 1);
          single = (c \<ge> 0xdc00 \<or> s + 1 = limit \<or> c2 < 0xdc00 \<or> c2 \<ge> 0xe000);
          found = (if c < 0xd800 \<or> c \<ge> 0xe000 then BMPSet_unit bs c
                   else if single
                   then BMPSet_containsSlow (parentList bs) c (list4kStarts bs ! 0xd) (list4kStarts bs ! 0xe)
                   else BMPSet_containsSlow (parentList bs) (U16_GET_SUPPLEMENTARY c c2)
                          (list4kStarts bs ! 0x10) (list4kStarts bs ! 0x11))
      in if found \<noteq> cond then s
         else let s' = (if c < 0xd800 \<or> c \<ge> 0xe000 \<or> single then s + 1 else s + 2)
              in if s' < limit then BMPSet_span bs text s' limit cond else s')"
  by pat_completeness auto
termination
  by (relation "measure (\<lambda>(bs, text, s, limit, cond). limit - s)") (auto simp: Let_def split: if_splits)

function BMPSet_spanBack :: "BMPSet \<Rightarrow> UChar list \<Rightarrow> nat \<Rightarrow> nat \<Rightarrow> bool \<Rightarrow> nat" where
  "BMPSet_spanBack bs text s limit cond =
     (let limit = limit - 1; c = text ! limit; c2 = text ! (limit - 1);
          single = (c < 0xdc00 \<or> s = limit \<or> c2 < 0xd800 \<or> c2 \<ge> 0xdc00);
          found = (if c < 0xd800 \<or> c \<ge> 0xe000 then BMPSet_unit bs c
                   else if single
                   then BMPSet_containsSlow (parentList bs) c (list4kStarts bs ! 0xd) (list4kStarts bs ! 0xe)
                   else BMPSet_containsSlow (parentList bs) (U16_GET_SUPPLEMENTARY c2 c)
                          (list4kStarts bs ! 0x10) (list4kStarts bs ! 0x11))
      in if found \<noteq> cond then limit + 1
         else let limit' = (if c < 0xd800 \<or> c \<ge> 0xe000 \<or> single then limit else limit - 1)
              in if limit' \<le> s then s else BMPSet_spanBack bs text s limit' cond)"
  by pat_completeness auto
termination
  by (relation "measure (\<lambda>(bs, text, s, limit, cond). limit)") (auto simp: Let_def split: if_splits)

declare BMPSet_span.simps [simp del] BMPSet_spanBack.simps [simp del]

lemma BMPSet_unit_contains:
  "0 \<le> c \<Longrightarrow> c \<le> 0xffff \<Longrightarrow> c < 0xd800 \<or> 0xe000 \<le> c \<Longrightarrow> BMPSet_unit bs c = BMPSet_contains bs c"
  by (auto simp: BMPSet_unit_def BMPSet_contains_def Let_def)

lemma BMPSet_new_slow:
  assumes wf: "wf_inv xs" and new: "BMPSet_new xs = Some b"
  shows "0xd800 \<le> c \<Longrightarrow> c < 0xe000 \<Longrightarrow>
      BMPSet_containsSlow (parentList b) c (list4kStarts b ! 0xd) (list4kStarts b ! 0xe) \<longleftrightarrow> c \<in> inv_set xs"
    and "0x10000 \<le> c \<Longrightarrow> c < UNICODESET_HIGH \<Longrightarrow>
      BMPSet_containsSlow (parentList b) c (list4kStarts b ! 0x10) (list4kStarts b ! 0x11) \<longleftrightarrow> c \<in> inv_set xs"
proof -
  define s0 where "s0 = BMPSet_findCodePoint xs 0x800 0 (length xs - 1)"
  define starts where "starts = s0 # starts_4k xs s0 1 0x10"
  note st = starts_nth [OF wf, folded s0_def, folded starts_def]
  have b: "parentList b = xs" "list4kStarts b = starts"
    using new by (auto simp: BMPSet_new_def Let_def s0_def starts_def split: option.splits prod.splits)
  show "BMPSet_containsSlow (parentList b) c (list4kStarts b ! 0xd) (list4kStarts b ! 0xe) \<longleftrightarrow> c \<in> inv_set xs"
    if "0xd800 \<le> c" "c < 0xe000"
    unfolding b by (rule containsSlow_block [OF wf st(2) _ st(2)]) (use that in auto)
  show "BMPSet_containsSlow (parentList b) c (list4kStarts b ! 0x10) (list4kStarts b ! 0x11) \<longleftrightarrow> c \<in> inv_set xs"
    if "0x10000 \<le> c" "c < UNICODESET_HIGH"
    unfolding b st(3) by (rule containsSlow_end [OF wf st(2)]) (use that in auto)
qed


text \<open>What the loop reads at \<open>s\<close> is what \<open>U16_NEXT\<close> reads, and is looked up correctly.\<close>

lemma BMPSet_span_correct:
  assumes wf: "wf_inv xs" and new: "BMPSet_new xs = Some b" and t: "u16_text t"
    and "s < length t"
  shows "BMPSet_span b t s (length t) cond = span_loop (\<lambda>c. (c \<in> inv_set xs) = cond) t s"
  using assms(4)
proof (induction "length t - s" arbitrary: s rule: less_induct)
  case less
  have mem: "BMPSet_contains b c \<longleftrightarrow> c \<in> inv_set xs" for c
    using BMPSet_contains_correct [OF wf] new by auto
  note slow = BMPSet_new_slow [OF wf new]
  let ?c = "t ! s" and ?d = "t ! (s + 1)"
  have c: "0 \<le> ?c" "?c \<le> 0xffff" using u16_text_nth [OF t less.prems] by auto
  have d: "0 \<le> ?d" "?d \<le> 0xffff" if "s + 1 < length t" using u16_text_nth [OF t that] by auto
  have IH: "BMPSet_span b t s' (length t) cond = span_loop (\<lambda>c. (c \<in> inv_set xs) = cond) t s'"
    if "s < s'" "s' < length t" for s' using that less.hyps [of s'] by simp
  have nxt: "span_loop P t s' = s'" if "\<not> s' < length t" for P s'
    using that by (simp add: span_loop.simps [of _ _ s'])
  consider "?c < 0xd800 \<or> 0xe000 \<le> ?c" 
    | "0xd800 \<le> ?c" "?c < 0xe000" "?c \<ge> 0xdc00 \<or> s + 1 = length t \<or> ?d < 0xdc00 \<or> ?d \<ge> 0xe000"
    | "0xd800 \<le> ?c" "?c < 0xdc00" "s + 1 < length t" "0xdc00 \<le> ?d" "?d < 0xe000"
    using less.prems by linarith
  then show ?case
  proof cases
    case 1
    then have n: "U16_NEXT t s (length t) = (?c, s + 1)"
      using c by (auto simp: U16_NEXT_def Let_def lead_range)
    show ?thesis
      using 1 IH [of "s + 1"] nxt [of "s + 1"] less.prems BMPSet_unit_contains [OF c 1] mem
      by (subst BMPSet_span.simps, subst span_loop.simps) (auto simp: Let_def n)
  next
    case 2
    then have n: "U16_NEXT t s (length t) = (?c, s + 1)"
      using c d less.prems by (cases "s + 1 < length t") (auto simp: U16_NEXT_def Let_def lead_range trail_range)
    show ?thesis
      using 2 IH [of "s + 1"] nxt [of "s + 1"] less.prems slow(1) [OF 2(1,2)]
      by (subst BMPSet_span.simps, subst span_loop.simps) (auto simp: Let_def n)
  next
    case 3
    then have n: "U16_NEXT t s (length t) = (U16_GET_SUPPLEMENTARY ?c ?d, s + 2)"
      using c d by (auto simp: U16_NEXT_def Let_def lead_range trail_range)
    have r: "0x10000 \<le> U16_GET_SUPPLEMENTARY ?c ?d" "U16_GET_SUPPLEMENTARY ?c ?d < UNICODESET_HIGH"
      using 3 by (auto simp: supplementary_arith)
    show ?thesis
      using 3 IH [of "s + 2"] nxt [of "s + 2"] less.prems slow(2) [OF r]
      by (subst BMPSet_span.simps, subst span_loop.simps) (auto simp: Let_def n)
  qed
qed

lemma BMPSet_spanBack_correct:
  assumes wf: "wf_inv xs" and new: "BMPSet_new xs = Some b" and t: "u16_text t"
    and "0 < l" "l \<le> length t"
  shows "BMPSet_spanBack b t 0 l cond = spanBack_loop (\<lambda>c. (c \<in> inv_set xs) = cond) t l"
  using assms(4,5)
proof (induction l rule: less_induct)
  case (less l)
  have mem: "BMPSet_contains b c \<longleftrightarrow> c \<in> inv_set xs" for c
    using BMPSet_contains_correct [OF wf] new by auto
  note slow = BMPSet_new_slow [OF wf new]
  let ?c = "t ! (l - 1)" and ?d = "t ! (l - 1 - 1)"
  have c: "0 \<le> ?c" "?c \<le> 0xffff" using u16_text_nth [OF t, of "l - 1"] less.prems by auto
  have d: "0 \<le> ?d" "?d \<le> 0xffff" using u16_text_nth [OF t, of "l - 1 - 1"] less.prems by auto
  have IH: "BMPSet_spanBack b t 0 l' cond = spanBack_loop (\<lambda>c. (c \<in> inv_set xs) = cond) t l'"
    if "0 < l'" "l' < l" for l' using that less by simp
  have zero: "spanBack_loop P t 0 = 0" for P by (simp add: spanBack_loop.simps [of _ _ 0])
  consider "?c < 0xd800 \<or> 0xe000 \<le> ?c"
    | "0xd800 \<le> ?c" "?c < 0xe000" "?c < 0xdc00 \<or> l - 1 = 0 \<or> ?d < 0xd800 \<or> ?d \<ge> 0xdc00"
    | "0xdc00 \<le> ?c" "?c < 0xe000" "0 < l - 1" "0xd800 \<le> ?d" "?d < 0xdc00"
    by linarith
  then show ?case
  proof cases
    case 1
    then have n: "U16_PREV t 0 l = (?c, l - 1)"
      using c by (auto simp: U16_PREV_def Let_def trail_range)
    show ?thesis
      using 1 IH [of "l - 1"] zero less.prems BMPSet_unit_contains [OF c 1] mem
      by (subst BMPSet_spanBack.simps, subst spanBack_loop.simps) (auto simp: Let_def n)
  next
    case 2
    then have n: "U16_PREV t 0 l = (?c, l - 1)"
      using c d by (auto simp: U16_PREV_def Let_def lead_range trail_range)
    show ?thesis
      using 2 IH [of "l - 1"] zero less.prems slow(1) [OF 2(1,2)]
      by (subst BMPSet_spanBack.simps, subst spanBack_loop.simps) (auto simp: Let_def n)
  next
    case 3
    then have n: "U16_PREV t 0 l = (U16_GET_SUPPLEMENTARY ?d ?c, l - 1 - 1)"
      using c d by (auto simp: U16_PREV_def Let_def lead_range trail_range)
    have r: "0x10000 \<le> U16_GET_SUPPLEMENTARY ?d ?c" "U16_GET_SUPPLEMENTARY ?d ?c < UNICODESET_HIGH"
      using 3 by (auto simp: supplementary_arith)
    show ?thesis
      using 3 IH [of "l - 1 - 1"] zero less.prems slow(2) [OF r]
      by (subst BMPSet_spanBack.simps, subst spanBack_loop.simps) (auto simp: Let_def n)
  qed
qed

end
