(* ===== verification/UnicodeSetFreeze.thy ===== *)
theory UnicodeSetFreeze
  imports UnicodeSetProps BMPSpan
begin

text \<open>
  Freezing a \<open>UnicodeSet\<close>: the lookup structures that \<open>freeze\<close> builds agree with the set, the frozen
  set refuses every mutator but one, and the spans by bit tables stop where the plain loops stop.
\<close>

section \<open>Construction and freezing\<close>

lemma allocateStrings_ok:
  assumes "\<forall>n. alloc n"
  obtains v where "UnicodeSet_allocateStrings alloc = Some v" "strings_ok v" "string_set v = {}"
proof -
  obtain v :: "UChar list UVector" and ec where n: "UVector_new alloc True (Some uhash_compareUnicodeString) 1 U_ZERO_ERROR = (v, ec)"
    by fastforce
  then have "U_SUCCESS ec" using assms
    by (auto simp: UVector_new_def UVector_init_def Let_def split: if_splits)
  with strings_new [OF n this] n assms show ?thesis by (intro that [of v]) (auto simp: UnicodeSet_allocateStrings_def)
qed

lemma new_ok:
  assumes "\<forall>n. alloc n"
  shows "\<exists>s. UnicodeSet_new alloc = Some s \<and> us_mutable s \<and> us_cps s = {} \<and> us_strs s = {}"
proof -
  obtain v where "UnicodeSet_allocateStrings alloc = Some v" "strings_ok v" "string_set v = {}"
    using allocateStrings_ok [OF assms] .
  then show ?thesis using assms by (auto simp: UnicodeSet_new_def us_mutable_def us_defs)
qed

lemma new_range_ok:
  assumes "\<forall>n. alloc n"
  shows "\<exists>s. UnicodeSet_new_range alloc a b = Some s \<and> us_mutable s \<and>
    us_cps s = {pinCodePoint a..pinCodePoint b} \<and> us_strs s = {}"
proof -
  obtain s where s: "UnicodeSet_new alloc = Some s" "us_mutable s" "us_cps s = {}" "us_strs s = {}"
    using new_ok [OF assms] by blast
  then have "us_list s \<noteq> []" by (simp add: us_mutable_def us_ok_def wf_inv_nonempty)
  with s complement_range_outcome [OF s(2), of alloc a b] assms show ?thesis
    by (auto simp: UnicodeSet_new_range_def outcome_def us_mutable_def split: if_splits)
qed

lemma freeze_bmp_ok:
  assumes "\<forall>n. alloc n" and "us_mutable s"
  shows "\<exists>r b. freeze_bmp alloc s = Some r \<and> r = s\<lparr>us_bmpSet := Some b\<rparr> \<and> us_ok r \<and>
    us_bmpSet r = Some b \<and> (\<forall>c. BMPSet_contains b c \<longleftrightarrow> c \<in> us_cps s)"
proof -
  have "wf_inv (us_list s)" using assms(2) by (simp add: us_mutable_def us_ok_def)
  from BMPSet_contains_correct [OF this] obtain b where
    b: "BMPSet_new (us_list s) = Some b" "\<forall>c. BMPSet_contains b c \<longleftrightarrow> c \<in> us_cps s"
    by (auto simp: us_cps_def)
  then show ?thesis using assms by (auto simp: freeze_bmp_def us_mutable_def us_defs)
qed

lemma freeze_compact_ok:
  assumes "\<forall>n. alloc n" and "us_mutable s"
  shows "\<exists>r. freeze_compact alloc s = (r, True) \<and> us_mutable r \<and> us_cps r = us_cps s \<and> us_strs r = us_strs s \<and>
    us_strings r = us_strings s \<and> us_list r = us_list s"
  using assms by (auto simp: freeze_compact_def Let_def us_mutable_def us_defs)

lemma freeze_code_points_ok:
  assumes "\<forall>n. alloc n" and "us_mutable s"
  shows "\<exists>r b. freeze_code_points alloc s = Some r \<and> us_bmpSet r = Some b \<and> (\<forall>c. BMPSet_contains b c \<longleftrightarrow> c \<in> us_cps s)"
proof -
  obtain r where r: "freeze_compact alloc s = (r, True)" "us_mutable r" "us_cps r = us_cps s"
    using freeze_compact_ok [OF assms] by blast
  with freeze_bmp_ok [OF assms(1) r(2)] us_mutable_flags [OF assms(2)] show ?thesis
    by (auto simp: freeze_code_points_def)
qed

lemma StringSpan_new_ok:
  assumes "\<forall>n. alloc n" and "us_ok s"
  shows "\<exists>ss needs. StringSpan_new alloc s = Some (ss, needs) \<and> (\<forall>c. StringSpan_contains ss c \<longleftrightarrow> c \<in> us_cps s)"
proof -
  obtain p where p: "UnicodeSet_new_range alloc 0 0x10ffff = Some p" "us_mutable p"
    "us_cps p = {0..0x10ffff}" "us_strs p = {}"
    using new_range_ok [OF assms(1), of 0 "0x10ffff"] by (auto simp: pinCodePoint_def)
  have all: "us_cps s \<subseteq> {0..0x10ffff}"
    using inv_set_bounds [OF us_ok_other(1) [OF assms(2)]] by (force simp: us_cps_def)
  obtain q where q: "UnicodeSet_retainAll alloc p s = Some q" "us_mutable q" "us_cps q = us_cps s"
    using retainAll_settles [OF p(2) assms(2), of alloc] assms(1) all
    by (auto simp: p(3,4) settles_def refused_def us_mutable_def Int_absorb1 split: if_splits)
  then have l: "list_contains (us_list q) c \<longleftrightarrow> c \<in> us_cps s" and b: "us_bmpSet q = None" for c
    using list_contains_iff [of "us_list q" c] by (auto simp: us_mutable_def us_ok_def us_cps_def UnicodeSet_isFrozen_def)
  show ?thesis
  proof (cases "list_ex (\<lambda>str. span_loop (UnicodeSet_contains q) str 0 < length str) (vec_strings (us_strings s))")
    case True
    obtain r b where "freeze_code_points alloc q = Some r" "us_bmpSet r = Some b"
      "\<forall>c. BMPSet_contains b c \<longleftrightarrow> c \<in> us_cps s"
      using freeze_code_points_ok [OF assms(1) q(2)] q(3) by auto
    then show ?thesis using True p(1) q(1) assms(1) by (auto simp: StringSpan_new_def StringSpan_contains_def)
  next
    case False
    then show ?thesis using p(1) q(1) l b by (auto simp: StringSpan_new_def StringSpan_contains_def)
  qed
qed

text \<open>
  C10. \<open>freeze()\<close>, when memory is not refused, keeps the code points and the strings of a set, makes it
  frozen and not bogus, and builds lookup structures that agree with the set: the invariant includes
  that the bit tables, or the span set of the string span, decide membership.
\<close>

theorem freeze_spec:
  assumes "us_mutable s" and "\<forall>n. alloc n"
  shows "\<exists>r. UnicodeSet_freeze alloc s = Some r \<and> us_ok r \<and> UnicodeSet_isFrozen r \<and>
    \<not> UnicodeSet_isBogus r \<and> us_cps r = us_cps s \<and> us_strs r = us_strs s \<and>
    (\<forall>c. UnicodeSet_contains r c \<longleftrightarrow> c \<in> us_cps s)"
proof -
  obtain r where r: "freeze_compact alloc s = (r, True)" "us_mutable r" "us_cps r = us_cps s"
    "us_strs r = us_strs s"
    using freeze_compact_ok [OF assms(2,1)] by blast
  note flags = us_mutable_flags [OF assms(1)] and R = us_mutable_flags [OF r(2)]
  obtain ss needs where ss: "StringSpan_new alloc r = Some (ss, needs)"
    "\<forall>c. StringSpan_contains ss c \<longleftrightarrow> c \<in> us_cps r"
    using StringSpan_new_ok [OF assms(2), of r] R by blast
  obtain r' where r': "freeze_bmp alloc r = Some r'" "us_ok r'" "us_cps r' = us_cps r" "us_strs r' = us_strs r"
      "UnicodeSet_isFrozen r'" "\<not> UnicodeSet_isBogus r'"
    using freeze_bmp_ok [OF assms(2) r(2)] R by (auto simp: us_defs)
  have no: "us_stringSpan r = None" "r\<lparr>us_stringSpan := None\<rparr> = r"
    using R by (auto simp: UnicodeSet_isFrozen_def)
  show ?thesis
  proof (cases "count (us_strings r) \<noteq> 0 \<and> needs")
    case True
    let ?r = "r\<lparr>us_stringSpan := Some ss\<rparr>"
    have "UnicodeSet_freeze alloc s = Some ?r"
      using True flags r(1) ss(1) assms(2) by (simp add: UnicodeSet_freeze_def)
    moreover have "us_ok ?r" using R ss(2) by (auto simp: us_defs)
    ultimately show ?thesis using r R contains_iff [of ?r] by (auto simp: us_defs)
  next
    case False
    then have "UnicodeSet_freeze alloc s = freeze_bmp alloc (r\<lparr>us_stringSpan := None\<rparr>)"
      using flags r(1) ss(1) assms(2) by (auto simp: UnicodeSet_freeze_def)
    then have "UnicodeSet_freeze alloc s = Some r'" using r'(1) no by simp
    then show ?thesis using r' r contains_iff [OF r'(2)] by auto
  qed
qed

theorem freeze_spec_witness:
  "\<exists>r. UnicodeSet_freeze (\<lambda>n. True) sample_A = Some r \<and> UnicodeSet_isFrozen r \<and>
    UnicodeSet_contains r 0x41 \<and> \<not> UnicodeSet_contains r 0x61"
  using freeze_spec [OF sample_A(1), of "\<lambda>n. True"] by (auto simp: sample_A)


section \<open>Frozen sets\<close>

lemma add_new_string_frozen: "UnicodeSet_isFrozen s \<Longrightarrow> UnicodeSet_add_new_string alloc s str = s"
  by (simp add: UnicodeSet_add_new_string_def)

lemma addAll_strings_loop_frozen: "UnicodeSet_isFrozen s \<Longrightarrow> addAll_strings_loop alloc strs s = s"
  by (induction strs) (auto simp: add_new_string_frozen)

lemma add_cp_frozen: "UnicodeSet_isFrozen s \<Longrightarrow> UnicodeSet_add_cp alloc s c = Some s"
  by (simp add: UnicodeSet_add_cp_def Let_def)

lemma addAll_cp_loop_frozen: "UnicodeSet_isFrozen s \<Longrightarrow> addAll_cp_loop alloc str i s = Some s"
  by (induction alloc str i s rule: addAll_cp_loop.induct)
    (subst addAll_cp_loop.simps, auto simp: add_cp_frozen Let_def)

lemmas frozen_simps = UnicodeSet_exclusiveOr_def UnicodeSet_add_list_def UnicodeSet_retain_list_def
  UnicodeSet_complement_range_def UnicodeSet_set_def UnicodeSet_clear_def UnicodeSet_add_range_def
  UnicodeSet_retain_range_def UnicodeSet_remove_range_def UnicodeSet_complement_def
  UnicodeSet_add_string_def UnicodeSet_remove_string_def UnicodeSet_complement_string_def
  UnicodeSet_addAll_string_def UnicodeSet_addAll_def UnicodeSet_retainAll_def UnicodeSet_removeAll_def
  UnicodeSet_complementAll_def UnicodeSet_compact_def UnicodeSet_assign_def UnicodeSet_freeze_def
  UnicodeSet_retain_cp_def UnicodeSet_remove_cp_def UnicodeSet_complement_cp_def UnicodeSet_removeAll_self_def
  UnicodeSet_retainAll_string_def UnicodeSet_removeAll_string_def UnicodeSet_complementAll_string_def
  UnicodeSet_createFromAll_def

lemma map_option_bind_const:
  "Option.bind x (\<lambda>y. Option.bind (f y) (\<lambda>_. Some s)) = map_option (\<lambda>_. s) (Option.bind x f)"
proof (cases x)
  case (Some y)
  then show ?thesis by (cases "f y") auto
qed simp

text \<open>
  C13. The mutators that test \<open>isFrozen()\<close>, themselves or through the methods they call, return a frozen set unchanged,
  down to its buffers and cached pattern, and touch no array: \<open>add\<close>, \<open>retain\<close>, \<open>remove\<close> and
  \<open>complement\<close> of a code point, a range or a string, \<open>set\<close>, \<open>clear\<close>, \<open>compact\<close>, the
  \<open>...All\<close> methods with a set or a string, the assignment and \<open>freeze\<close> itself.  (Those that build a temporary set
  from a string return if that can be built.)  \<open>removeAllStrings\<close> is not among them (C14), and the methods that apply
  patterns and properties are not modelled.
\<close>

theorem frozen_unchanged:
  assumes "UnicodeSet_isFrozen s"
  shows "UnicodeSet_add_cp alloc s a = Some s \<and> UnicodeSet_add_range alloc s a b = Some s \<and>
    UnicodeSet_retain_range alloc s a b = Some s \<and> UnicodeSet_remove_range alloc s a b = Some s \<and>
    UnicodeSet_complement_range alloc s a b = Some s \<and> UnicodeSet_complement alloc s = Some s \<and>
    UnicodeSet_retain_cp alloc s a = Some s \<and> UnicodeSet_remove_cp alloc s a = Some s \<and>
    UnicodeSet_complement_cp alloc s a = Some s \<and>
    UnicodeSet_set alloc s a b = Some s \<and> UnicodeSet_clear s = s \<and> UnicodeSet_compact alloc s = s \<and>
    UnicodeSet_add_string alloc s str = Some s \<and> UnicodeSet_remove_string alloc s str = Some s \<and>
    UnicodeSet_complement_string alloc s str = Some s \<and> UnicodeSet_addAll_string alloc s str = Some s \<and>
    UnicodeSet_retainAll_string alloc s str = map_option (\<lambda>_. s) (UnicodeSet_createFromAll alloc str) \<and>
    UnicodeSet_removeAll_string alloc s str = map_option (\<lambda>_. s) (UnicodeSet_createFromAll alloc str) \<and>
    UnicodeSet_complementAll_string alloc s str = map_option (\<lambda>_. s) (UnicodeSet_createFromAll alloc str) \<and>
    UnicodeSet_addAll alloc s c = Some s \<and> UnicodeSet_retainAll alloc s c = Some s \<and>
    UnicodeSet_removeAll alloc s c = Some s \<and> UnicodeSet_removeAll_self alloc s = Some s \<and>
    UnicodeSet_complementAll alloc s c = Some s \<and>
    UnicodeSet_assign alloc s c = s \<and> UnicodeSet_freeze alloc s = Some s"
  using assms
  by (simp add: frozen_simps add_cp_frozen addAll_cp_loop_frozen addAll_strings_loop_frozen Let_def
      map_option_bind_const)

definition frozen_sample :: UnicodeSet where
  "frozen_sample = sample_A\<lparr>us_stringSpan := Some \<lparr>ss_list = [0x41, 0x5b, 0x110000], ss_bmpSet = None\<rparr>\<rparr>"

lemma frozen_sample_frozen: "UnicodeSet_isFrozen frozen_sample"
  by (simp add: frozen_sample_def UnicodeSet_isFrozen_def)

theorem frozen_unchanged_witness:
  "UnicodeSet_add_cp (\<lambda>n. True) frozen_sample 0x61 = Some frozen_sample \<and>
    UnicodeSet_addAll (\<lambda>n. True) frozen_sample sample_B = Some frozen_sample"
  using frozen_unchanged [OF frozen_sample_frozen, where alloc = "\<lambda>n. True" and a = "0x61" and c = sample_B]
  by blast

text \<open>
  C14. \<open>removeAllStrings()\<close> is the exception: it has no check, and removes the strings of a frozen set
  while the lookup structures built from them stay.
\<close>

theorem removeAllStrings_mutates_frozen:
  assumes "UnicodeSet_isFrozen s" and "us_ok s" and "us_strs s \<noteq> {}"
  shows "UnicodeSet_isFrozen (UnicodeSet_removeAllStrings s) \<and> us_strs (UnicodeSet_removeAllStrings s) = {} \<and>
    us_stringSpan (UnicodeSet_removeAllStrings s) = us_stringSpan s \<and> UnicodeSet_removeAllStrings s \<noteq> s"
proof -
  have "us_strs (UnicodeSet_removeAllStrings s) = {}"
    using strings_clear [of "us_strings s"] assms(2) by (simp add: UnicodeSet_removeAllStrings_def us_strs_def us_ok_def)
  moreover from this have "UnicodeSet_removeAllStrings s \<noteq> s" using assms(3) by metis
  ultimately show ?thesis using assms by (simp add: UnicodeSet_removeAllStrings_def UnicodeSet_isFrozen_def)
qed

theorem removeAllStrings_mutates_frozen_witness:
  "UnicodeSet_isFrozen frozen_sample \<and> us_strs frozen_sample = {[0x63, 0x68]} \<and>
    us_strs (UnicodeSet_removeAllStrings frozen_sample) = {}"
proof -
  have c: "us_cps frozen_sample = us_cps sample_A" "us_strs frozen_sample = {[0x63, 0x68]}"
    using sample_A by (simp_all add: frozen_sample_def us_defs)
  have "us_ok frozen_sample"
    using sample_A us_mutable_ok [OF sample_A(1)]
    by (auto simp: frozen_sample_def us_defs StringSpan_contains_def list_contains_iff sample_set_def)
  then show ?thesis using removeAllStrings_mutates_frozen [OF frozen_sample_frozen] c frozen_sample_frozen by simp
qed


section \<open>The tables against the inversion list\<close>

text \<open>
  C11. The constructor of \<open>BMPSet\<close> never runs off the inversion list, and \<open>BMPSet::contains\<close>, by bit
  tables and segment searches, is the binary search of the unfrozen \<open>UnicodeSet::contains\<close> for every
  integer, code point or not.
\<close>

theorem BMPSet_contains_equiv:
  assumes "wf_inv xs"
  shows "\<exists>b. BMPSet_new xs = Some b \<and> (\<forall>c. BMPSet_contains b c = list_contains xs c)"
  using BMPSet_contains_correct [OF assms] list_contains_iff [OF assms] by auto

theorem BMPSet_contains_equiv_witness:
  "\<exists>b. BMPSet_new [0x41, 0x5b, 0xd900, 0xe080, 0x1f600, 0x1f601, 0x110000] = Some b \<and>
    BMPSet_contains b 0xe07f \<and> BMPSet_contains b 0x1f600 \<and> \<not> BMPSet_contains b 0xe080"
proof -
  have wf: "wf_inv [0x41, 0x5b, 0xd900, 0xe080, 0x1f600, 0x1f601, 0x110000]" by (simp add: wf_inv_def)
  have "list_contains [0x41, 0x5b, 0xd900, 0xe080, 0x1f600, 0x1f601, 0x110000] 0xe07f"
    "list_contains [0x41, 0x5b, 0xd900, 0xe080, 0x1f600, 0x1f601, 0x110000] 0x1f600"
    "\<not> list_contains [0x41, 0x5b, 0xd900, 0xe080, 0x1f600, 0x1f601, 0x110000] 0xe080"
    by (simp_all add: list_contains_iff [OF wf])
  then show ?thesis using BMPSet_contains_equiv [OF wf] by auto
qed

text \<open>
  C12. On a frozen set without strings, \<open>span\<close> and \<open>spanBack\<close> run the table loops of \<open>BMPSet\<close>.  For every
  well-formed or ill-formed UTF-16 text they stop exactly where the plain loops of the unfrozen set
  stop, for both span conditions.
\<close>

theorem frozen_spans:
  assumes "us_mutable s" and "us_strs s = {}" and "\<forall>n. alloc n" and "u16_text t" and "t \<noteq> []"
  shows "\<exists>r b. UnicodeSet_freeze alloc s = Some r \<and> us_bmpSet r = Some b \<and>
    BMPSet_span b t 0 (length t) cond = span_loop (\<lambda>c. UnicodeSet_contains s c = cond) t 0 \<and>
    BMPSet_spanBack b t 0 (length t) cond = spanBack_loop (\<lambda>c. UnicodeSet_contains s c = cond) t (length t)"
proof -
  obtain r where r: "freeze_compact alloc s = (r, True)" "us_mutable r" "us_strs r = {}"
    "us_strings r = us_strings s" "us_list r = us_list s"
    using freeze_compact_ok [OF assms(3,1)] assms(2) by auto
  have wf: "wf_inv (us_list s)" and so: "strings_ok (us_strings s)"
    using assms(1) by (auto simp: us_mutable_def us_ok_def)
  have "count (us_strings s) = 0"
    by (rule strings_okE [OF so]) (use assms(2) length_vec_contents in \<open>fastforce simp: us_strs_def vec_ok_def\<close>)
  moreover have "r\<lparr>us_stringSpan := None\<rparr> = r" using r(2) by (auto simp: us_mutable_def UnicodeSet_isFrozen_def)
  ultimately have f: "UnicodeSet_freeze alloc s = freeze_bmp alloc r"
    using us_mutable_flags [OF assms(1)] r(1,4) by (simp add: UnicodeSet_freeze_def)
  obtain b where b: "BMPSet_new (us_list s) = Some b" using BMPSet_contains_correct [OF wf] by blast
  have c: "UnicodeSet_contains s c \<longleftrightarrow> c \<in> inv_set (us_list s)" for c
    using contains_iff [OF us_mutable_ok [OF assms(1)]] by (simp add: us_cps_def)
  have "BMPSet_span b t 0 (length t) cond = span_loop (\<lambda>c. UnicodeSet_contains s c = cond) t 0"
    unfolding c by (rule BMPSet_span_correct [OF wf b assms(4)]) (use assms(5) in simp)
  moreover have "BMPSet_spanBack b t 0 (length t) cond =
      spanBack_loop (\<lambda>c. UnicodeSet_contains s c = cond) t (length t)"
    unfolding c by (rule BMPSet_spanBack_correct [OF wf b assms(4)]) (use assms(5) in auto)
  ultimately show ?thesis using f b r(5) assms(3) by (simp add: freeze_bmp_def)
qed

theorem frozen_spans_witness:
  "\<exists>r b. UnicodeSet_freeze (\<lambda>n. True) (sample_set [0x41, 0x5b, 0x110000] []) = Some r \<and> us_bmpSet r = Some b \<and>
    BMPSet_span b [0x41, 0x42, 0xd83d, 0x43] 0 4 True = 2 \<and>
    BMPSet_spanBack b [0x41, 0x42, 0xd83d, 0x43] 0 4 True = 3"
proof -
  let ?s = "sample_set [0x41, 0x5b, 0x110000] []"
  have m: "us_mutable ?s" "us_strs ?s = {}" by (simp_all add: sample_set_mutable wf_inv_def)
  have "span_loop (\<lambda>c. UnicodeSet_contains ?s c = True) [0x41, 0x42, 0xd83d, 0x43] 0 = 2"
    "spanBack_loop (\<lambda>c. UnicodeSet_contains ?s c = True) [0x41, 0x42, 0xd83d, 0x43] 4 = 3"
    by code_simp+
  moreover have "length [0x41, 0x42, 0xd83d, 0x43 :: int] = 4" by simp
  ultimately show ?thesis
    using frozen_spans [OF m, of "\<lambda>n. True" "[0x41, 0x42, 0xd83d, 0x43]" True] by (simp only:) simp
qed

end
