(* ===== verification/CharIterator.thy ===== *)
theory CharIterator
  imports Utf16
begin

text \<open>
  Character iterators over UTF-16 text: \<open>CharacterIterator\<close> (\<open>common/chariter.cpp\<close>) keeps the text
  length, the iteration range and the position, and \<open>UCharCharacterIterator\<close>
  (\<open>common/uchriter.cpp\<close>) reads an array of units.  Every method that moves returns its result and the
  iterator afterwards.  The members are the source's \<open>int32_t\<close> members as integers.  The sums with the
  arguments of \<open>move\<close>, the negations in \<open>move32\<close> and the sum in \<open>next\<close> are 32-bit operations that can
  overflow; they are wrapped in the model.  All other values stay between the members.
\<close>

section \<open>State and construction\<close>

record CharIter =
  ci_text :: "UChar list"
  ci_textLength :: int
  ci_pos :: int
  ci_begin :: int
  ci_end :: int

datatype EOrigin = kStart | kCurrent | kEnd

abbreviation (input) DONE :: int where "DONE \<equiv> 0xffff"

definition u_strlen :: "UChar list \<Rightarrow> nat" where
  "u_strlen s = length (takeWhile (\<lambda>u. u \<noteq> 0) s)"

text \<open>The three constructors of \<open>CharacterIterator\<close>, on a text that is already there.\<close>

definition CharacterIterator_new :: "UChar list \<Rightarrow> int \<Rightarrow> CharIter" where
  "CharacterIterator_new text len =
     (let n = (if len < 0 then 0 else len) in
      \<lparr>ci_text = text, ci_textLength = n, ci_pos = 0, ci_begin = 0, ci_end = n\<rparr>)"

definition CharacterIterator_new_at :: "UChar list \<Rightarrow> int \<Rightarrow> int \<Rightarrow> CharIter" where
  "CharacterIterator_new_at text len position =
     (let n = (if len < 0 then 0 else len);
          p = (if position < 0 then 0 else if position > n then n else position) in
      \<lparr>ci_text = text, ci_textLength = n, ci_pos = p, ci_begin = 0, ci_end = n\<rparr>)"

definition CharacterIterator_new_range :: "UChar list \<Rightarrow> int \<Rightarrow> int \<Rightarrow> int \<Rightarrow> int \<Rightarrow> CharIter" where
  "CharacterIterator_new_range text len textBegin textEnd position =
     (let n = (if len < 0 then 0 else len);
          b = (if textBegin < 0 then 0 else if textBegin > n then n else textBegin);
          e = (if textEnd < b then b else if textEnd > n then n else textEnd);
          p = (if position < b then b else if position > e then e else position) in
      \<lparr>ci_text = text, ci_textLength = n, ci_pos = p, ci_begin = b, ci_end = e\<rparr>)"

text \<open>
  The constructors of \<open>UCharCharacterIterator\<close>: a null text has length 0, a negative length asks for
  the terminating zero.
\<close>

fun text_length :: "UChar list option \<Rightarrow> int \<Rightarrow> int" where
  "text_length None len = 0"
| "text_length (Some text) len = (if len \<ge> 0 then len else int (u_strlen text))"

definition UCharCharacterIterator_new :: "UChar list option \<Rightarrow> int \<Rightarrow> CharIter" where
  "UCharCharacterIterator_new textPtr len =
     CharacterIterator_new (case textPtr of None \<Rightarrow> [] | Some t \<Rightarrow> t) (text_length textPtr len)"

definition UCharCharacterIterator_new_at :: "UChar list option \<Rightarrow> int \<Rightarrow> int \<Rightarrow> CharIter" where
  "UCharCharacterIterator_new_at textPtr len position =
     CharacterIterator_new_at (case textPtr of None \<Rightarrow> [] | Some t \<Rightarrow> t) (text_length textPtr len) position"

definition UCharCharacterIterator_new_range ::
  "UChar list option \<Rightarrow> int \<Rightarrow> int \<Rightarrow> int \<Rightarrow> int \<Rightarrow> CharIter" where
  "UCharCharacterIterator_new_range textPtr len textBegin textEnd position =
     CharacterIterator_new_range (case textPtr of None \<Rightarrow> [] | Some t \<Rightarrow> t) (text_length textPtr len)
       textBegin textEnd position"

definition ci_setText :: "CharIter \<Rightarrow> UChar list option \<Rightarrow> int \<Rightarrow> CharIter" where
  "ci_setText it newText newTextLength =
     (let n = (if newText = None \<or> newTextLength < 0 then 0 else newTextLength) in
      it\<lparr>ci_text := (case newText of None \<Rightarrow> [] | Some t \<Rightarrow> t), ci_end := n, ci_textLength := n,
         ci_pos := 0, ci_begin := 0\<rparr>)"

section \<open>Access by code units\<close>

abbreviation ci_unit :: "CharIter \<Rightarrow> int \<Rightarrow> UChar" where
  "ci_unit it i \<equiv> ci_text it ! nat i"

definition ci_first :: "CharIter \<Rightarrow> UChar \<times> CharIter" where
  "ci_first it =
     (let it = it\<lparr>ci_pos := ci_begin it\<rparr> in
      (if ci_pos it < ci_end it then ci_unit it (ci_pos it) else DONE, it))"

definition ci_firstPostInc :: "CharIter \<Rightarrow> UChar \<times> CharIter" where
  "ci_firstPostInc it =
     (let it = it\<lparr>ci_pos := ci_begin it\<rparr> in
      if ci_pos it < ci_end it then (ci_unit it (ci_pos it), it\<lparr>ci_pos := ci_pos it + 1\<rparr>) else (DONE, it))"

definition ci_last :: "CharIter \<Rightarrow> UChar \<times> CharIter" where
  "ci_last it =
     (let it = it\<lparr>ci_pos := ci_end it\<rparr> in
      if ci_pos it > ci_begin it
      then (ci_unit it (ci_pos it - 1), it\<lparr>ci_pos := ci_pos it - 1\<rparr>) else (DONE, it))"

definition ci_setIndex :: "CharIter \<Rightarrow> int \<Rightarrow> UChar \<times> CharIter" where
  "ci_setIndex it position =
     (let it = it\<lparr>ci_pos := (if position < ci_begin it then ci_begin it
                             else if position > ci_end it then ci_end it else position)\<rparr> in
      (if ci_pos it < ci_end it then ci_unit it (ci_pos it) else DONE, it))"

definition ci_current :: "CharIter \<Rightarrow> UChar" where
  "ci_current it =
     (if ci_pos it \<ge> ci_begin it \<and> ci_pos it < ci_end it then ci_unit it (ci_pos it) else DONE)"

definition ci_next :: "CharIter \<Rightarrow> UChar \<times> CharIter" where
  "ci_next it =
     (if wrap_int32 (ci_pos it + 1) < ci_end it
      then (ci_unit it (wrap_int32 (ci_pos it + 1)), it\<lparr>ci_pos := wrap_int32 (ci_pos it + 1)\<rparr>)
      else (DONE, it\<lparr>ci_pos := ci_end it\<rparr>))"

definition ci_nextPostInc :: "CharIter \<Rightarrow> UChar \<times> CharIter" where
  "ci_nextPostInc it =
     (if ci_pos it < ci_end it then (ci_unit it (ci_pos it), it\<lparr>ci_pos := ci_pos it + 1\<rparr>) else (DONE, it))"

definition ci_hasNext :: "CharIter \<Rightarrow> bool" where
  "ci_hasNext it = (ci_pos it < ci_end it)"

definition ci_previous :: "CharIter \<Rightarrow> UChar \<times> CharIter" where
  "ci_previous it =
     (if ci_pos it > ci_begin it
      then (ci_unit it (ci_pos it - 1), it\<lparr>ci_pos := ci_pos it - 1\<rparr>) else (DONE, it))"

definition ci_hasPrevious :: "CharIter \<Rightarrow> bool" where
  "ci_hasPrevious it = (ci_pos it > ci_begin it)"

section \<open>Access by code points\<close>

text \<open>The macros of \<open>utf16.h\<close> on the members.\<close>

abbreviation ci_NEXT :: "CharIter \<Rightarrow> UChar32 \<times> nat" where
  "ci_NEXT it \<equiv> U16_NEXT (ci_text it) (nat (ci_pos it)) (nat (ci_end it))"

abbreviation ci_PREV :: "CharIter \<Rightarrow> UChar32 \<times> nat" where
  "ci_PREV it \<equiv> U16_PREV (ci_text it) (nat (ci_begin it)) (nat (ci_pos it))"

definition ci_first32 :: "CharIter \<Rightarrow> UChar32 \<times> CharIter" where
  "ci_first32 it =
     (let it = it\<lparr>ci_pos := ci_begin it\<rparr> in
      (if ci_pos it < ci_end it then fst (ci_NEXT it) else DONE, it))"

definition ci_first32PostInc :: "CharIter \<Rightarrow> UChar32 \<times> CharIter" where
  "ci_first32PostInc it =
     (let it = it\<lparr>ci_pos := ci_begin it\<rparr> in
      if ci_pos it < ci_end it
      then (case ci_NEXT it of (c, i) \<Rightarrow> (c, it\<lparr>ci_pos := int i\<rparr>)) else (DONE, it))"

definition ci_last32 :: "CharIter \<Rightarrow> UChar32 \<times> CharIter" where
  "ci_last32 it =
     (let it = it\<lparr>ci_pos := ci_end it\<rparr> in
      if ci_pos it > ci_begin it
      then (case ci_PREV it of (c, i) \<Rightarrow> (c, it\<lparr>ci_pos := int i\<rparr>)) else (DONE, it))"

definition ci_setIndex32 :: "CharIter \<Rightarrow> int \<Rightarrow> UChar32 \<times> CharIter" where
  "ci_setIndex32 it position =
     (let position = (if position < ci_begin it then ci_begin it
                      else if position > ci_end it then ci_end it else position) in
      if position < ci_end it then
        (let it = it\<lparr>ci_pos :=
               int (U16_SET_CP_START (ci_text it) (nat (ci_begin it)) (nat position))\<rparr> in
         (fst (ci_NEXT it), it))
      else (DONE, it\<lparr>ci_pos := position\<rparr>))"

definition ci_current32 :: "CharIter \<Rightarrow> UChar32" where
  "ci_current32 it =
     (if ci_pos it \<ge> ci_begin it \<and> ci_pos it < ci_end it
      then U16_GET (ci_text it) (nat (ci_begin it)) (nat (ci_pos it)) (nat (ci_end it)) else DONE)"

definition ci_next32 :: "CharIter \<Rightarrow> UChar32 \<times> CharIter" where
  "ci_next32 it =
     (let it' = (if ci_pos it < ci_end it
                 then it\<lparr>ci_pos := int (U16_FWD_1 (ci_text it) (nat (ci_pos it)) (nat (ci_end it)))\<rparr>
                 else it) in
      if ci_pos it < ci_end it \<and> ci_pos it' < ci_end it then (fst (ci_NEXT it'), it')
      else (DONE, it'\<lparr>ci_pos := ci_end it\<rparr>))"

definition ci_next32PostInc :: "CharIter \<Rightarrow> UChar32 \<times> CharIter" where
  "ci_next32PostInc it =
     (if ci_pos it < ci_end it
      then (case ci_NEXT it of (c, i) \<Rightarrow> (c, it\<lparr>ci_pos := int i\<rparr>)) else (DONE, it))"

definition ci_previous32 :: "CharIter \<Rightarrow> UChar32 \<times> CharIter" where
  "ci_previous32 it =
     (if ci_pos it > ci_begin it
      then (case ci_PREV it of (c, i) \<Rightarrow> (c, it\<lparr>ci_pos := int i\<rparr>)) else (DONE, it))"

section \<open>Moving\<close>

definition ci_move :: "CharIter \<Rightarrow> int \<Rightarrow> EOrigin \<Rightarrow> int \<times> CharIter" where
  "ci_move it delta origin =
     (let p = wrap_int32 (case origin of kStart \<Rightarrow> ci_begin it + delta | kCurrent \<Rightarrow> ci_pos it + delta
                            | kEnd \<Rightarrow> ci_end it + delta);
          p = (if p < ci_begin it then ci_begin it else if p > ci_end it then ci_end it else p) in
      (p, it\<lparr>ci_pos := p\<rparr>))"

definition ci_move32 :: "CharIter \<Rightarrow> int \<Rightarrow> EOrigin \<Rightarrow> int \<times> CharIter" where
  "ci_move32 it delta origin =
     (let fwd = (\<lambda>p. int (U16_FWD_N (ci_text it) (nat p) (nat (ci_end it)) (nat delta)));
          back = (\<lambda>p. int (U16_BACK_N (ci_text it) (nat (ci_begin it)) (nat p) (nat (wrap_int32 (- delta)))));
          p = (case origin of
                 kStart \<Rightarrow> if delta > 0 then fwd (ci_begin it) else ci_begin it
               | kCurrent \<Rightarrow> if delta > 0 then fwd (ci_pos it) else back (ci_pos it)
               | kEnd \<Rightarrow> if delta < 0 then back (ci_end it) else ci_end it) in
      (p, it\<lparr>ci_pos := p\<rparr>))"

definition ci_setToStart :: "CharIter \<Rightarrow> int \<times> CharIter" where
  "ci_setToStart it = ci_move it 0 kStart"

definition ci_setToEnd :: "CharIter \<Rightarrow> int \<times> CharIter" where
  "ci_setToEnd it = ci_move it 0 kEnd"


section \<open>The iterator as a state machine\<close>

datatype ci_op = First | FirstPostInc | Last | SetIndex int | Next | NextPostInc | Previous
  | First32 | First32PostInc | Last32 | SetIndex32 int | Next32 | Next32PostInc | Previous32
  | Move int EOrigin | Move32 int EOrigin | SetText "UChar list option" int

text \<open>The result of \<open>setText\<close>, which returns nothing, is 0.\<close>

fun ci_exec :: "ci_op \<Rightarrow> CharIter \<Rightarrow> int \<times> CharIter" where
  "ci_exec First it = ci_first it"
| "ci_exec FirstPostInc it = ci_firstPostInc it"
| "ci_exec Last it = ci_last it"
| "ci_exec (SetIndex i) it = ci_setIndex it i"
| "ci_exec Next it = ci_next it"
| "ci_exec NextPostInc it = ci_nextPostInc it"
| "ci_exec Previous it = ci_previous it"
| "ci_exec First32 it = ci_first32 it"
| "ci_exec First32PostInc it = ci_first32PostInc it"
| "ci_exec Last32 it = ci_last32 it"
| "ci_exec (SetIndex32 i) it = ci_setIndex32 it i"
| "ci_exec Next32 it = ci_next32 it"
| "ci_exec Next32PostInc it = ci_next32PostInc it"
| "ci_exec Previous32 it = ci_previous32 it"
| "ci_exec (Move d org) it = ci_move it d org"
| "ci_exec (Move32 d org) it = ci_move32 it d org"
| "ci_exec (SetText t n) it = (0, ci_setText it t n)"

text \<open>
  What the caller owes: an array of at least as many units as the length says, with a terminating zero if the constructor is to
  find the end itself, and fewer than \<open>INT32_MAX\<close> units.
\<close>

fun text_fits :: "UChar list option \<Rightarrow> int \<Rightarrow> bool" where
  "text_fits None len = True"
| "text_fits (Some t) len =
     (if len \<ge> 0 then len \<le> int (length t) \<and> len < INT32_MAX else 0 \<in> set t \<and> int (u_strlen t) < INT32_MAX)"

fun ci_allowed :: "ci_op \<Rightarrow> bool" where
  "ci_allowed (SetText t n) = (n < 0 \<or> text_fits t n)"
| "ci_allowed _ = True"

text \<open>The states of an iterator: after any constructor, any sequence of operations.\<close>

inductive ci_reach :: "CharIter \<Rightarrow> bool" where
  ci_new: "text_fits t n \<Longrightarrow> ci_reach (UCharCharacterIterator_new t n)"
| ci_new_at: "text_fits t n \<Longrightarrow> ci_reach (UCharCharacterIterator_new_at t n p)"
| ci_new_range: "text_fits t n \<Longrightarrow> ci_reach (UCharCharacterIterator_new_range t n b e p)"
| ci_step: "ci_reach it \<Longrightarrow> ci_allowed op \<Longrightarrow> ci_exec op it = (r, it') \<Longrightarrow> ci_reach it'"

definition ci_ok :: "CharIter \<Rightarrow> bool" where
  "ci_ok it \<longleftrightarrow> 0 \<le> ci_begin it \<and> ci_begin it \<le> ci_pos it \<and> ci_pos it \<le> ci_end it \<and>
     ci_end it \<le> ci_textLength it \<and> ci_textLength it \<le> int (length (ci_text it)) \<and> ci_textLength it < INT32_MAX"

text \<open>What an operation other than \<open>setText\<close> may change: only the position.\<close>

definition same_range :: "CharIter \<Rightarrow> CharIter \<Rightarrow> bool" where
  "same_range it it' \<longleftrightarrow> ci_ok it' \<and> ci_text it' = ci_text it \<and> ci_textLength it' = ci_textLength it \<and>
     ci_begin it' = ci_begin it \<and> ci_end it' = ci_end it"

lemma same_rangeI: "ci_ok it \<Longrightarrow> ci_begin it \<le> p \<Longrightarrow> p \<le> ci_end it \<Longrightarrow> same_range it (it\<lparr>ci_pos := p\<rparr>)"
  by (simp add: same_range_def ci_ok_def)

lemma same_range_self: "ci_ok it \<Longrightarrow> same_range it it"
  by (simp add: same_range_def)

lemma ci_bounds:
  assumes "ci_ok it"
  shows "nat (ci_end it) \<le> length (ci_text it)" "nat (ci_pos it) \<le> length (ci_text it)"
    "0 \<le> ci_begin it" "ci_begin it \<le> ci_pos it" "ci_pos it \<le> ci_end it"
  using assms by (auto simp: ci_ok_def)

lemma ci_NEXT_range:
  assumes "ci_ok it" and "ci_pos it < ci_end it" and "ci_NEXT it = (c, i)"
  shows "ci_pos it < int i" "int i \<le> ci_end it"
    "code_points (slice (ci_text it) (nat (ci_pos it)) (nat (ci_end it))) =
      c # code_points (slice (ci_text it) i (nat (ci_end it)))"
proof -
  note b = ci_bounds [OF assms(1)]
  have "nat (ci_pos it) < nat (ci_end it)" using assms(2) b by linarith
  note n = U16_NEXT_spec [OF assms(3) this b(1)]
  show "ci_pos it < int i" "int i \<le> ci_end it" using n(2,3) b by linarith+
  show "code_points (slice (ci_text it) (nat (ci_pos it)) (nat (ci_end it))) =
      c # code_points (slice (ci_text it) i (nat (ci_end it)))" by (rule n(1))
qed

lemma ci_PREV_range:
  assumes "ci_ok it" and "ci_begin it < ci_pos it" and "ci_PREV it = (c, i)"
  shows "ci_begin it \<le> int i" "int i < ci_pos it"
    "code_points (slice (ci_text it) (nat (ci_begin it)) (nat (ci_pos it))) =
      code_points (slice (ci_text it) (nat (ci_begin it)) i) @ [c]"
proof -
  note b = ci_bounds [OF assms(1)]
  have "nat (ci_begin it) < nat (ci_pos it)" using assms(2) b by linarith
  note n = U16_PREV_spec [OF assms(3) this b(2)]
  show "ci_begin it \<le> int i" "int i < ci_pos it" using n(2,3) b by linarith+
  show "code_points (slice (ci_text it) (nat (ci_begin it)) (nat (ci_pos it))) =
      code_points (slice (ci_text it) (nat (ci_begin it)) i) @ [c]" by (rule n(1))
qed

lemma ci_ok_pos: "ci_ok it \<Longrightarrow> ci_begin it \<le> p \<Longrightarrow> p \<le> ci_end it \<Longrightarrow> ci_ok (it\<lparr>ci_pos := p\<rparr>)"
  by (simp add: ci_ok_def)

lemmas ci_unit_defs = ci_first_def ci_firstPostInc_def ci_last_def ci_setIndex_def ci_next_def
  ci_nextPostInc_def ci_previous_def ci_move_def

lemma ci_exec_units:
  assumes "ci_ok it" and "ci_exec op it = (r, it')"
    and "op \<in> {First, FirstPostInc, Last, Next, NextPostInc, Previous} \<union> range SetIndex \<union> range (case_prod Move)"
  shows "same_range it it'"
proof -
  have "wrap_int32 (ci_pos it + 1) = ci_pos it + 1" using assms(1) by (intro wrap_int32_small) (auto simp: ci_ok_def)
  then show ?thesis
    using assms by (auto simp: ci_unit_defs Let_def same_range_def ci_ok_def split: if_splits EOrigin.splits)
qed

lemma ci_exec_PostInc32:
  assumes "ci_ok it"
  shows "same_range it (snd (ci_next32PostInc it))" and "same_range it (snd (ci_previous32 it))"
    and "same_range it (snd (ci_first32PostInc it))" and "same_range it (snd (ci_last32 it))"
proof -
  have n: "same_range i (snd (ci_next32PostInc i))" "same_range i (snd (ci_previous32 i))" if "ci_ok i" for i
  proof -
    show "same_range i (snd (ci_next32PostInc i))"
      using that ci_NEXT_range [OF that] same_range_self [OF that]
      by (auto simp: ci_next32PostInc_def ci_ok_def intro!: same_rangeI split: prod.splits)
    show "same_range i (snd (ci_previous32 i))"
      using that ci_PREV_range [OF that] same_range_self [OF that]
      by (auto simp: ci_previous32_def ci_ok_def intro!: same_rangeI split: prod.splits) 
  qed
  show "same_range it (snd (ci_next32PostInc it))" "same_range it (snd (ci_previous32 it))" using n assms by auto
  have "ci_first32PostInc it = ci_next32PostInc (it\<lparr>ci_pos := ci_begin it\<rparr>)"
    "ci_last32 it = ci_previous32 (it\<lparr>ci_pos := ci_end it\<rparr>)"
    by (simp_all add: ci_first32PostInc_def ci_next32PostInc_def ci_last32_def ci_previous32_def)
  moreover have "ci_ok (it\<lparr>ci_pos := ci_begin it\<rparr>)" "ci_ok (it\<lparr>ci_pos := ci_end it\<rparr>)"
    using assms by (auto simp: ci_ok_def)
  ultimately show "same_range it (snd (ci_first32PostInc it))" "same_range it (snd (ci_last32 it))"
    using n by (auto simp: same_range_def)
qed

lemma ci_exec_set32:
  assumes "ci_ok it"
  shows "same_range it (snd (ci_first32 it))" and "same_range it (snd (ci_setIndex32 it i))"
    and "same_range it (snd (ci_next32 it))"
proof -
  show "same_range it (snd (ci_first32 it))"
    using assms by (auto simp: ci_first32_def Let_def ci_ok_def intro!: same_rangeI)
  show "same_range it (snd (ci_setIndex32 it i))"
    using assms by (auto simp: ci_setIndex32_def Let_def ci_ok_def U16_SET_CP_START_def intro!: same_rangeI)
  obtain c j where n: "ci_NEXT it = (c, j)" by fastforce
  show "same_range it (snd (ci_next32 it))"
    using assms ci_NEXT_range [OF assms _ n]
    by (auto simp: ci_next32_def Let_def U16_FWD_1_NEXT n intro!: same_rangeI) (auto simp: ci_ok_def)
qed

lemma ci_exec_move32:
  assumes "ci_ok it"
  shows "same_range it (snd (ci_move32 it d org))"
proof -
  note B = ci_bounds [OF assms]
  have f: "ci_begin it \<le> int (U16_FWD_N (ci_text it) (nat p) (nat (ci_end it)) n) \<and>
      int (U16_FWD_N (ci_text it) (nat p) (nat (ci_end it)) n) \<le> ci_end it"
    if "ci_begin it \<le> p" "p \<le> ci_end it" for p n
  proof -
    have "nat p \<le> nat (ci_end it)" using that by linarith
    from U16_FWD_N_spec(2,3) [OF this B(1), of n] B that show ?thesis by linarith
  qed
  have b: "ci_begin it \<le> int (U16_BACK_N (ci_text it) (nat (ci_begin it)) (nat p) n) \<and>
      int (U16_BACK_N (ci_text it) (nat (ci_begin it)) (nat p) n) \<le> ci_end it"
    if "ci_begin it \<le> p" "p \<le> ci_end it" for p n
  proof -
    have "nat (ci_begin it) \<le> nat p" "nat p \<le> length (ci_text it)" using that B by linarith+
    from U16_BACK_N_spec(2,3) [OF this, of n] B that show ?thesis by linarith
  qed
  show ?thesis
    using f b B same_range_self [OF assms]
    by (auto simp: ci_move32_def Let_def intro!: same_rangeI [OF assms] split: EOrigin.splits)
qed

lemma ci_exec_same_range:
  assumes "ci_ok it" and "ci_exec op it = (r, it')" and "\<nexists>t n. op = SetText t n"
  shows "same_range it it'"
proof (cases op)
  case (Move d org)
  then show ?thesis using ci_exec_units [OF assms(1,2)] by (metis UnI2 case_prod_conv rangeI)
qed (use ci_exec_units [OF assms(1,2)] ci_exec_PostInc32 [OF assms(1)] ci_exec_set32 [OF assms(1)]
    ci_exec_move32 [OF assms(1)] assms(2,3) in \<open>(simp; metis snd_conv)+\<close>)

lemma u_strlen_le: "u_strlen t \<le> length t"
  by (simp add: u_strlen_def length_takeWhile_le)

lemma text_fits_length:
  assumes "text_fits t n"
  shows "0 \<le> text_length t n \<and> text_length t n \<le> int (length (case t of None \<Rightarrow> [] | Some t \<Rightarrow> t)) \<and>
    text_length t n < INT32_MAX"
  using assms u_strlen_le by (cases t) (auto split: if_splits)

lemma ci_ok_new:
  assumes "text_fits t n"
  shows "ci_ok (UCharCharacterIterator_new t n)" "ci_ok (UCharCharacterIterator_new_at t n p)"
    "ci_ok (UCharCharacterIterator_new_range t n b e p)"
  using text_fits_length [OF assms]
  by (auto simp: ci_ok_def Let_def UCharCharacterIterator_new_def UCharCharacterIterator_new_at_def
      UCharCharacterIterator_new_range_def CharacterIterator_new_def CharacterIterator_new_at_def
      CharacterIterator_new_range_def)

lemma ci_ok_setText: "ci_allowed (SetText t n) \<Longrightarrow> ci_ok (ci_setText it t n)"
  by (cases t) (auto simp: ci_setText_def ci_ok_def split: if_splits)

lemma ci_exec_ok: "ci_ok it \<Longrightarrow> ci_allowed op \<Longrightarrow> ci_exec op it = (r, it') \<Longrightarrow> ci_ok it'"
  using ci_exec_same_range [of it op r it'] ci_ok_setText by (cases op) (auto simp: same_range_def)

lemma ci_reach_ok: "ci_reach it \<Longrightarrow> ci_ok it"
proof (induction rule: ci_reach.induct)
  case (ci_step it op r it')
  then show ?case using ci_exec_ok by blast
qed (rule ci_ok_new, assumption)+

text \<open>
  C23. Whatever constructor makes an iterator and whatever operations run on it afterwards, \<open>setText\<close> included, the position
  stays inside the iteration range and the range inside the text, so that no operation can make a later one read outside the
  array.  \<open>setText\<close> makes the range the whole new text; every other operation keeps the text and the range.  The caller
  owes an array of the length it gives, or a terminated one, of fewer than \<open>INT32_MAX\<close> units.
\<close>

theorem iterator_invariant:
  assumes "ci_reach it"
  shows "ci_ok it \<and> (\<forall>op r it'. ci_allowed op \<longrightarrow> ci_exec op it = (r, it') \<longrightarrow> ci_reach it' \<and> ci_ok it' \<and>
    (case op of
       SetText t n \<Rightarrow> ci_text it' = (case t of None \<Rightarrow> [] | Some u \<Rightarrow> u) \<and> ci_begin it' = 0 \<and> ci_pos it' = 0 \<and>
         ci_end it' = (if t = None then 0 else max 0 n) \<and> ci_textLength it' = ci_end it'
     | _ \<Rightarrow> ci_text it' = ci_text it \<and> ci_begin it' = ci_begin it \<and> ci_end it' = ci_end it \<and>
         ci_textLength it' = ci_textLength it))"
proof -
  note ok = ci_reach_ok [OF assms]
  have k: "case op of
       SetText t n \<Rightarrow> ci_text it' = (case t of None \<Rightarrow> [] | Some u \<Rightarrow> u) \<and> ci_begin it' = 0 \<and> ci_pos it' = 0 \<and>
         ci_end it' = (if t = None then 0 else max 0 n) \<and> ci_textLength it' = ci_end it'
     | _ \<Rightarrow> ci_text it' = ci_text it \<and> ci_begin it' = ci_begin it \<and> ci_end it' = ci_end it \<and>
         ci_textLength it' = ci_textLength it" if "ci_exec op it = (r, it')" for op r it'
    using ci_exec_same_range [OF ok that] that
    by (cases op) (auto simp: same_range_def ci_setText_def Let_def)
  show ?thesis using ok k ci_exec_ok [OF ok] ci_step [OF assms] by blast
qed

text \<open>
  The range does not protect \<open>move\<close> from a \<open>delta\<close> that overflows: moving by \<open>INT32_MAX\<close> from any position behind
  the first unit goes to the start instead of the end.  With a text of \<open>INT32_MAX\<close> units \<open>next()\<close> at the end leaves the
  text, which is why such a text is excluded above.
\<close>

lemma wrap_int32_large: "2 ^ 31 \<le> x \<Longrightarrow> x < 2 ^ 32 \<Longrightarrow> wrap_int32 x = x - 2 ^ 32"
  using mod_pos_pos_trivial [of "x - 2 ^ 31" "2 ^ 32"] mod_add_self2 [of "x - 2 ^ 31" "2 ^ 32"]
  by (simp add: wrap_int32_def add.commute)

theorem move_wraps:
  assumes "ci_ok it" and "0 < ci_pos it"
  shows "fst (ci_move it INT32_MAX kCurrent) = ci_begin it"
proof -
  have "wrap_int32 (ci_pos it + INT32_MAX) < 0" using assms by (subst wrap_int32_large) (auto simp: ci_ok_def)
  then show ?thesis using assms(1) by (simp add: ci_move_def Let_def ci_ok_def)
qed

theorem next_wraps:
  assumes "ci_pos it = INT32_MAX" and "ci_end it = INT32_MAX"
  shows "ci_pos (snd (ci_next it)) = - (2 ^ 31)"
  using assms by (simp add: ci_next_def wrap_int32_large)

section \<open>Enumeration\<close>

text \<open>
  The loops of the class documentation: forward with \<open>next32PostInc\<close> while \<open>hasNext\<close>, backward with
  \<open>previous32\<close> while \<open>hasPrevious\<close>.
\<close>

function ci_forward32 :: "CharIter \<Rightarrow> UChar32 list" where
  "ci_forward32 it =
     (if ci_hasNext it then (case ci_next32PostInc it of (c, it') \<Rightarrow> c # ci_forward32 it') else [])"
  by pat_completeness auto
termination
  by (relation "measure (\<lambda>it. nat (ci_end it - ci_pos it))")
    (auto simp: ci_hasNext_def ci_next32PostInc_def U16_NEXT_def Let_def split: if_splits)

function ci_backward32 :: "CharIter \<Rightarrow> UChar32 list" where
  "ci_backward32 it =
     (if ci_hasPrevious it \<and> 0 \<le> ci_begin it
      then (case ci_previous32 it of (c, it') \<Rightarrow> c # ci_backward32 it') else [])"
  by pat_completeness auto
termination
  by (relation "measure (\<lambda>it. nat (ci_pos it))")
    (auto simp: ci_hasPrevious_def ci_previous32_def U16_PREV_def Let_def split: if_splits)

declare ci_forward32.simps [simp del] ci_backward32.simps [simp del]

lemma ci_forward32_correct:
  "ci_ok it \<Longrightarrow> ci_forward32 it = code_points (slice (ci_text it) (nat (ci_pos it)) (nat (ci_end it)))"
proof (induction it rule: ci_forward32.induct)
  case (1 it)
  show ?case
  proof (cases "ci_hasNext it")
    case True
    obtain c i where n: "ci_NEXT it = (c, i)" by fastforce
    have lt: "ci_pos it < ci_end it" using True by (simp add: ci_hasNext_def)
    have e: "ci_next32PostInc it = (c, it\<lparr>ci_pos := int i\<rparr>)" using lt n by (simp add: ci_next32PostInc_def)
    note r = ci_NEXT_range [OF "1.prems" lt n]
    have "ci_ok (it\<lparr>ci_pos := int i\<rparr>)" using "1.prems" r(1,2) by (auto simp: ci_ok_def)
    from "1.IH" [OF True e [symmetric] this] show ?thesis
      using True by (subst ci_forward32.simps) (simp add: e r(3))
  next
    case False
    then show ?thesis using ci_bounds [OF "1.prems"]
      by (subst ci_forward32.simps) (simp add: ci_hasNext_def)
  qed
qed

lemma ci_backward32_correct:
  "ci_ok it \<Longrightarrow> ci_backward32 it = rev (code_points (slice (ci_text it) (nat (ci_begin it)) (nat (ci_pos it))))"
proof (induction it rule: ci_backward32.induct)
  case (1 it)
  show ?case
  proof (cases "ci_hasPrevious it")
    case True
    obtain c i where n: "ci_PREV it = (c, i)" by fastforce
    have lt: "ci_begin it < ci_pos it" using True by (simp add: ci_hasPrevious_def)
    have e: "ci_previous32 it = (c, it\<lparr>ci_pos := int i\<rparr>)" using lt n by (simp add: ci_previous32_def)
    note r = ci_PREV_range [OF "1.prems" lt n]
    have ok: "ci_ok (it\<lparr>ci_pos := int i\<rparr>)" using "1.prems" r(1,2) by (auto simp: ci_ok_def)
    have g: "ci_hasPrevious it \<and> 0 \<le> ci_begin it" using True ci_bounds [OF "1.prems"] by simp
    from "1.IH" [OF g e [symmetric] ok] show ?thesis
      using g by (subst ci_backward32.simps) (simp add: e r(3))
  next
    case False
    then show ?thesis using ci_bounds [OF "1.prems"]
      by (subst ci_backward32.simps) (simp add: ci_hasPrevious_def)
  qed
qed

text \<open>
  C24. The documented loops terminate and enumerate exactly the code points of the iteration range: in
  order after \<open>setToStart()\<close>, in reverse order after \<open>setToEnd()\<close>.  Unpaired surrogates, also those
  made by a range that splits a pair, come out as themselves.
\<close>

theorem iterator_enumerates:
  assumes "ci_ok it"
  shows "ci_forward32 (snd (ci_setToStart it)) =
      code_points (slice (ci_text it) (nat (ci_begin it)) (nat (ci_end it))) \<and>
    ci_backward32 (snd (ci_setToEnd it)) =
      rev (code_points (slice (ci_text it) (nat (ci_begin it)) (nat (ci_end it))))"
proof -
  have "ci_ok (it\<lparr>ci_pos := ci_begin it\<rparr>)" "ci_ok (it\<lparr>ci_pos := ci_end it\<rparr>)" using assms by (auto simp: ci_ok_def)
  moreover have "wrap_int32 (ci_begin it) = ci_begin it" "wrap_int32 (ci_end it) = ci_end it"
    using assms by (auto simp: ci_ok_def intro!: wrap_int32_small)
  ultimately show ?thesis
    using ci_bounds [OF assms] ci_forward32_correct [of "it\<lparr>ci_pos := ci_begin it\<rparr>"]
      ci_backward32_correct [of "it\<lparr>ci_pos := ci_end it\<rparr>"]
    by (simp add: ci_setToStart_def ci_setToEnd_def ci_move_def Let_def)
qed

text \<open>
  \<open>previous32()\<close> undoes \<open>next32PostInc()\<close>: from a position that splits no surrogate pair of the
  range, it returns the same code point and restores the iterator.
\<close>

theorem previous_undoes_next:
  assumes "ci_ok it" and "ci_hasNext it"
    and "ci_begin it < ci_pos it \<Longrightarrow> cp_boundary (take (nat (ci_end it)) (ci_text it)) (nat (ci_pos it))"
    and "ci_next32PostInc it = (c, it')"
  shows "ci_previous32 it' = (c, it)"
proof -
  obtain i where n: "ci_NEXT it = (c, i)" "it' = it\<lparr>ci_pos := int i\<rparr>"
    using assms(2,4) by (auto simp: ci_next32PostInc_def ci_hasNext_def split: prod.splits)
  note b = ci_bounds [OF assms(1)]
  have lt: "ci_pos it < ci_end it" using assms(2) by (simp add: ci_hasNext_def)
  have "U16_PREV (ci_text it) (nat (ci_begin it)) i = (c, nat (ci_pos it))"
    using b lt assms(3) by (intro U16_PREV_NEXT [OF n(1)]) auto
  moreover have "ci_begin it < int i" using ci_NEXT_range(1) [OF assms(1) lt n(1)] b by linarith
  ultimately show ?thesis using b n(2) by (simp add: ci_previous32_def)
qed

text \<open>
  \<open>move32\<close> from the start of the range skips \<open>delta\<close> code points, from its end it goes back by
  \<open>-delta\<close> code points, pinned to the range in both directions, unless \<open>-delta\<close> overflows.
\<close>

theorem move32_spec:
  assumes "ci_ok it" and "- (2 ^ 31) < delta" and "delta < 2 ^ 31"
  shows "code_points (slice (ci_text it) (nat (fst (ci_move32 it delta kStart))) (nat (ci_end it))) =
      drop (nat delta) (code_points (slice (ci_text it) (nat (ci_begin it)) (nat (ci_end it)))) \<and>
    code_points (slice (ci_text it) (nat (ci_begin it)) (nat (fst (ci_move32 it delta kEnd)))) =
      take (length (code_points (slice (ci_text it) (nat (ci_begin it)) (nat (ci_end it)))) - nat (- delta))
        (code_points (slice (ci_text it) (nat (ci_begin it)) (nat (ci_end it))))"
proof -
  note b = ci_bounds [OF assms(1)]
  have "nat (ci_begin it) \<le> nat (ci_end it)" using b by linarith
  moreover have "wrap_int32 (- delta) = - delta" using assms(2,3) by (intro wrap_int32_small) auto
  ultimately show ?thesis
    using U16_FWD_N_spec(1) [OF _ b(1), of "nat (ci_begin it)" "nat delta"]
      U16_BACK_N_spec(1) [OF _ b(1), of "nat (ci_begin it)" "nat (- delta)"] by (simp add: ci_move32_def Let_def)
qed

section \<open>Witnesses\<close>

abbreviation sample_iterator :: CharIter where
  "sample_iterator \<equiv> UCharCharacterIterator_new_range (Some [0x41, 0xd83d, 0xde00, 0x42, 0]) (-1) 0 9 1"

lemma sample_iterator_ok: "ci_ok sample_iterator"
  by code_simp

theorem iterator_invariant_witness:
  "ci_ok (snd (ci_next32 sample_iterator)) \<and> ci_end (snd (ci_next32 sample_iterator)) = 4 \<and>
   ci_ok (ci_setText sample_iterator (Some [0xd83d, 0xde00]) 2) \<and>
   ci_end (ci_setText sample_iterator (Some [0xd83d, 0xde00]) 2) = 2"
proof -
  have l: "text_fits (Some [0x41, 0xd83d, 0xde00, 0x42, 0]) (-1)" "ci_allowed (SetText (Some [0xd83d, 0xde00]) 2)"
    "ci_end sample_iterator = 4" by code_simp+
  note inv = iterator_invariant [OF ci_new_range [OF l(1), of 0 9 1], THEN conjunct2, rule_format]
  show ?thesis
    using inv [of Next32 "fst (ci_next32 sample_iterator)" "snd (ci_next32 sample_iterator)"]
      inv [OF l(2), of 0 "ci_setText sample_iterator (Some [0xd83d, 0xde00]) 2"] l(3) by simp
qed

theorem iterator_enumerates_witness:
  "ci_forward32 (snd (ci_setToStart sample_iterator)) = [0x41, 0x1f600, 0x42]"
proof -
  have "code_points (slice (ci_text sample_iterator) (nat (ci_begin sample_iterator)) (nat (ci_end sample_iterator)))
      = [0x41, 0x1f600, 0x42]" by code_simp
  then show ?thesis using iterator_enumerates [OF sample_iterator_ok] by simp
qed

theorem previous_undoes_next_witness:
  "ci_previous32 (snd (ci_next32PostInc sample_iterator)) = (0x1f600, sample_iterator)"
proof -
  have c: "ci_hasNext sample_iterator" "fst (ci_next32PostInc sample_iterator) = 0x1f600"
    "cp_boundary (take (nat (ci_end sample_iterator)) (ci_text sample_iterator)) (nat (ci_pos sample_iterator))"
    by code_simp+
  show ?thesis
    using previous_undoes_next [OF sample_iterator_ok c(1) c(3) prod.collapse [symmetric]] c(2) by simp
qed

theorem move32_spec_witness:
  "fst (ci_move32 sample_iterator 2 kStart) = 3 \<and> ci_ok sample_iterator \<and>
    code_points (slice (ci_text sample_iterator) 3 4) = [0x42]"
proof -
  have c: "fst (ci_move32 sample_iterator 2 kStart) = 3" "ci_end sample_iterator = 4"
    "code_points (slice (ci_text sample_iterator) (nat (ci_begin sample_iterator)) 4) = [0x41, 0x1f600, 0x42]"
    by code_simp+
  show ?thesis using move32_spec [OF sample_iterator_ok, of 2] c sample_iterator_ok by simp
qed

end
