(* ===== verification/Serialize.thy ===== *)
theory Serialize
  imports UnicodeSetQueries "HOL-Library.Signed_Division"
begin

unbundle bit_operations_syntax

text \<open>
  The serialized form of a set of code points: \<open>UnicodeSet::serialize\<close> (\<open>common/uniset.cpp\<close>) writes the
  inversion list as 16-bit units, and the functions of \<open>common/uset.cpp\<close> answer queries on the units
  without building a set.

  A unit is an integer between 0 and \<open>0xffff\<close>.  The array of a \<open>USerializedSet\<close> is the memory from
  the pointer on, which may be longer than the \<open>length\<close> units of the set; a read outside it is the
  error \<open>OutOfBounds\<close>.  The two binary searches take fuel, and running out of it is the error
  \<open>OutOfFuel\<close>: the search over supplementary code points need not end.
\<close>

section \<open>Serializing\<close>

definition ser_supplementary :: "int list \<Rightarrow> int list" where
  "ser_supplementary cs = concat (map (\<lambda>c. [drop_bit 16 c AND 0xffff, c AND 0xffff]) cs)"

text \<open>
  The result is the returned length, the destination array and the error code.  \<open>dest\<close> is the whole
  array of \<open>destCapacity\<close> units, \<open>None\<close> the null pointer.
\<close>

definition UnicodeSet_serialize ::
  "UnicodeSet \<Rightarrow> int list option \<Rightarrow> int \<Rightarrow> UErrorCode \<Rightarrow> int \<times> int list option \<times> UErrorCode" where
  "UnicodeSet_serialize s dest destCapacity ec =
     (if U_FAILURE ec then (0, dest, ec)
      else if destCapacity < 0 \<or> (destCapacity > 0 \<and> dest = None) then (0, dest, U_ILLEGAL_ARGUMENT_ERROR)
      else
        let n = length (us_list s) - 1; xs = take n (us_list s) in
        if n = 0 then
          (if destCapacity > 0 then (1, map_option (\<lambda>d. d[0 := 0]) dest, ec)
           else (1, dest, U_BUFFER_OVERFLOW_ERROR))
        else
          let bmpLength = (if xs ! (n - 1) \<le> 0xffff then n
                           else if xs ! 0 \<ge> 0x10000 then 0
                           else length (takeWhile (\<lambda>c. c \<le> 0xffff) xs));
              len = bmpLength + 2 * (n - bmpLength) in
          if len > 0x7fff then (0, dest, U_INDEX_OUTOFBOUNDS_ERROR)
          else
            let destLength = len + (if len > bmpLength then 2 else 1) in
            if int destLength \<le> destCapacity then
              (let units = (if len > bmpLength then [int len OR 0x8000, int bmpLength] else [int len]) @
                           map (\<lambda>c. c AND 0xffff) (take bmpLength xs) @
                           ser_supplementary (drop bmpLength xs) in
               (int destLength, map_option (\<lambda>d. units @ drop destLength d) dest, ec))
            else (int destLength, dest, U_BUFFER_OVERFLOW_ERROR))"

section \<open>The serialized set\<close>

record USerializedSet =
  ser_array :: "int list"
  ser_bmpLength :: int
  ser_length :: int
  ser_staticArray :: "int list"

datatype ser_error = OutOfBounds | OutOfFuel

definition read16 :: "int list \<Rightarrow> int \<Rightarrow> ser_error + int" where
  "read16 array i = (if 0 \<le> i \<and> i < int (length array) then Inr (array ! nat i) else Inl OutOfBounds)"

definition uset_getSerializedSet ::
  "USerializedSet \<Rightarrow> int list option \<Rightarrow> int \<Rightarrow> bool \<times> USerializedSet" where
  "uset_getSerializedSet fillSet src srcLength =
     (let bad = (False, fillSet\<lparr>ser_length := 0, ser_bmpLength := 0\<rparr>) in
      case src of
        None \<Rightarrow> bad
      | Some units \<Rightarrow>
          if srcLength \<le> 0 then bad
          else
            let len = units ! 0 in
            if len AND 0x8000 \<noteq> 0 then
              (let len = len AND 0x7fff in
               if srcLength < 2 + len then bad
               else (True, fillSet\<lparr>ser_bmpLength := units ! 1, ser_array := drop 2 units, ser_length := len\<rparr>))
            else if srcLength < 1 + len then bad
            else (True, fillSet\<lparr>ser_bmpLength := len, ser_array := drop 1 units, ser_length := len\<rparr>))"

definition uset_setSerializedToOne :: "USerializedSet \<Rightarrow> UChar32 \<Rightarrow> USerializedSet" where
  "uset_setSerializedToOne fillSet c =
     (if c < 0 \<or> c > 0x10ffff then fillSet
      else
        let (bmp, len, units) =
              (if c < 0xffff then (2, 2, [c AND 0xffff, (c AND 0xffff) + 1])
               else if c = 0xffff then (1, 3, [0xffff, 1, 0])
               else if c < 0x10ffff then
                 (0, 4, [drop_bit 16 c AND 0xffff, c AND 0xffff,
                         drop_bit 16 (c + 1) AND 0xffff, (c + 1) AND 0xffff])
               else (0, 2, [0x10, 0xffff]));
            static = units @ drop (length units) (ser_staticArray fillSet) in
        fillSet\<lparr>ser_bmpLength := bmp, ser_length := len, ser_staticArray := static, ser_array := static\<rparr>)"

text \<open>The loop of the search in the BMP part.\<close>

fun bmp_search :: "nat \<Rightarrow> int list \<Rightarrow> UChar32 \<Rightarrow> int \<Rightarrow> int \<Rightarrow> ser_error + int" where
  "bmp_search 0 array c lo hi = Inl OutOfFuel"
| "bmp_search (Suc fuel) array c lo hi =
     (let i = drop_bit 1 (lo + hi) in
      if i = lo then Inr hi
      else case read16 array i of
             Inl e \<Rightarrow> Inl e
           | Inr v \<Rightarrow> if c < v then bmp_search fuel array c lo i else bmp_search fuel array c i hi)"

text \<open>\<open>high < array[i] || (high==array[i] && low<array[i+1])\<close>\<close>

definition pair_less :: "int list \<Rightarrow> int \<Rightarrow> int \<Rightarrow> int \<Rightarrow> ser_error + bool" where
  "pair_less array high low i =
     (case read16 array i of
        Inl e \<Rightarrow> Inl e
      | Inr h \<Rightarrow>
          if high < h then Inr True
          else if high = h then (case read16 array (i + 1) of Inl e \<Rightarrow> Inl e | Inr l \<Rightarrow> Inr (low < l))
          else Inr False)"

fun supplementary_search ::
  "nat \<Rightarrow> int list \<Rightarrow> int \<Rightarrow> int \<Rightarrow> int \<Rightarrow> int \<Rightarrow> int \<Rightarrow> ser_error + int" where
  "supplementary_search 0 array high low base lo hi = Inl OutOfFuel"
| "supplementary_search (Suc fuel) array high low base lo hi =
     (let i = drop_bit 1 (lo + hi) AND NOT 1 in
      if i = lo then Inr hi
      else case pair_less array high low (i + base) of
             Inl e \<Rightarrow> Inl e
           | Inr below \<Rightarrow>
               if below then supplementary_search fuel array high low base lo i
               else supplementary_search fuel array high low base i hi)"

definition uset_serializedContains :: "nat \<Rightarrow> USerializedSet \<Rightarrow> UChar32 \<Rightarrow> ser_error + bool" where
  "uset_serializedContains fuel sset c =
     (if c < 0 \<or> c > 0x10ffff then Inr False
      else if c \<le> 0xffff then
        (let array = ser_array sset; hi = ser_bmpLength sset - 1 in
         case read16 array 0 of
           Inl e \<Rightarrow> Inl e
         | Inr v \<Rightarrow>
             if c < v then Inr False
             else (case read16 array hi of
                     Inl e \<Rightarrow> Inl e
                   | Inr v \<Rightarrow>
                       if c < v then
                         (case bmp_search fuel array c 0 hi of Inl e \<Rightarrow> Inl e | Inr hi \<Rightarrow> Inr (hi AND 1 \<noteq> 0))
                       else Inr ((hi + 1) AND 1 \<noteq> 0)))
      else
        (let array = ser_array sset; high = drop_bit 16 c AND 0xffff; low = c AND 0xffff;
             base = ser_bmpLength sset; hi = ser_length sset - 2 - base;
             answer = (\<lambda>hi. Inr ((hi + push_bit 1 base) AND 2 \<noteq> 0)) in
         case pair_less array high low base of
           Inl e \<Rightarrow> Inl e
         | Inr below \<Rightarrow>
             if below then answer 0
             else (case pair_less array high low (base + hi) of
                     Inl e \<Rightarrow> Inl e
                   | Inr below \<Rightarrow>
                       if below then
                         (case supplementary_search fuel array high low base 0 hi of
                            Inl e \<Rightarrow> Inl e | Inr hi \<Rightarrow> answer hi)
                       else answer (hi + 2))))"

definition uset_getSerializedRangeCount :: "USerializedSet \<Rightarrow> int" where
  "uset_getSerializedRangeCount sset =
     (ser_bmpLength sset + (ser_length sset - ser_bmpLength sset) sdiv 2 + 1) sdiv 2"

text \<open>\<open>(((int32_t)array[i])<<16)|array[i+1]\<close>\<close>

definition read_pair :: "int list \<Rightarrow> int \<Rightarrow> ser_error + int" where
  "read_pair array i =
     (case read16 array i of
        Inl e \<Rightarrow> Inl e
      | Inr h \<Rightarrow> (case read16 array (i + 1) of Inl e \<Rightarrow> Inl e | Inr l \<Rightarrow> Inr (push_bit 16 h OR l)))"

text \<open>
  The bounds of a range, or \<open>None\<close> where the function returns \<open>FALSE\<close>.  The two doublings of the index are
  32-bit operations.
\<close>

definition uset_getSerializedRange :: "USerializedSet \<Rightarrow> int \<Rightarrow> ser_error + (int \<times> int) option" where
  "uset_getSerializedRange sset rangeIndex =
     (if rangeIndex < 0 then Inr None
      else
        let array = ser_array sset; len = ser_length sset; bmpLength = ser_bmpLength sset;
            rangeIndex = wrap_int32 (rangeIndex * 2) in
        if rangeIndex < bmpLength then
          (case read16 array rangeIndex of
             Inl e \<Rightarrow> Inl e
           | Inr start \<Rightarrow>
               let rangeIndex = rangeIndex + 1 in
               if rangeIndex < bmpLength then
                 (case read16 array rangeIndex of Inl e \<Rightarrow> Inl e | Inr l \<Rightarrow> Inr (Some (start, l - 1)))
               else if rangeIndex < len then
                 (case read_pair array rangeIndex of Inl e \<Rightarrow> Inl e | Inr l \<Rightarrow> Inr (Some (start, l - 1)))
               else Inr (Some (start, 0x10ffff)))
        else
          let rangeIndex = wrap_int32 ((rangeIndex - bmpLength) * 2); len = len - bmpLength in
          if rangeIndex < len then
            (case read_pair array (bmpLength + rangeIndex) of
               Inl e \<Rightarrow> Inl e
             | Inr start \<Rightarrow>
                 let rangeIndex = rangeIndex + 2 in
                 if rangeIndex < len then
                   (case read_pair array (bmpLength + rangeIndex) of
                      Inl e \<Rightarrow> Inl e | Inr l \<Rightarrow> Inr (Some (start, l - 1)))
                 else Inr (Some (start, 0x10ffff)))
          else Inr None)"


section \<open>The meaning of a serialized set\<close>

text \<open>The units that follow the lengths, for a list of BMP and a list of supplementary code points.\<close>

definition ser_of :: "int list \<Rightarrow> int list \<Rightarrow> USerializedSet \<Rightarrow> bool" where
  "ser_of B S sset \<longleftrightarrow> wf_inv (B @ S @ [UNICODESET_HIGH]) \<and> (\<forall>c \<in> set B. c \<le> 0xffff) \<and> (\<forall>c \<in> set S. 0xffff < c) \<and>
     (\<exists>junk. ser_array sset = B @ ser_supplementary S @ junk) \<and>
     ser_bmpLength sset = int (length B) \<and> ser_length sset = int (length B + 2 * length S)"

lemma drop_16: "drop_bit 16 c = c div 0x10000" for c :: int
  by (simp add: drop_bit_eq_div)

lemma length_ser_supplementary [simp]: "length (ser_supplementary S) = 2 * length S"
  by (induction S) (simp_all add: ser_supplementary_def)

lemma nth_ser_supplementary:
  "k < length S \<Longrightarrow> ser_supplementary S ! (2 * k) = (S ! k div 0x10000) mod 0x10000 \<and>
     ser_supplementary S ! (2 * k + 1) = S ! k mod 0x10000"
proof (induction S arbitrary: k)
  case (Cons c S)
  then show ?case
    by (cases k) (simp_all add: ser_supplementary_def and_ffff drop_16)
qed simp

lemma ser_of_bounds:
  assumes "ser_of B S sset"
  shows "\<And>k. k < length B \<Longrightarrow> 0 \<le> B ! k \<and> B ! k \<le> 0xffff" "\<And>k. k < length S \<Longrightarrow> 0x10000 \<le> S ! k \<and> S ! k < UNICODESET_HIGH"
    "sorted_wrt (<) B" "sorted_wrt (<) S"
proof -
  have s: "sorted_wrt (<) (B @ S @ [UNICODESET_HIGH])" and h: "0 \<le> hd (B @ S @ [UNICODESET_HIGH])"
    using assms by (auto simp: ser_of_def wf_inv_def)
  have m: "\<forall>c \<in> set (B @ S @ [UNICODESET_HIGH]). hd (B @ S @ [UNICODESET_HIGH]) \<le> c"
    using s by (cases "B @ S @ [UNICODESET_HIGH]") auto
  have "\<forall>c \<in> set (B @ S @ [UNICODESET_HIGH]). 0 \<le> c" using m h by (meson order_trans)
  then have B: "\<forall>c \<in> set B. 0 \<le> c \<and> c \<le> 0xffff" using assms by (simp add: ser_of_def)
  have S: "\<forall>c \<in> set S. 0x10000 \<le> c \<and> c < UNICODESET_HIGH" using s assms by (auto simp: ser_of_def sorted_wrt_append)
  show "\<And>k. k < length B \<Longrightarrow> 0 \<le> B ! k \<and> B ! k \<le> 0xffff" using B by simp
  show "\<And>k. k < length S \<Longrightarrow> 0x10000 \<le> S ! k \<and> S ! k < UNICODESET_HIGH" using S by simp
  show "sorted_wrt (<) B" "sorted_wrt (<) S" using s by (auto simp: sorted_wrt_append)
qed

lemma read_bmp:
  assumes "ser_of B S sset" and "0 \<le> i" and "i < int (length B)"
  shows "read16 (ser_array sset) i = Inr (B ! nat i)"
  using assms by (auto simp: ser_of_def read16_def nth_append nat_less_iff)

lemma read_supplementary:
  assumes "ser_of B S sset" and "k < length S"
  shows "read16 (ser_array sset) (int (length B + 2 * k)) = Inr (S ! k div 0x10000)"
    and "read16 (ser_array sset) (int (length B + 2 * k) + 1) = Inr (S ! k mod 0x10000)"
proof -
  obtain junk where a: "ser_array sset = B @ ser_supplementary S @ junk" using assms(1) by (auto simp: ser_of_def)
  have h: "S ! k div 0x10000 mod 0x10000 = S ! k div 0x10000"
    using ser_of_bounds(2) [OF assms] by (intro mod_pos_pos_trivial) auto
  show "read16 (ser_array sset) (int (length B + 2 * k)) = Inr (S ! k div 0x10000)"
    using nth_ser_supplementary [OF assms(2)] assms(2) h
    by (simp add: read16_def a nth_append nat_add_distrib nat_mult_distrib)
  have "nat (int (length B + 2 * k) + 1) = length B + (2 * k + 1)" by simp
  then show "read16 (ser_array sset) (int (length B + 2 * k) + 1) = Inr (S ! k mod 0x10000)"
    using nth_ser_supplementary [OF assms(2)] assms(2)
    by (simp add: read16_def a nth_append)
qed

lemma pair_less_iff:
  assumes "ser_of B S sset" and "k < length S" and "0 \<le> c"
  shows "pair_less (ser_array sset) (c div 0x10000) (c mod 0x10000) (int (length B + 2 * k)) = Inr (c < S ! k)"
proof -
  let ?s = "S ! k"
  have "c < ?s \<longleftrightarrow> c div 0x10000 < ?s div 0x10000 \<or> (c div 0x10000 = ?s div 0x10000 \<and> c mod 0x10000 < ?s mod 0x10000)"
  proof -
    have "c = c div 0x10000 * 0x10000 + c mod 0x10000" "?s = ?s div 0x10000 * 0x10000 + ?s mod 0x10000"
      "0 \<le> c mod 0x10000" "c mod 0x10000 < 0x10000" "0 \<le> ?s mod 0x10000" "?s mod 0x10000 < 0x10000" by simp_all
    then show ?thesis by linarith
  qed
  then show ?thesis
    using read_supplementary [OF assms(1,2)] by (auto simp: pair_less_def)
qed

section \<open>The searches\<close>

lemma bmp_search_correct:
  assumes "ser_of B S sset" and "hi < int (length B)"
  shows "0 \<le> lo \<Longrightarrow> lo < hi \<Longrightarrow> B ! nat lo \<le> c \<Longrightarrow> c < B ! nat hi \<Longrightarrow> hi - lo \<le> int fuel \<Longrightarrow>
    \<exists>r. bmp_search fuel (ser_array sset) c lo hi = Inr r \<and> lo < r \<and> r \<le> hi \<and> B ! nat (r - 1) \<le> c \<and> c < B ! nat r"
  using assms(2)
proof (induction fuel arbitrary: lo hi)
  case (Suc fuel)
  let ?i = "drop_bit 1 (lo + hi)"
  have i: "?i = (lo + hi) div 2" by (simp add: drop_bit_eq_div)
  have r: "lo \<le> ?i" "?i < hi" unfolding i using Suc.prems by auto
  show ?case
  proof (cases "?i = lo")
    case True
    then have "hi = lo + 1" using i Suc.prems by linarith
    then show ?thesis using True Suc.prems by (simp add: Let_def)
  next
    case False
    have rd: "read16 (ser_array sset) ?i = Inr (B ! nat ?i)"
      by (rule read_bmp [OF assms(1)]) (use r Suc.prems in auto)
    show ?thesis
    proof (cases "c < B ! nat ?i")
      case True
      obtain r' where "bmp_search fuel (ser_array sset) c lo ?i = Inr r'" "lo < r'" "r' \<le> ?i"
        "B ! nat (r' - 1) \<le> c" "c < B ! nat r'"
        using Suc.IH [of lo ?i] r False True Suc.prems by auto
      then show ?thesis using True False rd r by (auto simp: Let_def)
    next
      case ge: False
      obtain r' where "bmp_search fuel (ser_array sset) c ?i hi = Inr r'" "?i < r'" "r' \<le> hi"
        "B ! nat (r' - 1) \<le> c" "c < B ! nat r'"
        using Suc.IH [of ?i hi] r False ge Suc.prems by auto
      then show ?thesis using ge False rd r by (auto simp: Let_def)
    qed
  qed
qed simp

lemma even_mid: "drop_bit 1 (2 * a + 2 * b) AND NOT 1 = 2 * ((a + b) div 2)" for a b :: int
proof -
  have "drop_bit 1 (2 * a + 2 * b) = a + b" by (simp add: drop_bit_eq_div)
  moreover have "m AND NOT 1 = 2 * (m div 2)" for m :: int
    using and_not_low_mask [of m 1] by (simp add: push_bit_eq_mult drop_bit_eq_div)
  ultimately show ?thesis by simp
qed

lemma supplementary_search_correct:
  assumes "ser_of B S sset" and "0 \<le> c"
  shows "a < b \<Longrightarrow> b < length S \<Longrightarrow> S ! a \<le> c \<Longrightarrow> c < S ! b \<Longrightarrow> b - a \<le> fuel \<Longrightarrow>
    \<exists>r. supplementary_search fuel (ser_array sset) (c div 0x10000) (c mod 0x10000) (int (length B))
        (2 * int a) (2 * int b) = Inr (2 * int r) \<and> a < r \<and> r \<le> b \<and> S ! (r - 1) \<le> c \<and> c < S ! r"
proof (induction fuel arbitrary: a b)
  case (Suc fuel)
  let ?m = "(a + b) div 2"
  have i: "drop_bit 1 (2 * int a + 2 * int b) AND NOT 1 = 2 * int ?m" unfolding even_mid by simp
  have r: "a \<le> ?m" "?m < b" using Suc.prems by auto
  have f: "?m - a \<le> fuel" "?m \<noteq> a \<Longrightarrow> b - ?m \<le> fuel" using r Suc.prems by linarith+
  show ?case
  proof (cases "?m = a")
    case True
    then have "b = a + 1" using Suc.prems by linarith
    then show ?thesis using i True Suc.prems by (auto simp: Let_def intro!: exI [of _ b])
  next
    case False
    have e: "2 * int ?m + int (length B) = int (length B + 2 * ?m)" by simp
    have p: "pair_less (ser_array sset) (c div 0x10000) (c mod 0x10000) (2 * int ?m + int (length B)) = Inr (c < S ! ?m)"
      unfolding e by (rule pair_less_iff [OF assms(1) _ assms(2)]) (use r Suc.prems in simp)
    have ne: "2 * int ?m \<noteq> 2 * int a" using False by simp
    show ?thesis
    proof (cases "c < S ! ?m")
      case True
      obtain r' where "supplementary_search fuel (ser_array sset) (c div 0x10000) (c mod 0x10000) (int (length B))
          (2 * int a) (2 * int ?m) = Inr (2 * int r')" "a < r'" "r' \<le> ?m" "S ! (r' - 1) \<le> c" "c < S ! r'"
        using Suc.IH [of a ?m] r f False True Suc.prems by auto
      then show ?thesis using True ne p r unfolding supplementary_search.simps Let_def i by auto
    next
      case ge: False
      obtain r' where "supplementary_search fuel (ser_array sset) (c div 0x10000) (c mod 0x10000) (int (length B))
          (2 * int ?m) (2 * int b) = Inr (2 * int r')" "?m < r'" "r' \<le> b" "S ! (r' - 1) \<le> c" "c < S ! r'"
        using Suc.IH [of ?m b] r f False ge Suc.prems by auto
      then show ?thesis using ge ne p r unfolding supplementary_search.simps Let_def i by auto
    qed
  qed
qed simp

lemma and_1_odd: "h AND 1 \<noteq> 0 \<longleftrightarrow> odd h" for h :: int
  by (simp add: and_one_eq odd_iff_mod_2_eq_one)

lemma and_2_odd: "(2 * k + push_bit 1 b) AND 2 \<noteq> 0 \<longleftrightarrow> odd (k + b)" for k b :: int
proof -
  have e: "2 * k + push_bit 1 b = push_bit 1 (k + b)" by (simp add: push_bit_eq_mult)
  have p: "push_bit n m AND push_bit n 1 = push_bit n (m AND 1)" for m :: int and n
    by (rule bit_eqI) (auto simp: bit_simps)
  have "push_bit 1 m AND 2 \<noteq> 0 \<longleftrightarrow> odd m" for m :: int
    using and_1_odd [of m] p [of 1 m] by (simp add: push_bit_eq_mult)
  then show ?thesis unfolding e .
qed

text \<open>Membership from the position in the inversion list.\<close>

lemma ser_position:
  assumes "ser_of B S sset" and "c < UNICODESET_HIGH" and "r \<le> length (B @ S)"
    and "\<And>j. j < r \<Longrightarrow> (B @ S) ! j \<le> c" and "r < length (B @ S) \<Longrightarrow> c < (B @ S) ! r"
  shows "c \<in> inv_set (B @ S @ [UNICODESET_HIGH]) \<longleftrightarrow> odd r"
proof -
  have wf: "wf_inv ((B @ S) @ [UNICODESET_HIGH])" using assms(1) by (simp add: ser_of_def)
  have n: "((B @ S) @ [UNICODESET_HIGH]) ! j = (if j < length (B @ S) then (B @ S) ! j else UNICODESET_HIGH)"
    if "j \<le> length (B @ S)" for j
    using that nth_append [of "B @ S" "[UNICODESET_HIGH]" j] by (simp only: length_append) auto
  have "findCodePoint_list ((B @ S) @ [UNICODESET_HIGH]) c = r"
  proof (rule findCodePoint_unique [OF wf assms(2)])
    show "r < length ((B @ S) @ [UNICODESET_HIGH])" using assms(3) by simp
    show "c < ((B @ S) @ [UNICODESET_HIGH]) ! r" unfolding n [OF assms(3)] using assms(2,5) by simp
    show "\<forall>j<r. ((B @ S) @ [UNICODESET_HIGH]) ! j \<le> c" using n assms(3,4) by (metis less_le_trans less_imp_le)
  qed
  then show ?thesis using findCodePoint_odd_iff [OF wf assms(2)] by simp
qed


section \<open>Queries\<close>

lemma sorted_le: "sorted_wrt (<) xs \<Longrightarrow> i \<le> j \<Longrightarrow> j < length xs \<Longrightarrow> xs ! i \<le> xs ! j" for xs :: "int list"
  by (metis le_neq_implies_less less_imp_le order_refl sorted_wrt_nth_less)

lemma sorted_le_last:
  fixes xs :: "int list"
  assumes "sorted_wrt (<) xs" and "j < length xs" and "xs ! (length xs - 1) \<le> c"
  shows "xs ! j \<le> c"
proof -
  have "j \<le> length xs - 1" "length xs - 1 < length xs" using assms(2) by linarith+
  then show ?thesis using sorted_le [OF assms(1)] assms(3) by fastforce
qed

lemma serializedContains_bmp:
  assumes ok: "ser_of B S sset" and c: "0 \<le> c" "c \<le> 0xffff" and B: "B \<noteq> []" and fuel: "length B \<le> fuel"
  shows "uset_serializedContains fuel sset c = Inr (c \<in> inv_set (B @ S @ [UNICODESET_HIGH]))"
proof -
  note b = ser_of_bounds [OF ok]
  have H: "c < UNICODESET_HIGH" using c by simp
  have n: "(B @ S) ! j = (if j < length B then B ! j else S ! (j - length B))" for j by (simp add: nth_append)
  have S: "c < S ! k" if "k < length S" for k using b(2) [OF that] c by simp
  have len: "ser_bmpLength sset = int (length B)" using ok by (simp add: ser_of_def)
  have r0: "read16 (ser_array sset) 0 = Inr (B ! 0)" using read_bmp [OF ok, of 0] B by simp
  have nb: "nat (int (length B) - 1) = length B - 1" by linarith
  have rl: "read16 (ser_array sset) (int (length B) - 1) = Inr (B ! (length B - 1))"
    using read_bmp [OF ok, of "int (length B) - 1"] B nb by (simp add: Suc_le_eq)
  consider "c < B ! 0" | "B ! 0 \<le> c" "c < B ! (length B - 1)" | "B ! (length B - 1) \<le> c" by linarith
  then show ?thesis
  proof cases
    case 1
    have "c \<in> inv_set (B @ S @ [UNICODESET_HIGH]) \<longleftrightarrow> odd (0 :: nat)"
      by (rule ser_position [OF ok H]) (use 1 B in \<open>auto simp: n\<close>)
    then show ?thesis using c 1 r0 by (simp add: uset_serializedContains_def Let_def)
  next
    case 2
    have "length B - 1 \<noteq> 0" using 2 by auto
    then have l2: "0 < int (length B) - 1" by linarith
    obtain r where r: "bmp_search fuel (ser_array sset) c 0 (int (length B) - 1) = Inr r" "0 < r"
      "r \<le> int (length B) - 1" "B ! nat (r - 1) \<le> c" "c < B ! nat r"
      using bmp_search_correct [OF ok, of "int (length B) - 1" 0 c fuel] 2 l2 fuel
      by (auto simp: nb)
    have "c \<in> inv_set (B @ S @ [UNICODESET_HIGH]) \<longleftrightarrow> odd (nat r)"
    proof (rule ser_position [OF ok H])
      show "nat r \<le> length (B @ S)" using r by simp
      show "c < (B @ S) ! nat r" using r by (simp add: n nat_less_iff)
      show "(B @ S) ! j \<le> c" if "j < nat r" for j
      proof -
        have "j \<le> nat (r - 1)" "nat (r - 1) < length B" "j < length B" using that r(2,3) by linarith+
        then show ?thesis using sorted_le [OF b(3), of j "nat (r - 1)"] r(4) by (simp add: n)
      qed
    qed
    moreover have "odd (nat r) \<longleftrightarrow> r AND 1 \<noteq> 0" using r(2) and_1_odd by (simp add: even_nat_iff)
    moreover have "\<not> c < B ! 0" using 2 by simp
    ultimately show ?thesis using c 2 r0 rl r(1) len by (simp add: uset_serializedContains_def Let_def)
  next
    case 3
    have "c \<in> inv_set (B @ S @ [UNICODESET_HIGH]) \<longleftrightarrow> odd (length B)"
    proof (rule ser_position [OF ok H])
      show "(B @ S) ! j \<le> c" if "j < length B" for j
        using sorted_le_last [OF b(3) that 3] that by (simp add: n)
    qed (use S in \<open>auto simp: n\<close>)
    moreover have "odd (length B) \<longleftrightarrow> int (length B) AND 1 \<noteq> 0" using and_1_odd [of "int (length B)"] by simp
    moreover have "\<not> c < B ! 0" using 3 sorted_le [OF b(3), of 0 "length B - 1"] B by simp
    ultimately show ?thesis using c 3 r0 rl len by (simp add: uset_serializedContains_def Let_def)
  qed
qed

lemma serializedContains_supplementary:
  assumes ok: "ser_of B S sset" and c: "0xffff < c" "c \<le> 0x10ffff" and S: "S \<noteq> []" and fuel: "length S \<le> fuel"
  shows "uset_serializedContains fuel sset c = Inr (c \<in> inv_set (B @ S @ [UNICODESET_HIGH]))"
proof -
  note b = ser_of_bounds [OF ok]
  have H: "c < UNICODESET_HIGH" "0 \<le> c" using c by auto
  have n: "(B @ S) ! j = (if j < length B then B ! j else S ! (j - length B))" for j by (simp add: nth_append)
  have B: "B ! k \<le> c" if "k < length B" for k using b(1) [OF that] c by simp
  have hl: "drop_bit 16 c AND 0xffff = c div 0x10000" "c AND 0xffff = c mod 0x10000"
    using c by (auto simp: and_ffff drop_16 intro!: mod_pos_pos_trivial)
  have len: "ser_bmpLength sset = int (length B)" "ser_length sset - 2 - int (length B) = 2 * int (length S - 1)"
    using ok S by (auto simp: ser_of_def of_nat_diff Suc_le_eq)
  have e: "int (length B) + 2 * int k = int (length B + 2 * k)" for k by simp
  have p0: "pair_less (ser_array sset) (c div 0x10000) (c mod 0x10000) (int (length B)) = Inr (c < S ! 0)"
    using pair_less_iff [OF ok _ H(2), of 0] S by simp
  have pl: "pair_less (ser_array sset) (c div 0x10000) (c mod 0x10000) (int (length B) + 2 * int (length S - 1)) =
      Inr (c < S ! (length S - 1))"
    unfolding e by (rule pair_less_iff [OF ok _ H(2)]) (use S in simp)
  have pos: "c \<in> inv_set (B @ S @ [UNICODESET_HIGH]) \<longleftrightarrow> (2 * int k + push_bit 1 (int (length B))) AND 2 \<noteq> 0"
    if "k \<le> length S" "\<And>j. j < k \<Longrightarrow> S ! j \<le> c" "k < length S \<Longrightarrow> c < S ! k" for k
  proof -
    have "c \<in> inv_set (B @ S @ [UNICODESET_HIGH]) \<longleftrightarrow> odd (length B + k)"
      by (rule ser_position [OF ok H(1)]) (use that B in \<open>auto simp: n\<close>)
    then show ?thesis unfolding and_2_odd by (metis add.commute even_of_nat of_nat_add)
  qed
  note defs = uset_serializedContains_def Let_def len hl
  consider "c < S ! 0" | "S ! 0 \<le> c" "c < S ! (length S - 1)" | "S ! (length S - 1) \<le> c" by linarith
  then show ?thesis
  proof cases
    case 1
    have "c \<in> inv_set (B @ S @ [UNICODESET_HIGH]) \<longleftrightarrow> (0 + push_bit 1 (int (length B))) AND 2 \<noteq> 0"
      using pos [of 0] 1 by simp
    then show ?thesis using c 1 p0 unfolding defs by simp
  next
    case 2
    have fS: "length S - Suc 0 \<le> fuel" using fuel by simp
    have l2: "0 < length S - 1" using 2 by (cases "length S - 1") auto
    obtain r where r: "supplementary_search fuel (ser_array sset) (c div 0x10000) (c mod 0x10000) (int (length B))
        0 (2 * int (length S - 1)) = Inr (2 * int r)" "0 < r" "r \<le> length S - 1" "S ! (r - 1) \<le> c" "c < S ! r"
      using supplementary_search_correct [OF ok H(2), of 0 "length S - 1" fuel] 2 l2 fuel S fS by auto
    have "c \<in> inv_set (B @ S @ [UNICODESET_HIGH]) \<longleftrightarrow> (2 * int r + push_bit 1 (int (length B))) AND 2 \<noteq> 0"
    proof (rule pos)
      show "S ! j \<le> c" if "j < r" for j
      proof -
        have "j \<le> r - 1" "r - 1 < length S" using that r(2,3) l2 by linarith+
        then show ?thesis using sorted_le [OF b(4), of j "r - 1"] r(4) by simp
      qed
    qed (use r in auto)
    then show ?thesis using c 2 p0 pl r(1) unfolding defs by simp
  next
    case 3
    have k: "2 * int (length S - 1) + 2 = 2 * int (length S)" using S by (simp add: of_nat_diff Suc_le_eq)
    have "c \<in> inv_set (B @ S @ [UNICODESET_HIGH]) \<longleftrightarrow> (2 * int (length S) + push_bit 1 (int (length B))) AND 2 \<noteq> 0"
    proof (rule pos)
      show "S ! j \<le> c" if "j < length S" for j using sorted_le_last [OF b(4) that 3] .
    qed auto
    moreover have "\<not> c < S ! 0" using 3 sorted_le [OF b(4), of 0 "length S - 1"] S by simp
    ultimately show ?thesis using c 3 p0 pl k unfolding defs by simp
  qed
qed


lemma read_pair_correct:
  assumes "ser_of B S sset" and "k < length S"
  shows "read_pair (ser_array sset) (int (length B + 2 * k)) = Inr (S ! k)"
proof -
  have "push_bit 16 (S ! k div 0x10000) OR S ! k mod 0x10000 = S ! k"
    using or_disjoint [of "S ! k mod 0x10000" 16 "S ! k div 0x10000"]
    by (simp add: push_bit_eq_mult or.commute)
  then show ?thesis using read_supplementary [OF assms] by (simp add: read_pair_def)
qed

lemma getSerializedRange_correct:
  fixes sset :: USerializedSet
  assumes ok: "ser_of B S sset" and i: "int i \<le> 0x1fffffff"
  defines "L \<equiv> B @ S"
  shows "uset_getSerializedRange sset (int i) =
    Inr (if 2 * i < length L then Some (L ! (2 * i), (if 2 * i + 1 < length L then L ! (2 * i + 1) else UNICODESET_HIGH) - 1)
         else None)"
proof -
  have len: "ser_bmpLength sset = int (length B)" "ser_length sset = int (length B + 2 * length S)"
    using ok by (auto simp: ser_of_def)
  have i2: "wrap_int32 (int i * 2) = int (2 * i)" using i by (simp add: wrap_int32_small)
  note defs = uset_getSerializedRange_def Let_def len i2
  show ?thesis
  proof (cases "2 * i < length B")
    case True
    have r: "read16 (ser_array sset) (int (2 * i)) = Inr (B ! (2 * i))" 
      using read_bmp [OF ok, of "int (2 * i)"] True by (simp only: nat_int of_nat_0_le_iff of_nat_less_iff)
    have i1: "int (2 * i) + 1 = int (2 * i + 1)" by simp
    consider "2 * i + 1 < length B" | "2 * i + 1 = length B" "S \<noteq> []" | "2 * i + 1 = length B" "S = []" using True by linarith
    then show ?thesis
    proof cases
      case 1
      have "read16 (ser_array sset) (int (2 * i + 1)) = Inr (B ! (2 * i + 1))"
        using read_bmp [OF ok, of "int (2 * i + 1)"] 1 by (simp only: nat_int of_nat_0_le_iff of_nat_less_iff)
      then show ?thesis using True 1 r unfolding defs i1 by (simp add: L_def nth_append)
    next
      case 2
      have "read_pair (ser_array sset) (int (length B)) = Inr (S ! 0)" using read_pair_correct [OF ok, of 0] 2 by simp
      then show ?thesis using True 2 r unfolding defs i1 by (simp add: L_def nth_append)
    next
      case 3
      then show ?thesis using True r unfolding defs i1 by (simp add: L_def nth_append)
    qed
  next
    case False
    define k where "k = 2 * i - length B"
    have k: "2 * i = length B + k" using False by (simp add: k_def)
    have w: "wrap_int32 ((int (2 * i) - int (length B)) * 2) = int (2 * k)"
      using i k by (simp add: wrap_int32_small)
    have e: "int (length B) + int (2 * k) = int (length B + 2 * k)"
      "int (length B) + (int (2 * k) + 2) = int (length B + 2 * (k + 1))" by simp_all
    have r: "read_pair (ser_array sset) (int (length B + 2 * k)) = Inr (S ! k)" if "k < length S"
      using read_pair_correct [OF ok that] .
    have r1: "read_pair (ser_array sset) (int (length B + 2 * (k + 1))) = Inr (S ! (k + 1))" if "k + 1 < length S"
      using read_pair_correct [OF ok that] .
    show ?thesis
      unfolding defs w e using False r r1 by (auto simp: L_def nth_append k)
  qed
qed

lemma getSerializedRangeCount_correct:
  assumes "ser_of B S sset"
  shows "uset_getSerializedRangeCount sset = int ((length (B @ S) + 1) div 2)"
proof -
  have e: "ser_bmpLength sset = int (length B)" "ser_length sset - int (length B) = int (2 * length S)"
    using assms by (auto simp: ser_of_def)
  have d: "int a sdiv 2 = int (a div 2)" for a by (simp add: signed_divide_int_def sgn_if zdiv_int)
  have f: "int (length B) + int (2 * length S div 2) + 1 = int (length (B @ S) + 1)" by simp
  show ?thesis unfolding uset_getSerializedRangeCount_def e d f ..
qed

section \<open>Serializing and reading back\<close>

lemma header_bits:
  assumes "n \<le> 0x7fff"
  shows "int n AND 0x8000 = 0" "(int n OR 0x8000) AND 0x8000 \<noteq> 0" "(int n OR 0x8000) AND 0x7fff = int n"
proof -
  have o: "int n OR 0x8000 = int n + 0x8000" using or_disjoint [of "int n" 15 1] assms by simp
  have m: "c AND 0x8000 = c div 0x8000 mod 2 * 0x8000" for c :: int using and_push_mask [of c 15 1] by simp
  have l: "c AND 0x7fff = c mod 0x8000" for c :: int using and_low_mask [of c 15] by (simp add: mask_eq_exp_minus_1)
  show "int n AND 0x8000 = 0" unfolding m using assms by simp
  show "(int n OR 0x8000) AND 0x8000 \<noteq> 0" unfolding o m using assms by simp
  show "(int n OR 0x8000) AND 0x7fff = int n" unfolding o l using assms by simp
qed


lemma serialize_split:
  assumes wf: "wf_inv xs"
  defines "L \<equiv> take (length xs - 1) xs"
  defines "B \<equiv> takeWhile (\<lambda>c. c \<le> 0xffff) L" and "S \<equiv> dropWhile (\<lambda>c. c \<le> 0xffff) L"
  shows "xs = B @ S @ [UNICODESET_HIGH]" and "\<forall>c \<in> set B. 0 \<le> c \<and> c \<le> 0xffff" and "\<forall>c \<in> set S. 0xffff < c"
    and "L \<noteq> [] \<Longrightarrow> (if L ! (length L - 1) \<le> 0xffff then length L else if L ! 0 \<ge> 0x10000 then 0 else length B) = length B"
proof -
  have last: "xs \<noteq> []" "last xs = UNICODESET_HIGH" and pos: "\<forall>x \<in> set xs. 0 \<le> x" and srt: "sorted_wrt (<) xs"
    using wf by (auto simp: wf_inv_alt)
  have xs: "xs = L @ [UNICODESET_HIGH]" using last append_butlast_last_id [of xs] by (simp add: L_def butlast_conv_take)
  then show "xs = B @ S @ [UNICODESET_HIGH]" by (simp add: B_def S_def)
  show "\<forall>c \<in> set B. 0 \<le> c \<and> c \<le> 0xffff"
    using pos xs by (auto simp: B_def dest: set_takeWhileD)
  have sl: "sorted_wrt (<) L" using srt xs by (simp add: sorted_wrt_append)
  have "sorted_wrt (<) S" using sl unfolding S_def by (metis sorted_wrt_append takeWhile_dropWhile_id)
  moreover have "S \<noteq> [] \<Longrightarrow> 0xffff < hd S" using hd_dropWhile [of "\<lambda>c. c \<le> 0xffff" L] by (auto simp: S_def)
  ultimately show "\<forall>c \<in> set S. 0xffff < c" by (cases S) auto
  show "(if L ! (length L - 1) \<le> 0xffff then length L else if L ! 0 \<ge> 0x10000 then 0 else length B) = length B" if "L \<noteq> []"
  proof -
    have "B = L" if "L ! (length L - 1) \<le> 0xffff"
      using sorted_le_last [OF sl _ that] unfolding B_def by (auto simp: takeWhile_eq_all_conv in_set_conv_nth)
    moreover have "B = []" if "L ! 0 \<ge> 0x10000" using that \<open>L \<noteq> []\<close> unfolding B_def by (cases L) auto
    ultimately show ?thesis by simp
  qed
qed

text \<open>What \<open>serialize\<close> writes is read back as the inversion list of the set.\<close>

lemma serialize_reads_back:
  assumes ok: "us_ok s" and ser: "UnicodeSet_serialize s (Some d) (int (length d)) U_ZERO_ERROR = (n, Some d', ec)"
    and "U_SUCCESS ec"
  shows "\<exists>B S sset. us_list s = B @ S @ [UNICODESET_HIGH] \<and> uset_getSerializedSet fill (Some d') n = (True, sset) \<and>
    ser_of B S sset \<and> 0 < n \<and> n \<le> int (length d) \<and> length d' = length d"
proof -
  let ?xs = "us_list s" and ?n = "length (us_list s) - 1"
  let ?L = "take ?n ?xs"
  let ?B = "takeWhile (\<lambda>c. c \<le> 0xffff) ?L" and ?S = "dropWhile (\<lambda>c. c \<le> 0xffff) ?L"
  have wf: "wf_inv ?xs" using ok by (simp add: us_ok_def)
  note sp = serialize_split [OF wf]
  have nL: "length ?L = ?n" by simp
  show ?thesis
  proof (cases "?n = 0")
    case True
    then have "?xs = [UNICODESET_HIGH]" using sp(1) by simp
    moreover have "n = 1" "d' = d[0 := 0]" "d \<noteq> []" using ser assms(3) True
      by (auto simp: UnicodeSet_serialize_def Let_def split: if_splits)
    ultimately show ?thesis
      using wf by (cases d) (auto simp: uset_getSerializedSet_def ser_of_def ser_supplementary_def intro!: exI [of _ "[]"])
  next
    case False
    then have ne: "?L \<noteq> []" by auto
    have b: "(if ?L ! (?n - 1) \<le> 0xffff then ?n else if ?L ! 0 \<ge> 0x10000 then 0 else length ?B) = length ?B"
      using sp(4) [OF ne] unfolding nL .
    have tB: "take (length ?B) ?L = ?B" "drop (length ?B) ?L = ?S"
      by (rule takeWhile_eq_take [symmetric], rule dropWhile_eq_drop [symmetric])
    have lS: "?n - length ?B = length ?S"
    proof -
      have "length (?B @ ?S) = ?n" by (simp only: takeWhile_dropWhile_id nL)
      then show ?thesis unfolding length_append by linarith
    qed
    have mB: "map (\<lambda>c. c AND 0xffff) ?B = ?B"
      using sp(2) by (intro map_idI) (auto simp: and_ffff intro!: mod_pos_pos_trivial)
    let ?len = "length ?B + 2 * length ?S"
    let ?dl = "?len + (if ?S \<noteq> [] then 2 else 1)"
    let ?hdr = "if ?S \<noteq> [] then [int ?len OR 0x8000, int (length ?B)] else [int ?len]"
    have cmp: "length ?B < ?len \<longleftrightarrow> ?S \<noteq> []" by auto
    have r: "?len \<le> 0x7fff" "int ?dl \<le> int (length d)" "n = int ?dl"
      "d' = (?hdr @ ?B @ ser_supplementary ?S) @ drop ?dl d"
      using ser assms(3) False
      unfolding UnicodeSet_serialize_def Let_def b tB lS mB cmp
      by (auto split: if_splits)
    note h = header_bits [OF r(1)]
    define sset where "sset = fill\<lparr>ser_bmpLength := int (length ?B),
      ser_array := ?B @ ser_supplementary ?S @ drop ?dl d, ser_length := int ?len\<rparr>"
    have "uset_getSerializedSet fill (Some d') n = (True, sset)"
    proof (cases "?S = []")
      case True
      then have "d' = int ?len # ?B @ ser_supplementary ?S @ drop ?dl d" using r(4) by simp
      then show ?thesis using h(1) r(3) True
        by (simp add: uset_getSerializedSet_def Let_def sset_def ser_supplementary_def)
    next
      case False
      then have "d' = (int ?len OR 0x8000) # int (length ?B) # ?B @ ser_supplementary ?S @ drop ?dl d" using r(4) by simp
      then show ?thesis using h(2,3) r(3) False
        by (simp add: uset_getSerializedSet_def Let_def sset_def)
    qed
    moreover have "ser_of ?B ?S sset"
      using wf sp(1-3) unfolding ser_of_def by (auto simp: sset_def)
    moreover have "length d' = length d" "0 < n" using r by auto
    ultimately show ?thesis using sp(1) r(2,3) by blast
  qed
qed


section \<open>Properties\<close>

text \<open>
  C20. Round trip.  If \<open>serialize\<close> succeeds, \<open>uset_getSerializedSet\<close> accepts what it wrote, and the serialized
  set has the ranges of the set: \<open>uset_getSerializedRange\<close> returns each of them and \<open>FALSE\<close> for every other
  index up to \<open>0x1fffffff\<close>, from which on the index arithmetic overflows.  \<open>uset_serializedContains\<close> answers
  as \<open>contains\<close> does, in as many loop iterations as the list is long, for BMP code points if the list has a BMP entry and
  for supplementary ones if it has a supplementary entry; the queries of a part without entries are left out, since they read
  outside the set.
\<close>

theorem serialize_roundtrip:
  assumes "us_ok s" and "UnicodeSet_serialize s (Some d) (int (length d)) U_ZERO_ERROR = (n, Some d', ec)"
    and "U_SUCCESS ec"
  shows "\<exists>sset. uset_getSerializedSet fill (Some d') n = (True, sset) \<and>
    uset_getSerializedRangeCount sset = int (UnicodeSet_getRangeCount s) \<and>
    (\<forall>i. int i \<le> 0x1fffffff \<longrightarrow> uset_getSerializedRange sset (int i) =
       Inr (if i < UnicodeSet_getRangeCount s then Some (UnicodeSet_getRangeStart s i, UnicodeSet_getRangeEnd s i)
            else None)) \<and>
    (\<forall>c fuel. length (us_list s) \<le> fuel \<longrightarrow>
       (if c \<le> 0xffff then 0 < ser_bmpLength sset else ser_bmpLength sset < ser_length sset) \<longrightarrow>
       uset_serializedContains fuel sset c = Inr (UnicodeSet_contains s c))"
proof -
  obtain B S sset where x: "us_list s = B @ S @ [UNICODESET_HIGH]" and g: "uset_getSerializedSet fill (Some d') n = (True, sset)"
    and ok: "ser_of B S sset"
    using serialize_reads_back [OF assms, of fill] by blast
  have mem: "UnicodeSet_contains s c \<longleftrightarrow> c \<in> inv_set (B @ S @ [UNICODESET_HIGH])" for c
    using contains_iff [OF assms(1)] x by (simp add: us_cps_def)
  have cnt: "UnicodeSet_getRangeCount s = (length (B @ S) + 1) div 2" by (simp add: UnicodeSet_getRangeCount_def x)
  have rng: "uset_getSerializedRange sset (int i) =
      Inr (if i < UnicodeSet_getRangeCount s then Some (UnicodeSet_getRangeStart s i, UnicodeSet_getRangeEnd s i) else None)"
    if "int i \<le> 0x1fffffff" for i
  proof -
    have "i < UnicodeSet_getRangeCount s \<longleftrightarrow> 2 * i < length (B @ S)" unfolding cnt by linarith
    moreover have "us_list s ! j = (if j < length (B @ S) then (B @ S) ! j else UNICODESET_HIGH)" if "j \<le> length (B @ S)" for j
      using that x by (auto simp: nth_append less_diff_conv)
    ultimately show ?thesis
      unfolding getSerializedRange_correct [OF ok that] UnicodeSet_getRangeStart_def UnicodeSet_getRangeEnd_def
      by (auto simp: mult.commute)
  qed
  have con: "uset_serializedContains fuel sset c = Inr (UnicodeSet_contains s c)"
    if "length (us_list s) \<le> fuel" "if c \<le> 0xffff then 0 < ser_bmpLength sset else ser_bmpLength sset < ser_length sset" for c fuel
  proof -
    have l: "ser_bmpLength sset = int (length B)" "ser_length sset = int (length B + 2 * length S)" using ok by (auto simp: ser_of_def)
    have out: "c \<notin> inv_set (B @ S @ [UNICODESET_HIGH])" if "c < 0 \<or> 0x10ffff < c"
      using that inv_set_bounds [OF us_ok_other(1) [OF assms(1)]] x by force
    consider "c < 0 \<or> 0x10ffff < c" | "0 \<le> c" "c \<le> 0xffff" | "0xffff < c" "c \<le> 0x10ffff" by linarith
    then show ?thesis
    proof cases
      case 1
      then show ?thesis using out mem by (simp add: uset_serializedContains_def)
    next
      case 2
      then show ?thesis unfolding mem using that l x by (intro serializedContains_bmp [OF ok]) auto
    next
      case 3
      then show ?thesis unfolding mem using that l x by (intro serializedContains_supplementary [OF ok]) auto
    qed
  qed
  show ?thesis using g cnt rng con getSerializedRangeCount_correct [OF ok] by (intro exI [of _ sset]) auto
qed

theorem serialize_roundtrip_witness:
  "\<exists>sset. uset_getSerializedSet \<lparr>ser_array = [], ser_bmpLength = 0, ser_length = 0, ser_staticArray = []\<rparr>
      (Some [0x8006, 2, 0x41, 0x5b, 1, 0xf600, 1, 0xf650, 7]) 8 = (True, sset) \<and>
    uset_getSerializedRange sset 1 = Inr (Some (0x1f600, 0x1f64f)) \<and>
    uset_serializedContains 5 sset 0x41 = Inr True \<and> uset_serializedContains 5 sset 0x1f650 = Inr False"
proof -
  let ?fill = "\<lparr>ser_array = [], ser_bmpLength = 0, ser_length = 0, ser_staticArray = []\<rparr>"
  let ?s = "sample_set [0x41, 0x5b, 0x1f600, 0x1f650, 0x110000] []"
  let ?sset = "\<lparr>ser_array = [0x41, 0x5b, 1, 0xf600, 1, 0xf650, 7], ser_bmpLength = 2, ser_length = 6, ser_staticArray = []\<rparr>"
  have m: "us_mutable ?s" by (simp add: sample_set_mutable wf_inv_def)
  have l: "UnicodeSet_serialize ?s (Some [0, 0, 0, 0, 0, 0, 0, 0, 7]) (int (length [0, 0, 0, 0, 0, 0, 0, 0, 7 :: int])) U_ZERO_ERROR =
    (8, Some [0x8006, 2, 0x41, 0x5b, 1, 0xf600, 1, 0xf650, 7], U_ZERO_ERROR)" by code_simp
  have q: "UnicodeSet_getRangeCount ?s = 2" "UnicodeSet_getRangeStart ?s 1 = 0x1f600" "UnicodeSet_getRangeEnd ?s 1 = 0x1f64f"
    "UnicodeSet_contains ?s 0x41" "\<not> UnicodeSet_contains ?s 0x1f650" "length (us_list ?s) \<le> 5"
    by code_simp+
  have g: "uset_getSerializedSet ?fill (Some [0x8006, 2, 0x41, 0x5b, 1, 0xf600, 1, 0xf650, 7]) 8 = (True, ?sset)" by code_simp
  have r: "\<forall>i. int i \<le> 0x1fffffff \<longrightarrow> uset_getSerializedRange ?sset (int i) = Inr (if i < UnicodeSet_getRangeCount ?s
        then Some (UnicodeSet_getRangeStart ?s i, UnicodeSet_getRangeEnd ?s i) else None)"
    and c: "\<forall>c fuel. length (us_list ?s) \<le> fuel \<longrightarrow>
       (if c \<le> 0xffff then 0 < ser_bmpLength ?sset else ser_bmpLength ?sset < ser_length ?sset) \<longrightarrow>
       uset_serializedContains fuel ?sset c = Inr (UnicodeSet_contains ?s c)"
    using serialize_roundtrip [OF us_mutable_ok [OF m] l, of ?fill] g by auto
  have "uset_getSerializedRange ?sset 1 = Inr (Some (0x1f600, 0x1f64f))" using r [rule_format, of 1] q by simp
  moreover have "uset_serializedContains 5 ?sset 0x41 = Inr True" "uset_serializedContains 5 ?sset 0x1f650 = Inr False"
    using c [rule_format, of 5] q by simp_all
  ultimately show ?thesis using g by blast
qed

text \<open>From 2^30 on the doubled index is negative, and the function reads before the array instead of returning \<open>FALSE\<close>.\<close>

theorem getSerializedRange_overflows:
  assumes "0 \<le> ser_bmpLength sset" and "0x40000000 \<le> i" and "i \<le> INT32_MAX"
  shows "uset_getSerializedRange sset i = Inl OutOfBounds"
proof -
  have "wrap_int32 (i * 2) = i * 2 - 2 ^ 32"
    using assms(2,3) mod_pos_pos_trivial [of "i * 2 - 2 ^ 31" "2 ^ 32"] mod_add_self2 [of "i * 2 - 2 ^ 31" "2 ^ 32"]
    by (simp add: wrap_int32_def add.commute)
  then show ?thesis using assms by (simp add: uset_getSerializedRange_def Let_def read16_def)
qed

text \<open>What \<open>serialize\<close> does with a buffer of any size, in two cases.\<close>

lemma serialize_cases:
  obtains (long) "\<And>d. UnicodeSet_serialize s (Some d) (int (length d)) U_ZERO_ERROR = (0, Some d, U_INDEX_OUTOFBOUNDS_ERROR)"
      "UnicodeSet_serialize s None 0 U_ZERO_ERROR = (0, None, U_INDEX_OUTOFBOUNDS_ERROR)"
  | (fits) units where "units \<noteq> []"
      "\<And>d. UnicodeSet_serialize s (Some d) (int (length d)) U_ZERO_ERROR =
         (if length units \<le> length d then (int (length units), Some (units @ drop (length units) d), U_ZERO_ERROR)
          else (int (length units), Some d, U_BUFFER_OVERFLOW_ERROR))"
      "UnicodeSet_serialize s None 0 U_ZERO_ERROR = (int (length units), None, U_BUFFER_OVERFLOW_ERROR)"
proof (cases "length (us_list s) - 1 = 0")
  case True
  have "d[0 := 0] = 0 # drop 1 d" if "d \<noteq> []" for d :: "int list" using that by (cases d) auto
  then show ?thesis
    using True by (intro fits [of "[0]"]) (auto simp: UnicodeSet_serialize_def Let_def Suc_le_eq)
next
  case False
  let ?n = "length (us_list s) - 1"
  let ?xs = "take ?n (us_list s)"
  define b where "b = (if ?xs ! (?n - 1) \<le> 0xffff then ?n else if ?xs ! 0 \<ge> 0x10000 then 0
    else length (takeWhile (\<lambda>c. c \<le> 0xffff) ?xs))"
  define len where "len = b + 2 * (?n - b)"
  have "length (takeWhile (\<lambda>c. c \<le> 0xffff) ?xs) \<le> length ?xs" by (rule length_takeWhile_le)
  then have b: "b \<le> ?n" unfolding b_def by simp
  define units where "units = (if len > b then [int len OR 0x8000, int b] else [int len]) @
    map (\<lambda>c. c AND 0xffff) (take b ?xs) @ ser_supplementary (drop b ?xs)"
  have lu: "length units = len + (if len > b then 2 else 1)" using b by (simp add: units_def len_def)
  have ser: "UnicodeSet_serialize s dest cap U_ZERO_ERROR =
      (if len > 0x7fff then (0, dest, U_INDEX_OUTOFBOUNDS_ERROR)
       else if int (length units) \<le> cap then (int (length units), map_option (\<lambda>d. units @ drop (length units) d) dest, U_ZERO_ERROR)
       else (int (length units), dest, U_BUFFER_OVERFLOW_ERROR))" if "0 \<le> cap" "cap = 0 \<or> dest \<noteq> None" for dest cap
    using that False unfolding UnicodeSet_serialize_def Let_def b_def [symmetric] len_def [symmetric] lu [symmetric] units_def [symmetric]
    by (cases dest) auto
  have "units \<noteq> []" by (simp add: units_def)
  then show ?thesis
    using ser [of 0 None] ser [of "int (length _)" "Some _"] by (cases "len > 0x7fff") (auto intro: long fits [of units])
qed

text \<open>
  C21. Preflighting and errors.  Asking with no buffer gives the needed number of units with a buffer
  overflow, or reports that the set is too long for the format.  A second call with at least that many
  units succeeds with the same length, a call with fewer units overflows and leaves the buffer alone.
\<close>

theorem serialize_preflight:
  assumes "UnicodeSet_serialize s None 0 U_ZERO_ERROR = (n, r, ec)"
  shows "r = None \<and> (ec = U_BUFFER_OVERFLOW_ERROR \<and> 0 < n \<or> ec = U_INDEX_OUTOFBOUNDS_ERROR \<and> n = 0) \<and>
    (\<forall>d. ec = U_BUFFER_OVERFLOW_ERROR \<longrightarrow>
       (if n \<le> int (length d)
        then \<exists>d'. UnicodeSet_serialize s (Some d) (int (length d)) U_ZERO_ERROR = (n, Some d', U_ZERO_ERROR) \<and>
               drop (nat n) d' = drop (nat n) d
        else UnicodeSet_serialize s (Some d) (int (length d)) U_ZERO_ERROR = (n, Some d, U_BUFFER_OVERFLOW_ERROR)))"
  by (cases s rule: serialize_cases) (use assms in auto)

theorem serialize_preflight_witness:
  "UnicodeSet_serialize sample_A None 0 U_ZERO_ERROR = (3, None, U_BUFFER_OVERFLOW_ERROR) \<and>
    (\<exists>d'. UnicodeSet_serialize sample_A (Some [0, 0, 0]) 3 U_ZERO_ERROR = (3, Some d', U_ZERO_ERROR))"
proof -
  have e: "UnicodeSet_serialize sample_A None 0 U_ZERO_ERROR = (3, None, U_BUFFER_OVERFLOW_ERROR)" by code_simp
  have "length [0, 0, 0 :: int] = 3" by simp
  with serialize_preflight [OF e] e show ?thesis by (metis of_nat_numeral order_refl)
qed

text \<open>
  C22. The search over supplementary code points need not end.  After \<open>uset_setSerializedToOne\<close> stored one code point
  between \<open>0x11\<close> and \<open>0xfffe\<close> in a structure whose buffer was zero, \<open>uset_serializedContains\<close> reads
  the units behind the set and loops forever for every supplementary code point: no number of iterations is enough.  (Other sets
  with BMP entries only, and other contents of the memory behind them, can give an answer.)
\<close>

theorem serializedContains_diverges:
  assumes "ser_staticArray fill = replicate 8 0" and "0x10 < b" and "b < 0xffff" and "0x10000 \<le> c" and "c \<le> 0x10ffff"
  shows "uset_serializedContains fuel (uset_setSerializedToOne fill b) c = Inl OutOfFuel"
proof -
  let ?a = "[b, b + 1, 0, 0, 0, 0, 0, 0]"
  let ?h = "c div 0x10000" and ?l = "c mod 0x10000"
  have s: "uset_setSerializedToOne fill b = fill\<lparr>ser_bmpLength := 2, ser_length := 2, ser_staticArray := ?a, ser_array := ?a\<rparr>"
    using assms(1-3) by (simp add: uset_setSerializedToOne_def and_ffff Let_def numeral_eq_Suc)
  have hl: "drop_bit 16 c AND 0xffff = ?h" "c AND 0xffff = ?l" "1 \<le> ?h" "?h \<le> 0x10"
    using assms(4,5) by (auto simp: and_ffff drop_16 intro!: mod_pos_pos_trivial)
  have p: "pair_less ?a ?h ?l 2 = Inr False" "pair_less ?a ?h ?l 0 = Inr True"
    using hl(3,4) assms(2) by (auto simp: pair_less_def read16_def)
  have i: "drop_bit 1 (0 + (- 2 :: int)) AND NOT 1 = - 2" by simp
  have "supplementary_search fuel ?a ?h ?l 2 0 (- 2) = Inl OutOfFuel"
    by (induction fuel) (use p(2) i in \<open>simp_all add: Let_def\<close>)
  then show ?thesis
    using assms(4,5) p unfolding s uset_serializedContains_def Let_def hl by simp
qed

theorem serializedContains_diverges_witness:
  "\<forall>fuel. uset_serializedContains fuel (uset_setSerializedToOne
      \<lparr>ser_array = [], ser_bmpLength = 0, ser_length = 0, ser_staticArray = [0, 0, 0, 0, 0, 0, 0, 0]\<rparr> 0x61) 0x10000 = Inl OutOfFuel"
  using serializedContains_diverges
    [of "\<lparr>ser_array = [], ser_bmpLength = 0, ser_length = 0, ser_staticArray = [0, 0, 0, 0, 0, 0, 0, 0]\<rparr>" "0x61" "0x10000"]
  by (simp add: numeral_eq_Suc)

end
