(* ===== verification/UHash.thy ===== *)
theory UHash
  imports UVector
begin

unbundle bit_operations_syntax

text \<open>
  The hash table of \<open>common/uhash.c\<close>: open addressing with double hashing over a prime number of slots.

  Keys and values are the union \<open>UHashTok\<close>, which is the union \<open>UElement\<close> of the vectors; \<open>Null\<close> is the
  token whose pointer is \<open>NULL\<close> and whose integer is 0.  The fields are those of \<open>struct UHashtable\<close>;
  the array is a list, so \<open>length\<close> is its length.  The two ratios of a table come from
  \<open>RESIZE_POLICY_RATIO_TABLE\<close>, and a water mark is the ratio of the length rounded down; up to \<open>2^24\<close>
  slots the single-precision product of the source is that number.  \<open>uh_freedKeys\<close> and
  \<open>uh_freedValues\<close> log what the table passed to its deleters.
\<close>

section \<open>Data\<close>

type_synonym 'p UHashTok = "'p UElement"

record 'p UHashElement =
  he_hashcode :: int
  he_value :: "'p UHashTok"
  he_key :: "'p UHashTok"

datatype UHashResizePolicy = U_GROW | U_GROW_AND_SHRINK | U_FIXED

record 'p UHashtable =
  uh_elements :: "'p UHashElement list"
  uh_keyHasher :: "'p UHashTok \<Rightarrow> int"
  uh_keyComparator :: "'p UHashTok \<Rightarrow> 'p UHashTok \<Rightarrow> bool"
  uh_valueComparator :: "('p UHashTok \<Rightarrow> 'p UHashTok \<Rightarrow> bool) option"
  uh_keyDeleter :: bool
  uh_valueDeleter :: bool
  uh_count :: int
  uh_highWaterMark :: int
  uh_lowWaterMark :: int
  uh_policy :: UHashResizePolicy
  uh_primeIndex :: int
  uh_freedKeys :: "'p list"
  uh_freedValues :: "'p list"

abbreviation uh_length :: "'p UHashtable \<Rightarrow> nat" where
  "uh_length t \<equiv> length (uh_elements t)"

definition PRIMES :: "nat list" where
  "PRIMES = [13, 31, 61, 127, 251, 509, 1021, 2039, 4093, 8191, 16381, 32749,
    65521, 131071, 262139, 524287, 1048573, 2097143, 4194301, 8388593,
    16777213, 33554393, 67108859, 134217689, 268435399, 536870909,
    1073741789, 2147483647]"

abbreviation (input) DEFAULT_PRIME_INDEX :: int where "DEFAULT_PRIME_INDEX \<equiv> 3"

fun lowWaterMark_of :: "UHashResizePolicy \<Rightarrow> nat \<Rightarrow> int" where
  "lowWaterMark_of U_GROW n = 0"
| "lowWaterMark_of U_GROW_AND_SHRINK n = int n div 10"
| "lowWaterMark_of U_FIXED n = 0"

fun highWaterMark_of :: "UHashResizePolicy \<Rightarrow> nat \<Rightarrow> int" where
  "highWaterMark_of U_GROW n = int n div 2"
| "highWaterMark_of U_GROW_AND_SHRINK n = int n div 2"
| "highWaterMark_of U_FIXED n = int n"

abbreviation (input) HASH_DELETED :: int where "HASH_DELETED \<equiv> - 0x80000000"
abbreviation (input) HASH_EMPTY :: int where "HASH_EMPTY \<equiv> - 0x7fffffff"

definition IS_EMPTY_OR_DELETED :: "int \<Rightarrow> bool" where
  "IS_EMPTY_OR_DELETED x = (x < 0)"

abbreviation (input) sizeof_UHashElement :: int where "sizeof_UHashElement \<equiv> 24"
abbreviation (input) sizeof_UHashtable :: int where "sizeof_UHashtable \<equiv> 80"

abbreviation empty_slot :: "'p UHashElement" where
  "empty_slot \<equiv> \<lparr>he_hashcode = HASH_EMPTY, he_value = Null, he_key = Null\<rparr>"

section \<open>Private functions\<close>

definition HASH_DELETE_KEY_VALUE :: "'p UHashtable \<Rightarrow> 'p UHashTok \<Rightarrow> 'p UHashTok \<Rightarrow> 'p UHashtable" where
  "HASH_DELETE_KEY_VALUE t key value =
     (let t = (case as_pointer key of
                 Some p \<Rightarrow> if uh_keyDeleter t then t\<lparr>uh_freedKeys := uh_freedKeys t @ [p]\<rparr> else t
               | None \<Rightarrow> t) in
      case as_pointer value of
        Some p \<Rightarrow> if uh_valueDeleter t then t\<lparr>uh_freedValues := uh_freedValues t @ [p]\<rparr> else t
      | None \<Rightarrow> t)"

text \<open>\<open>_uhash_setElement\<close> on the slot with index \<open>i\<close>; the hint only says how the union is copied.\<close>

definition uhash_setElement ::
  "'p UHashtable \<Rightarrow> nat \<Rightarrow> int \<Rightarrow> 'p UHashTok \<Rightarrow> 'p UHashTok \<Rightarrow> 'p UHashTok \<times> 'p UHashtable" where
  "uhash_setElement t i hashcode key value =
     (let e = uh_elements t ! i;
          oldValue = he_value e;
          t = (case as_pointer (he_key e) of
                 Some p \<Rightarrow> if uh_keyDeleter t \<and> as_pointer key \<noteq> Some p
                           then t\<lparr>uh_freedKeys := uh_freedKeys t @ [p]\<rparr> else t
               | None \<Rightarrow> t);
          t = (case as_pointer oldValue of
                 Some p \<Rightarrow> if uh_valueDeleter t \<and> as_pointer value \<noteq> Some p
                           then t\<lparr>uh_freedValues := uh_freedValues t @ [p]\<rparr> else t
               | None \<Rightarrow> t);
          oldValue = (if uh_valueDeleter t then Null else oldValue) in
      (oldValue,
       t\<lparr>uh_elements := (uh_elements t)[i := \<lparr>he_hashcode = hashcode, he_value = value, he_key = key\<rparr>]\<rparr>))"

definition uhash_internalRemoveElement :: "'p UHashtable \<Rightarrow> nat \<Rightarrow> 'p UHashTok \<times> 'p UHashtable" where
  "uhash_internalRemoveElement t i =
     uhash_setElement (t\<lparr>uh_count := uh_count t - 1\<rparr>) i HASH_DELETED Null Null"

text \<open>
  \<open>_uhash_allocate\<close>.  The prime index is stored before the allocation can fail; on failure the array
  pointer is null, which the callers replace.
\<close>

definition uhash_allocate ::
  "allocator \<Rightarrow> 'p UHashtable \<Rightarrow> int \<Rightarrow> UErrorCode \<Rightarrow> 'p UHashtable \<times> UErrorCode" where
  "uhash_allocate alloc t primeIndex status =
     (if U_FAILURE status then (t, status)
      else
        let t = t\<lparr>uh_primeIndex := primeIndex\<rparr>; n = PRIMES ! nat primeIndex in
        if \<not> alloc (sizeof_UHashElement * int n) then (t\<lparr>uh_elements := []\<rparr>, U_MEMORY_ALLOCATION_ERROR)
        else (t\<lparr>uh_elements := replicate n empty_slot, uh_count := 0,
                uh_lowWaterMark := lowWaterMark_of (uh_policy t) n,
                uh_highWaterMark := highWaterMark_of (uh_policy t) n\<rparr>, status))"

definition uhash_init ::
  "allocator \<Rightarrow> ('p UHashTok \<Rightarrow> int) \<Rightarrow> ('p UHashTok \<Rightarrow> 'p UHashTok \<Rightarrow> bool) \<Rightarrow>
   ('p UHashTok \<Rightarrow> 'p UHashTok \<Rightarrow> bool) option \<Rightarrow> int \<Rightarrow> UErrorCode \<Rightarrow> 'p UHashtable option \<times> UErrorCode" where
  "uhash_init alloc keyHash keyComp valueComp primeIndex status =
     (if U_FAILURE status then (None, status)
      else case uhash_allocate alloc
          \<lparr>uh_elements = [], uh_keyHasher = keyHash, uh_keyComparator = keyComp,
           uh_valueComparator = valueComp, uh_keyDeleter = False, uh_valueDeleter = False,
           uh_count = 0, uh_highWaterMark = 0, uh_lowWaterMark = 0, uh_policy = U_GROW,
           uh_primeIndex = 0, uh_freedKeys = [], uh_freedValues = []\<rparr> primeIndex status of
        (t, status) \<Rightarrow> if U_FAILURE status then (None, status) else (Some t, status))"

definition uhash_create ::
  "allocator \<Rightarrow> ('p UHashTok \<Rightarrow> int) \<Rightarrow> ('p UHashTok \<Rightarrow> 'p UHashTok \<Rightarrow> bool) \<Rightarrow>
   ('p UHashTok \<Rightarrow> 'p UHashTok \<Rightarrow> bool) option \<Rightarrow> int \<Rightarrow> UErrorCode \<Rightarrow> 'p UHashtable option \<times> UErrorCode" where
  "uhash_create alloc keyHash keyComp valueComp primeIndex status =
     (if U_FAILURE status then (None, status)
      else if \<not> alloc sizeof_UHashtable then (None, U_MEMORY_ALLOCATION_ERROR)
      else uhash_init alloc keyHash keyComp valueComp primeIndex status)"

text \<open>
  \<open>_uhash_find\<close>: the index of a slot, or \<open>None\<close> for the null pointer.  The loop visits at most
  \<open>length\<close> slots before it is back at \<open>startIndex\<close>; the fuel is that number.
\<close>

fun find_loop ::
  "nat \<Rightarrow> 'p UHashtable \<Rightarrow> 'p UHashTok \<Rightarrow> nat \<Rightarrow> nat \<Rightarrow> nat \<Rightarrow> nat option \<Rightarrow> nat \<Rightarrow> nat option option" where
  "find_loop 0 t key hashcode startIndex theIndex firstDeleted jump = None"
| "find_loop (Suc fuel) t key hashcode startIndex theIndex firstDeleted jump =
     (let e = uh_elements t ! theIndex; tableHash = he_hashcode e in
      if tableHash = int hashcode \<and> uh_keyComparator t key (he_key e) then Some (Some theIndex)
      else if tableHash = HASH_EMPTY
      then Some (Some (case firstDeleted of Some i \<Rightarrow> i | None \<Rightarrow> theIndex))
      else
        let firstDeleted = (if tableHash < 0 \<and> firstDeleted = None then Some theIndex else firstDeleted);
            jump = (if jump = 0 then hashcode mod (uh_length t - 1) + 1 else jump);
            theIndex = (theIndex + jump) mod uh_length t in
        if theIndex = startIndex then Some firstDeleted
        else find_loop fuel t key hashcode startIndex theIndex firstDeleted jump)"

definition positive_hash :: "int \<Rightarrow> nat" where
  "positive_hash hashcode = nat (hashcode AND 0x7fffffff)"

definition uhash_find_slot :: "'p UHashtable \<Rightarrow> 'p UHashTok \<Rightarrow> int \<Rightarrow> nat option" where
  "uhash_find_slot t key hashcode =
     (let h = positive_hash hashcode; startIndex = (h XOR 0x4000000) mod uh_length t in
      case find_loop (uh_length t) t key h startIndex startIndex None 0 of
        Some r \<Rightarrow> r | None \<Rightarrow> None)"

text \<open>The loop of \<open>_uhash_rehash\<close> over the old slots from the last to the first.\<close>

fun rehash_loop :: "'p UHashElement list \<Rightarrow> 'p UHashtable \<Rightarrow> 'p UHashtable option" where
  "rehash_loop [] t = Some t"
| "rehash_loop (e # old) t =
     (if IS_EMPTY_OR_DELETED (he_hashcode e) then rehash_loop old t
      else case uhash_find_slot t (he_key e) (he_hashcode e) of
             None \<Rightarrow> None
           | Some i \<Rightarrow> rehash_loop old (t\<lparr>uh_elements := (uh_elements t)[i := e], uh_count := uh_count t + 1\<rparr>))"

text \<open>\<open>None\<close> stands for a dereferenced null pointer.\<close>

definition uhash_rehash ::
  "allocator \<Rightarrow> 'p UHashtable \<Rightarrow> UErrorCode \<Rightarrow> ('p UHashtable \<times> UErrorCode) option" where
  "uhash_rehash alloc t status =
     (let old = uh_elements t;
          newPrimeIndex = (if uh_count t > uh_highWaterMark t then uh_primeIndex t + 1
                           else if uh_count t < uh_lowWaterMark t then uh_primeIndex t - 1
                           else uh_primeIndex t) in
      if \<not> (uh_count t > uh_highWaterMark t) \<and> \<not> (uh_count t < uh_lowWaterMark t) then Some (t, status)
      else if newPrimeIndex \<ge> int (length PRIMES) \<or> newPrimeIndex < 0 then Some (t, status)
      else case uhash_allocate alloc t newPrimeIndex status of
             (t, status) \<Rightarrow>
               if U_FAILURE status then Some (t\<lparr>uh_elements := old\<rparr>, status)
               else map_option (\<lambda>t. (t, status)) (rehash_loop (rev old) t))"

definition uhash_remove_key ::
  "allocator \<Rightarrow> 'p UHashtable \<Rightarrow> 'p UHashTok \<Rightarrow> ('p UHashTok \<times> 'p UHashtable) option" where
  "uhash_remove_key alloc t key =
     (case uhash_find_slot t key (uh_keyHasher t key) of
        None \<Rightarrow> None
      | Some i \<Rightarrow>
          if IS_EMPTY_OR_DELETED (he_hashcode (uh_elements t ! i)) then Some (Null, t)
          else case uhash_internalRemoveElement t i of
                 (result, t) \<Rightarrow>
                   if uh_count t < uh_lowWaterMark t
                   then map_option (\<lambda>(t, status). (result, t)) (uhash_rehash alloc t U_ZERO_ERROR)
                   else Some (result, t))"

text \<open>\<open>_uhash_put\<close>; \<open>valuePointer\<close> is the hint bit \<open>HINT_VALUE_POINTER\<close>.\<close>

definition uhash_put_key ::
  "allocator \<Rightarrow> 'p UHashtable \<Rightarrow> 'p UHashTok \<Rightarrow> 'p UHashTok \<Rightarrow> bool \<Rightarrow> UErrorCode \<Rightarrow>
   ('p UHashTok \<times> 'p UHashtable \<times> UErrorCode) option" where
  "uhash_put_key alloc t key value valuePointer status =
     (let err = (\<lambda>t status. Some (Null, HASH_DELETE_KEY_VALUE t key value, status)) in
      if U_FAILURE status then err t status
      else if valuePointer \<and> as_pointer value = None
      then map_option (\<lambda>(r, t). (r, t, status)) (uhash_remove_key alloc t key)
      else
        case (if uh_count t > uh_highWaterMark t then uhash_rehash alloc t status else Some (t, status)) of
          None \<Rightarrow> None
        | Some (t, status) \<Rightarrow>
            if U_FAILURE status then err t status
            else
              let hashcode = uh_keyHasher t key in
              case uhash_find_slot t key hashcode of
                None \<Rightarrow> None
              | Some i \<Rightarrow>
                  let fresh = IS_EMPTY_OR_DELETED (he_hashcode (uh_elements t ! i)) in
                  if fresh \<and> uh_count t + 1 = int (uh_length t)
                  then err t U_MEMORY_ALLOCATION_ERROR
                  else
                    let t = (if fresh then t\<lparr>uh_count := uh_count t + 1\<rparr> else t) in
                    case uhash_setElement t i (int (positive_hash hashcode)) key value of
                      (r, t) \<Rightarrow> Some (r, t, status))"

section \<open>Public functions\<close>

fun prime_index_for :: "nat \<Rightarrow> nat list \<Rightarrow> int \<Rightarrow> nat" where
  "prime_index_for i (p # q # ps) sz = (if int p < sz then prime_index_for (i + 1) (q # ps) sz else i)"
| "prime_index_for i ps sz = i"

definition uhash_open where
  "uhash_open alloc keyHash keyComp valueComp status =
     uhash_create alloc keyHash keyComp valueComp DEFAULT_PRIME_INDEX status"

definition uhash_openSize where
  "uhash_openSize alloc keyHash keyComp valueComp sz status =
     uhash_create alloc keyHash keyComp valueComp (int (prime_index_for 0 PRIMES sz)) status"

definition uhash_setResizePolicy :: "allocator \<Rightarrow> 'p UHashtable \<Rightarrow> UHashResizePolicy \<Rightarrow> 'p UHashtable option" where
  "uhash_setResizePolicy alloc t policy =
     map_option fst (uhash_rehash alloc
       (t\<lparr>uh_policy := policy, uh_lowWaterMark := lowWaterMark_of policy (uh_length t),
          uh_highWaterMark := highWaterMark_of policy (uh_length t)\<rparr>) U_ZERO_ERROR)"

definition uhash_setKeyHasher ::
  "'p UHashtable \<Rightarrow> ('p UHashTok \<Rightarrow> int) \<Rightarrow> ('p UHashTok \<Rightarrow> int) \<times> 'p UHashtable" where
  "uhash_setKeyHasher t fn = (uh_keyHasher t, t\<lparr>uh_keyHasher := fn\<rparr>)"

definition uhash_setKeyComparator ::
  "'p UHashtable \<Rightarrow> ('p UHashTok \<Rightarrow> 'p UHashTok \<Rightarrow> bool) \<Rightarrow> ('p UHashTok \<Rightarrow> 'p UHashTok \<Rightarrow> bool) \<times> 'p UHashtable" where
  "uhash_setKeyComparator t fn = (uh_keyComparator t, t\<lparr>uh_keyComparator := fn\<rparr>)"

definition uhash_setValueComparator ::
  "'p UHashtable \<Rightarrow> ('p UHashTok \<Rightarrow> 'p UHashTok \<Rightarrow> bool) option \<Rightarrow>
   ('p UHashTok \<Rightarrow> 'p UHashTok \<Rightarrow> bool) option \<times> 'p UHashtable" where
  "uhash_setValueComparator t fn = (uh_valueComparator t, t\<lparr>uh_valueComparator := fn\<rparr>)"

definition uhash_setKeyDeleter :: "'p UHashtable \<Rightarrow> bool \<Rightarrow> bool \<times> 'p UHashtable" where
  "uhash_setKeyDeleter t fn = (uh_keyDeleter t, t\<lparr>uh_keyDeleter := fn\<rparr>)"

definition uhash_setValueDeleter :: "'p UHashtable \<Rightarrow> bool \<Rightarrow> bool \<times> 'p UHashtable" where
  "uhash_setValueDeleter t fn = (uh_valueDeleter t, t\<lparr>uh_valueDeleter := fn\<rparr>)"

text \<open>
  The public functions come in four forms, for pointer and integer keys and values; \<open>None\<close> stands for
  the dereferenced null pointer that \<open>_uhash_find\<close> returns on a full table.
\<close>

definition find_value :: "'p UHashtable \<Rightarrow> 'p UHashTok \<Rightarrow> 'p UHashTok option" where
  "find_value t key =
     map_option (\<lambda>i. he_value (uh_elements t ! i)) (uhash_find_slot t key (uh_keyHasher t key))"

definition uhash_get :: "'p UHashtable \<Rightarrow> 'p option \<Rightarrow> 'p option option" where
  "uhash_get t key = map_option as_pointer (find_value t (of_pointer key))"

definition uhash_iget :: "'p UHashtable \<Rightarrow> int \<Rightarrow> 'p option option" where
  "uhash_iget t key = map_option as_pointer (find_value t (Integer key))"

definition uhash_geti :: "'p UHashtable \<Rightarrow> 'p option \<Rightarrow> int option" where
  "uhash_geti t key = map_option as_integer (find_value t (of_pointer key))"

definition uhash_igeti :: "'p UHashtable \<Rightarrow> int \<Rightarrow> int option" where
  "uhash_igeti t key = map_option as_integer (find_value t (Integer key))"

definition uhash_put ::
  "allocator \<Rightarrow> 'p UHashtable \<Rightarrow> 'p option \<Rightarrow> 'p option \<Rightarrow> UErrorCode \<Rightarrow> ('p option \<times> 'p UHashtable \<times> UErrorCode) option" where
  "uhash_put alloc t key value status =
     map_option (\<lambda>(r, t, status). (as_pointer r, t, status))
       (uhash_put_key alloc t (of_pointer key) (of_pointer value) True status)"

definition uhash_iput ::
  "allocator \<Rightarrow> 'p UHashtable \<Rightarrow> int \<Rightarrow> 'p option \<Rightarrow> UErrorCode \<Rightarrow> ('p option \<times> 'p UHashtable \<times> UErrorCode) option" where
  "uhash_iput alloc t key value status =
     map_option (\<lambda>(r, t, status). (as_pointer r, t, status))
       (uhash_put_key alloc t (Integer key) (of_pointer value) True status)"

definition uhash_puti ::
  "allocator \<Rightarrow> 'p UHashtable \<Rightarrow> 'p option \<Rightarrow> int \<Rightarrow> UErrorCode \<Rightarrow> (int \<times> 'p UHashtable \<times> UErrorCode) option" where
  "uhash_puti alloc t key value status =
     map_option (\<lambda>(r, t, status). (as_integer r, t, status))
       (uhash_put_key alloc t (of_pointer key) (Integer value) False status)"

definition uhash_iputi ::
  "allocator \<Rightarrow> 'p UHashtable \<Rightarrow> int \<Rightarrow> int \<Rightarrow> UErrorCode \<Rightarrow> (int \<times> 'p UHashtable \<times> UErrorCode) option" where
  "uhash_iputi alloc t key value status =
     map_option (\<lambda>(r, t, status). (as_integer r, t, status))
       (uhash_put_key alloc t (Integer key) (Integer value) False status)"

definition uhash_remove :: "allocator \<Rightarrow> 'p UHashtable \<Rightarrow> 'p option \<Rightarrow> ('p option \<times> 'p UHashtable) option" where
  "uhash_remove alloc t key =
     map_option (\<lambda>(r, t). (as_pointer r, t)) (uhash_remove_key alloc t (of_pointer key))"

definition uhash_iremove :: "allocator \<Rightarrow> 'p UHashtable \<Rightarrow> int \<Rightarrow> ('p option \<times> 'p UHashtable) option" where
  "uhash_iremove alloc t key =
     map_option (\<lambda>(r, t). (as_pointer r, t)) (uhash_remove_key alloc t (Integer key))"

definition uhash_removei :: "allocator \<Rightarrow> 'p UHashtable \<Rightarrow> 'p option \<Rightarrow> (int \<times> 'p UHashtable) option" where
  "uhash_removei alloc t key =
     map_option (\<lambda>(r, t). (as_integer r, t)) (uhash_remove_key alloc t (of_pointer key))"

definition uhash_iremovei :: "allocator \<Rightarrow> 'p UHashtable \<Rightarrow> int \<Rightarrow> (int \<times> 'p UHashtable) option" where
  "uhash_iremovei alloc t key =
     map_option (\<lambda>(r, t). (as_integer r, t)) (uhash_remove_key alloc t (Integer key))"

subsection \<open>Iteration\<close>

text \<open>\<open>uhash_nextElement\<close> from position \<open>pos\<close>: the index of the next occupied slot, which is also the new position.\<close>

function next_occupied :: "'p UHashElement list \<Rightarrow> nat \<Rightarrow> nat option" where
  "next_occupied els i =
     (if i < length els
      then if \<not> IS_EMPTY_OR_DELETED (he_hashcode (els ! i)) then Some i else next_occupied els (Suc i)
      else None)"
  by pat_completeness auto
termination by (relation "measure (\<lambda>(els, i). length els - i)") auto

declare next_occupied.simps [simp del]

definition uhash_nextElement :: "'p UHashtable \<Rightarrow> int \<Rightarrow> nat option" where
  "uhash_nextElement t pos = next_occupied (uh_elements t) (nat (pos + 1))"

definition uhash_removeElement :: "'p UHashtable \<Rightarrow> nat \<Rightarrow> 'p option \<times> 'p UHashtable" where
  "uhash_removeElement t i =
     (if IS_EMPTY_OR_DELETED (he_hashcode (uh_elements t ! i)) then (None, t)
      else case uhash_internalRemoveElement t i of (r, t) \<Rightarrow> (as_pointer r, t))"

lemma next_occupied_bounds:
  "next_occupied els i = Some j \<Longrightarrow> i \<le> j \<and> j < length els \<and> \<not> IS_EMPTY_OR_DELETED (he_hashcode (els ! j))"
  by (induction els i rule: next_occupied.induct) (subst (asm) (2) next_occupied.simps, auto split: if_splits)

lemma length_setElement [simp]: "uh_length (snd (uhash_setElement t i h k v)) = uh_length t"
  by (simp add: uhash_setElement_def Let_def split: option.split)

lemma length_removeElement [simp]: "uh_length (snd (uhash_removeElement t i)) = uh_length t"
  by (simp add: uhash_removeElement_def uhash_internalRemoveElement_def case_prod_beta)

function removeAll_from :: "'p UHashtable \<Rightarrow> int \<Rightarrow> 'p UHashtable" where
  "removeAll_from t pos =
     (case uhash_nextElement t pos of
        None \<Rightarrow> t
      | Some i \<Rightarrow> removeAll_from (snd (uhash_removeElement t i)) (int i))"
  by pat_completeness auto
termination
proof (relation "measure (\<lambda>(t, pos). uh_length t - nat (pos + 1))")
  fix t :: "'p UHashtable" and pos i
  assume "uhash_nextElement t pos = Some i"
  then have "nat (pos + 1) \<le> i" "i < uh_length t"
    using next_occupied_bounds by (auto simp: uhash_nextElement_def)
  then show "((snd (uhash_removeElement t i), int i), t, pos) \<in> measure (\<lambda>(t, pos). uh_length t - nat (pos + 1))"
    by (simp add: nat_add_distrib)
qed simp

declare removeAll_from.simps [simp del]

definition uhash_removeAll :: "'p UHashtable \<Rightarrow> 'p UHashtable" where
  "uhash_removeAll t = (if uh_count t \<noteq> 0 then removeAll_from t (- 1) else t)"

function close_from :: "'p UHashtable \<Rightarrow> int \<Rightarrow> 'p UHashtable \<Rightarrow> 'p UHashtable" where
  "close_from t pos log =
     (case uhash_nextElement t pos of
        None \<Rightarrow> log
      | Some i \<Rightarrow> let e = uh_elements t ! i in
                  close_from t (int i) (HASH_DELETE_KEY_VALUE log (he_key e) (he_value e)))"
  by pat_completeness auto
termination
proof (relation "measure (\<lambda>(t, pos, log). uh_length t - nat (pos + 1))")
  fix t :: "'p UHashtable" and pos i log x
  assume "uhash_nextElement t pos = Some i"
  then have "nat (pos + 1) \<le> i" "i < uh_length t"
    using next_occupied_bounds by (auto simp: uhash_nextElement_def)
  then show "((t, int i, HASH_DELETE_KEY_VALUE log (he_key x) (he_value x)), t, pos, log)
      \<in> measure (\<lambda>(t, pos, log). uh_length t - nat (pos + 1))"
    by (simp add: nat_add_distrib)
qed simp

declare close_from.simps [simp del]

definition uhash_close :: "'p UHashtable \<Rightarrow> 'p UHashtable" where
  "uhash_close t =
     (if uh_keyDeleter t \<or> uh_valueDeleter t then close_from t (- 1) t else t)\<lparr>uh_elements := []\<rparr>"

definition uhash_find :: "'p UHashtable \<Rightarrow> 'p option \<Rightarrow> 'p UHashElement option option" where
  "uhash_find t key =
     (case uhash_find_slot t (of_pointer key) (uh_keyHasher t (of_pointer key)) of
        None \<Rightarrow> None
      | Some i \<Rightarrow> let e = uh_elements t ! i in
                  Some (if IS_EMPTY_OR_DELETED (he_hashcode e) then None else Some e))"

text \<open>
  \<open>uhash_equals\<close> for two distinct tables; \<open>sameFunctions\<close> says that they have the same key and value
  comparators, which the source compares as function pointers.  The loop makes \<open>count1\<close> steps.
\<close>

fun equals_loop ::
  "nat \<Rightarrow> int \<Rightarrow> ('p UHashTok \<Rightarrow> 'p UHashTok \<Rightarrow> bool) \<Rightarrow> 'p UHashtable \<Rightarrow> 'p UHashtable \<Rightarrow> bool option" where
  "equals_loop 0 pos cmp t1 t2 = Some True"
| "equals_loop (Suc n) pos cmp t1 t2 =
     (case uhash_nextElement t1 pos of
        None \<Rightarrow> None
      | Some i \<Rightarrow>
          (case find_value t2 (he_key (uh_elements t1 ! i)) of
             None \<Rightarrow> None
           | Some val2 \<Rightarrow>
               if \<not> cmp (he_value (uh_elements t1 ! i)) val2 then Some False
               else equals_loop n (int i) cmp t1 t2))"

definition uhash_equals :: "'p UHashtable \<Rightarrow> 'p UHashtable \<Rightarrow> bool \<Rightarrow> bool option" where
  "uhash_equals t1 t2 sameFunctions =
     (case uh_valueComparator t1 of
        None \<Rightarrow> Some False
      | Some cmp \<Rightarrow>
          if \<not> sameFunctions then Some False
          else if uh_count t1 \<noteq> uh_count t2 then Some False
          else equals_loop (nat (uh_count t1)) (- 1) cmp t1 t2)"

section \<open>Key hashers and comparators\<close>

text \<open>
  The string functions read the units at a pointer up to the terminating zero: \<open>mem\<close> gives the units from a
  pointer on, and a list that has ended reads as zero.
\<close>

fun c_str :: "int list \<Rightarrow> int list" where
  "c_str us = takeWhile (\<lambda>u. u \<noteq> 0) us"

fun STRING_HASH_loop :: "nat \<Rightarrow> int \<Rightarrow> int list \<Rightarrow> int" where
  "STRING_HASH_loop inc h [] = h"
| "STRING_HASH_loop inc h (d # ds) = STRING_HASH_loop inc ((h * 37 + d) mod 2 ^ 32) (drop (inc - 1) ds)"

definition STRING_HASH :: "(int \<Rightarrow> int) \<Rightarrow> int list \<Rightarrow> int" where
  "STRING_HASH deref str =
     (let len = length str;
          inc = (if len < 32 then 1 else (len - 32) div 32 + 1);
          h = STRING_HASH_loop inc 0 (map deref str) in
      if h \<ge> 2 ^ 31 then h - 2 ^ 32 else h)"

definition uprv_asciitolower :: "int \<Rightarrow> int" where
  "uprv_asciitolower c = (if 0x41 \<le> c \<and> c \<le> 0x5a then c + 0x20 else c)"

definition ustr_hashUCharsN :: "int list \<Rightarrow> int" where
  "ustr_hashUCharsN str = STRING_HASH (\<lambda>c. c) str"

definition ustr_hashCharsN :: "int list \<Rightarrow> int" where
  "ustr_hashCharsN str = STRING_HASH (\<lambda>c. c mod 256) str"

definition ustr_hashICharsN :: "int list \<Rightarrow> int" where
  "ustr_hashICharsN str = STRING_HASH (\<lambda>c. uprv_asciitolower c mod 256) str"

definition uhash_hashUChars :: "('p \<Rightarrow> int list) \<Rightarrow> 'p UHashTok \<Rightarrow> int" where
  "uhash_hashUChars mem key = (case as_pointer key of None \<Rightarrow> 0 | Some s \<Rightarrow> ustr_hashUCharsN (c_str (mem s)))"

definition uhash_hashChars :: "('p \<Rightarrow> int list) \<Rightarrow> 'p UHashTok \<Rightarrow> int" where
  "uhash_hashChars mem key = (case as_pointer key of None \<Rightarrow> 0 | Some s \<Rightarrow> ustr_hashCharsN (c_str (mem s)))"

definition uhash_hashIChars :: "('p \<Rightarrow> int list) \<Rightarrow> 'p UHashTok \<Rightarrow> int" where
  "uhash_hashIChars mem key = (case as_pointer key of None \<Rightarrow> 0 | Some s \<Rightarrow> ustr_hashICharsN (c_str (mem s)))"

text \<open>The loops of the string comparators; \<open>f\<close> is the function applied before units are compared.\<close>

fun compare_units :: "(int \<Rightarrow> int) \<Rightarrow> int list \<Rightarrow> int list \<Rightarrow> bool" where
  "compare_units f [] [] = True"
| "compare_units f [] (y # ys) = (0 = y)"
| "compare_units f (x # xs) [] = (if x \<noteq> 0 \<and> f x = f 0 then compare_units f xs [] else x = 0)"
| "compare_units f (x # xs) (y # ys) = (if x \<noteq> 0 \<and> f x = f y then compare_units f xs ys else x = y)"

definition compare_pointers ::
  "(int \<Rightarrow> int) \<Rightarrow> ('p \<Rightarrow> int list) \<Rightarrow> 'p UHashTok \<Rightarrow> 'p UHashTok \<Rightarrow> bool" where
  "compare_pointers f mem key1 key2 =
     (if as_pointer key1 = as_pointer key2 then True
      else case (as_pointer key1, as_pointer key2) of
             (Some p1, Some p2) \<Rightarrow> compare_units f (mem p1) (mem p2)
           | _ \<Rightarrow> False)"

definition uhash_compareUChars :: "('p \<Rightarrow> int list) \<Rightarrow> 'p UHashTok \<Rightarrow> 'p UHashTok \<Rightarrow> bool" where
  "uhash_compareUChars mem = compare_pointers (\<lambda>u. u) mem"

definition uhash_compareChars :: "('p \<Rightarrow> int list) \<Rightarrow> 'p UHashTok \<Rightarrow> 'p UHashTok \<Rightarrow> bool" where
  "uhash_compareChars mem = compare_pointers (\<lambda>u. u) mem"

definition uhash_compareIChars :: "('p \<Rightarrow> int list) \<Rightarrow> 'p UHashTok \<Rightarrow> 'p UHashTok \<Rightarrow> bool" where
  "uhash_compareIChars mem = compare_pointers uprv_asciitolower mem"

definition uhash_hashLong :: "'p UHashTok \<Rightarrow> int" where
  "uhash_hashLong key = as_integer key"

definition uhash_compareLong :: "'p UHashTok \<Rightarrow> 'p UHashTok \<Rightarrow> bool" where
  "uhash_compareLong key1 key2 = (as_integer key1 = as_integer key2)"

end
