(* ===== verification/UHashProbe.thy ===== *)
theory UHashProbe
  imports UHash
begin

unbundle bit_operations_syntax

text \<open>
  Probe sequences of the hash table \<open>common/uhash.c\<close>: double hashing over a prime number of slots visits every
  slot once, so the loop of \<open>_uhash_find\<close> ends within \<open>length\<close> steps.  The lengths in the table of primes are
  prime; trial division shows it for the first sixteen, up to 524287 slots.
\<close>

section \<open>Probe sequences\<close>

definition prime_length :: "nat \<Rightarrow> bool" where
  "prime_length n \<longleftrightarrow> 2 < n \<and> (\<forall>d\<in>{2..<n}. \<not> d dvd n)"

definition jump_of :: "nat \<Rightarrow> nat \<Rightarrow> nat" where
  "jump_of n h = h mod (n - 1) + 1"

definition probe :: "nat \<Rightarrow> nat \<Rightarrow> nat \<Rightarrow> nat" where
  "probe n h m = ((h XOR 0x4000000) mod n + m * jump_of n h) mod n"

lemma jump_of_bounds: "2 < n \<Longrightarrow> 0 < jump_of n h \<and> jump_of n h < n"
  using mod_less_divisor [of "n - 1" h] unfolding jump_of_def by linarith

lemma prime_length_coprime:
  assumes "prime_length n" and "0 < j" and "j < n"
  shows "coprime n j"
proof -
  have "gcd n j < n" using assms gcd_le2_nat [of j n] by linarith
  moreover have "gcd n j dvd n" by simp
  ultimately have "\<not> 2 \<le> gcd n j" using assms(1) unfolding prime_length_def by (meson atLeastLessThan_iff)
  moreover have "0 < gcd n j" using assms by simp
  ultimately have "gcd n j = 1" by linarith
  then show ?thesis by (simp add: coprime_iff_gcd_eq_1)
qed

lemma probe_less: "0 < n \<Longrightarrow> probe n h m < n"
  by (simp add: probe_def)

lemma probe_Suc: "probe n h (Suc m) = (probe n h m + jump_of n h) mod n"
  unfolding probe_def mod_add_left_eq by (simp add: algebra_simps)

lemma probe_neq:
  assumes n: "prime_length n" and "a < b" and "b - a < n"
  shows "probe n h a \<noteq> probe n h b"
proof
  assume "probe n h a = probe n h b"
  moreover have "a * jump_of n h \<le> b * jump_of n h" using assms(2) by simp
  ultimately have "n dvd b * jump_of n h - a * jump_of n h"
    by (simp only: probe_def eq_commute [of "(_ + a * _) mod n"]) (subst (asm) mod_eq_dvd_iff_nat, simp_all)
  then have "n dvd (b - a) * jump_of n h" by (simp add: diff_mult_distrib)
  moreover have "coprime n (jump_of n h)"
    using n jump_of_bounds [of n h] by (intro prime_length_coprime) (auto simp: prime_length_def)
  ultimately have "n dvd b - a" by (simp add: coprime_dvd_mult_left_iff)
  then show False using assms by (auto dest: dvd_imp_le)
qed

lemma probe_n: "probe n h n = probe n h 0"
  by (simp add: probe_def)

lemma probe_image:
  assumes "prime_length n"
  shows "probe n h ` {..<n} = {..<n}"
proof (rule card_seteq)
  show "probe n h ` {..<n} \<subseteq> {..<n}" using assms by (auto simp: probe_less prime_length_def)
  have "inj_on (probe n h) {..<n}"
  proof (rule inj_onI)
    fix a b assume "a \<in> {..<n}" "b \<in> {..<n}" "probe n h a = probe n h b"
    then show "a = b"
      using probe_neq [OF assms, of a b h] probe_neq [OF assms, of b a h]
      by (cases a b rule: linorder_cases) (auto simp: less_imp_diff_less)
  qed
  then show "card {..<n} \<le> card (probe n h ` {..<n})" by (simp add: card_image)
qed simp

section \<open>The search loop\<close>

text \<open>The loop of \<open>_uhash_find\<close> as a walk along a list of slots.\<close>

abbreviation occupied :: "'p UHashElement \<Rightarrow> bool" where
  "occupied e \<equiv> 0 \<le> he_hashcode e"

abbreviation never_used :: "'p UHashElement \<Rightarrow> bool" where
  "never_used e \<equiv> he_hashcode e = HASH_EMPTY"

abbreviation hits :: "'p UHashtable \<Rightarrow> 'p UHashTok \<Rightarrow> nat \<Rightarrow> nat \<Rightarrow> bool" where
  "hits t key h i \<equiv> he_hashcode (uh_elements t ! i) = int h \<and> uh_keyComparator t key (he_key (uh_elements t ! i))"

fun walk :: "'p UHashtable \<Rightarrow> 'p UHashTok \<Rightarrow> nat \<Rightarrow> nat option \<Rightarrow> nat list \<Rightarrow> nat option" where
  "walk t key h fd [] = fd"
| "walk t key h fd (i # is) =
     (if hits t key h i then Some i
      else if never_used (uh_elements t ! i) then Some (case fd of Some j \<Rightarrow> j | None \<Rightarrow> i)
      else walk t key h (if he_hashcode (uh_elements t ! i) < 0 \<and> fd = None then Some i else fd) is)"

lemma find_loop_walk:
  assumes n: "prime_length (uh_length t)" and "m < uh_length t"
    and "jump = jump_of (uh_length t) h \<or> m = 0 \<and> jump = 0"
  shows "find_loop (uh_length t - m) t key h (probe (uh_length t) h 0) (probe (uh_length t) h m) fd jump =
    Some (walk t key h fd (map (probe (uh_length t) h) [m..<uh_length t]))"
  using assms(2,3)
proof (induction "uh_length t - m" arbitrary: m fd jump)
  case (Suc f)
  let ?n = "uh_length t" and ?p = "probe (uh_length t) h"
  have f: "?n - m = Suc (?n - Suc m)" and up: "[m..<?n] = m # [Suc m..<?n]"
    using Suc.prems by (simp_all add: upt_conv_Cons)
  have jump: "(if jump = 0 then h mod (?n - 1) + 1 else jump) = jump_of ?n h"
    using Suc.prems(2) by (auto simp: jump_of_def)
  have fin: "?p (Suc m) = ?p 0 \<longleftrightarrow> Suc m = ?n"
    using probe_neq [OF n, of 0 "Suc m" h] probe_n [of ?n h] Suc.prems(1)
    by (cases "Suc m = ?n") auto
  show ?case
  proof (cases "Suc m = ?n")
    case True
    then show ?thesis
      unfolding f up find_loop.simps list.map walk.simps Let_def jump probe_Suc [symmetric]
      using fin by (auto split: option.split)
  next
    case False
    have IH: "\<And>fd. find_loop (?n - Suc m) t key h (?p 0) (?p (Suc m)) fd (jump_of ?n h) =
        Some (walk t key h fd (map ?p [Suc m..<?n]))"
      using Suc.hyps(1) [of "Suc m"] Suc.hyps(2) Suc.prems(1) False by simp
    show ?thesis
      unfolding f up find_loop.simps list.map walk.simps Let_def jump probe_Suc [symmetric]
      using fin False by (auto simp: IH split: option.split)
  qed
qed simp

lemma find_slot_walk:
  assumes "prime_length (uh_length t)"
  shows "uhash_find_slot t key hc =
    walk t key (positive_hash hc) None (map (probe (uh_length t) (positive_hash hc)) [0..<uh_length t])"
proof -
  have "(positive_hash hc XOR 0x4000000) mod uh_length t = probe (uh_length t) (positive_hash hc) 0"
    by (simp add: probe_def)
  moreover have "0 < uh_length t" using assms unfolding prime_length_def by linarith
  ultimately show ?thesis
    using find_loop_walk [OF assms, of 0 0 "positive_hash hc" key None]
    by (simp only: uhash_find_slot_def Let_def) simp
qed

text \<open>What the walk returns: a hit, or the first slot that can take the key.\<close>

lemma walk_hit:
  assumes "is = pre @ i # post" and "hits t key h i"
    and "\<forall>j\<in>set pre. \<not> hits t key h j \<and> \<not> never_used (uh_elements t ! j)"
  shows "walk t key h fd is = Some i"
  using assms by (induction pre arbitrary: "is" fd) auto

lemma walk_miss:
  assumes "\<forall>j\<in>set is. \<not> hits t key h j"
    and "fd \<noteq> None \<or> (\<exists>j\<in>set is. he_hashcode (uh_elements t ! j) < 0)"
  shows "\<exists>i. walk t key h fd is = Some i \<and>
    (fd = Some i \<or>
     fd = None \<and> (\<exists>pre post. is = pre @ i # post \<and> he_hashcode (uh_elements t ! i) < 0 \<and>
        (\<forall>j\<in>set pre. \<not> never_used (uh_elements t ! j))))"
  using assms
proof (induction "is" arbitrary: fd)
  case (Cons k "is")
  show ?case
  proof (cases fd)
    case (Some j)
    then show ?thesis using Cons by auto
  next
    case None
    show ?thesis
    proof (cases "he_hashcode (uh_elements t ! k) < 0")
      case True
      then show ?thesis using Cons None by (fastforce intro: exI [of _ "[]"])
    next
      case False
      then have "\<exists>i. walk t key h None is = Some i \<and> (\<exists>pre post. is = pre @ i # post \<and>
          he_hashcode (uh_elements t ! i) < 0 \<and> (\<forall>j\<in>set pre. \<not> never_used (uh_elements t ! j)))"
        using Cons.IH [of None] Cons.prems None by auto
      then obtain i pre post where i: "walk t key h None is = Some i" "is = pre @ i # post"
          "he_hashcode (uh_elements t ! i) < 0" "\<forall>j\<in>set pre. \<not> never_used (uh_elements t ! j)"
        by blast
      have "k # is = (k # pre) @ i # post \<and> (\<forall>j\<in>set (k # pre). \<not> never_used (uh_elements t ! j))"
        using i False by auto
      moreover have "walk t key h fd (k # is) = Some i" using i Cons.prems(1) None False by auto
      ultimately show ?thesis using i(3) None by blast
    qed
  qed
qed auto

section \<open>The table of primes\<close>

text \<open>The first sixteen lengths are prime, by trial division up to the square root.\<close>

fun no_divisor :: "int \<Rightarrow> int list \<Rightarrow> bool" where
  "no_divisor p [] = True"
| "no_divisor p (d # ds) = (p mod d \<noteq> 0 \<and> no_divisor p ds)"

lemma no_divisor_iff: "no_divisor p ds \<longleftrightarrow> (\<forall>d\<in>set ds. \<not> d dvd p)"
  by (induction ds) (auto simp: dvd_eq_mod_eq_0)

lemma prime_length_trial:
  assumes "2 < n" and "no_divisor (int n) [2..int r]" and "n < (r + 1) * (r + 1)"
  shows "prime_length n"
  unfolding prime_length_def
proof (intro conjI ballI notI)
  have small: "\<not> d dvd n" if "2 \<le> d" "d \<le> r" for d
    using assms(2) that by (auto simp: no_divisor_iff dest!: bspec [of _ _ "int d"])
  fix d assume d: "d \<in> {2..<n}" "d dvd n"
  then obtain q where q: "n = d * q" by (auto elim: dvdE)
  have "q \<noteq> 0" "q \<noteq> 1" using q d assms(1) by auto
  then have "2 \<le> q" by simp
  have "r < d" using small [of d] d by force
  moreover have "r < q" using small [of q] \<open>2 \<le> q\<close> q by force
  ultimately have "(r + 1) * (r + 1) \<le> d * q" by (intro mult_le_mono) simp_all
  then show False using assms(3) q by simp
qed (use assms in simp)

lemma PRIMES_length [simp]: "length PRIMES = 28"
  by (simp add: PRIMES_def)

definition trial_bounds :: "(int \<times> int) list" where
  "trial_bounds = [(13, 3), (31, 5), (61, 7), (127, 11), (251, 15), (509, 22), (1021, 31), (2039, 45), (4093, 63), (8191, 90), (16381, 127), (32749, 180), (65521, 255), (131071, 362), (262139, 511), (524287, 724)]"

lemma trial_division:
  "\<forall>(p, r)\<in>set trial_bounds. 2 < p \<and> no_divisor p [2..r] \<and> p < (r + 1) * (r + 1) \<and> 0 \<le> r"
  by code_simp

lemma PRIMES_trial:
  assumes "i < 16"
  shows "int (PRIMES ! i) = fst (trial_bounds ! i)" and "i < length trial_bounds"
proof -
  show *: "i < length trial_bounds" using assms by (simp add: trial_bounds_def)
  have "map int (take 16 PRIMES) = map fst trial_bounds" by (simp add: PRIMES_def trial_bounds_def)
  then have "map int (take 16 PRIMES) ! i = map fst trial_bounds ! i" by (rule arg_cong)
  then show "int (PRIMES ! i) = fst (trial_bounds ! i)" using assms * by simp
qed

lemma PRIMES_prime:
  assumes "i < 16"
  shows "prime_length (PRIMES ! i)"
proof -
  define r where "r = nat (snd (trial_bounds ! i))"
  have "trial_bounds ! i \<in> set trial_bounds" "fst (trial_bounds ! i) = int (PRIMES ! i)"
    using PRIMES_trial [OF assms] by auto
  then have *: "2 < int (PRIMES ! i) \<and> no_divisor (int (PRIMES ! i)) [2..int r] \<and>
      int (PRIMES ! i) < (int r + 1) * (int r + 1)"
    using trial_division by (auto simp: r_def split_beta)
  then have "int (PRIMES ! i) < int ((r + 1) * (r + 1))" by (simp add: algebra_simps)
  then have "PRIMES ! i < (r + 1) * (r + 1)" by (simp only: of_nat_less_iff)
  then show ?thesis using * by (intro prime_length_trial [of _ r]) simp_all
qed

lemma PRIMES_grow: "i < 27 \<Longrightarrow> PRIMES ! i < PRIMES ! Suc i \<and> PRIMES ! Suc i div 10 < PRIMES ! i"
proof -
  assume i: "i < 27"
  have "list_all2 (\<lambda>p q. p < q \<and> q div 10 < p) (butlast PRIMES) (tl PRIMES)" by (simp add: PRIMES_def)
  then show ?thesis
    using i by (auto simp: list_all2_conv_all_nth nth_butlast nth_tl)
qed

end
