(* ===== verification/UHashProps.thy ===== *)
theory UHashProps
  imports UHashProbe
begin

text \<open>
  The invariant of the hash table \<open>common/uhash.c\<close>, its abstraction to a partial map, and the contract that
  the client's hash function and comparator must meet.  Inside the contract every operation on the contents
  keeps the invariant and acts on the map as its name says: searching, storing, removing and rehashing.
\<close>

section \<open>The invariant\<close>

text \<open>
  A key is reachable when no slot before its own on its probe sequence was never used: the search does not
  stop before it.
\<close>

definition reaches :: "'p UHashElement list \<Rightarrow> nat \<Rightarrow> nat \<Rightarrow> bool" where
  "reaches els h i \<longleftrightarrow> (\<exists>m<length els. probe (length els) h m = i \<and>
     (\<forall>k<m. \<not> never_used (els ! probe (length els) h k)))"

definition slot_ok :: "('p UHashTok \<Rightarrow> int) \<Rightarrow> 'p UHashElement \<Rightarrow> bool" where
  "slot_ok hash e \<longleftrightarrow>
     (if occupied e then he_hashcode e = int (positive_hash (hash (he_key e)))
      else he_hashcode e \<in> {HASH_EMPTY, HASH_DELETED} \<and> he_value e = Null)"

definition slots_ok ::
  "('p UHashTok \<Rightarrow> int) \<Rightarrow> ('p UHashTok \<Rightarrow> 'p UHashTok \<Rightarrow> bool) \<Rightarrow> 'p UHashElement list \<Rightarrow> bool" where
  "slots_ok hash cmp els \<longleftrightarrow>
     prime_length (length els) \<and>
     (\<forall>i<length els. slot_ok hash (els ! i)) \<and>
     (\<forall>i<length els. \<forall>j<length els. occupied (els ! i) \<longrightarrow> occupied (els ! j) \<longrightarrow>
        cmp (he_key (els ! i)) (he_key (els ! j)) \<longrightarrow> i = j) \<and>
     (\<forall>i<length els. occupied (els ! i) \<longrightarrow> reaches els (nat (he_hashcode (els ! i))) i)"

definition uh_ok :: "'p UHashtable \<Rightarrow> bool" where
  "uh_ok t \<longleftrightarrow>
     slots_ok (uh_keyHasher t) (uh_keyComparator t) (uh_elements t) \<and>
     uh_count t = int (length (filter occupied (uh_elements t))) \<and>
     uh_count t < int (uh_length t)"

text \<open>The table as a partial map: the value stored under a key.\<close>

definition slots_map :: "('p UHashTok \<Rightarrow> 'p UHashTok \<Rightarrow> bool) \<Rightarrow> 'p UHashElement list \<Rightarrow> 'p UHashTok \<Rightarrow> 'p UHashTok option" where
  "slots_map cmp els key =
     map_option he_value (List.find (\<lambda>e. occupied e \<and> cmp key (he_key e)) els)"

definition uh_map :: "'p UHashtable \<Rightarrow> 'p UHashTok \<Rightarrow> 'p UHashTok option" where
  "uh_map t = slots_map (uh_keyComparator t) (uh_elements t)"

lemma slots_map_None:
  "slots_map cmp els key = None \<longleftrightarrow> (\<forall>i<length els. \<not> (occupied (els ! i) \<and> cmp key (he_key (els ! i))))"
  by (auto simp: slots_map_def find_None_iff in_set_conv_nth)

lemma slots_map_SomeD:
  "slots_map cmp els key = Some v \<Longrightarrow>
     \<exists>i<length els. occupied (els ! i) \<and> cmp key (he_key (els ! i)) \<and> he_value (els ! i) = v"
  by (auto simp: slots_map_def find_Some_iff)

lemma slots_ok_distinct:
  assumes "slots_ok hash cmp els" and "i < length els" and "j < length els"
    and "occupied (els ! i)" and "occupied (els ! j)" and "cmp (he_key (els ! i)) (he_key (els ! j))"
  shows "i = j"
  using assms by (auto simp: slots_ok_def)

lemma filter_update_count:
  "i < length xs \<Longrightarrow> int (length (filter P (xs[i := e]))) =
     int (length (filter P xs)) + of_bool (P e) - of_bool (P (xs ! i))"
proof (induction xs arbitrary: i)
  case (Cons x xs)
  then show ?case by (cases i) auto
qed simp

lemma vacancy:
  assumes "int (length (filter P xs)) < int (length xs)"
  shows "\<exists>i<length xs. \<not> P (xs ! i)"
proof (rule ccontr)
  assume "\<not> ?thesis"
  then have "filter P xs = xs" by (auto simp: filter_id_conv in_set_conv_nth)
  then show False using assms by simp
qed

lemma reaches_update:
  assumes "i < length els" and "\<not> never_used e" and "reaches els h j"
  shows "reaches (els[i := e]) h j"
proof -
  have *: "\<not> never_used (els ! k) \<Longrightarrow> \<not> never_used (els[i := e] ! k)" for k
    using assms(1,2) by (cases "k = i") auto
  show ?thesis using assms(3) * unfolding reaches_def by (auto simp del: nth_list_update_neq)
qed

section \<open>Searching\<close>

lemma positive_hash_int [simp]: "positive_hash (int (positive_hash x)) = positive_hash x"
proof -
  have "0 \<le> x AND 0x7fffffff" by simp
  then show ?thesis by (simp add: positive_hash_def and.assoc)
qed

lemma probe_split:
  "m < n \<Longrightarrow> map (probe n h) [0..<n] = map (probe n h) [0..<m] @ probe n h m # map (probe n h) [Suc m..<n]"
  using upt_add_eq_append [of 0 m "n - m"] upt_conv_Cons [of m n] by simp

lemma find_vacant:
  assumes n: "prime_length (uh_length t)"
    and miss: "\<And>j. j < uh_length t \<Longrightarrow> \<not> hits t key (positive_hash hc) j"
    and free: "\<exists>j<uh_length t. he_hashcode (uh_elements t ! j) < 0"
  shows "\<exists>i<uh_length t. uhash_find_slot t key hc = Some i \<and> he_hashcode (uh_elements t ! i) < 0 \<and>
    reaches (uh_elements t) (positive_hash hc) i"
proof -
  let ?n = "uh_length t" and ?p = "probe (uh_length t) (positive_hash hc)"
  have pos: "0 < ?n" using n unfolding prime_length_def by linarith
  define js where "js = map ?p [0..<?n]"
  have range: "set js = {..<?n}"
    using probe_image [OF n] by (simp add: js_def atLeast0LessThan)
  have "\<exists>i. walk t key (positive_hash hc) None js = Some i \<and>
    (\<exists>pre post. js = pre @ i # post \<and> he_hashcode (uh_elements t ! i) < 0 \<and>
      (\<forall>j\<in>set pre. \<not> never_used (uh_elements t ! j)))"
    using walk_miss [of js t "positive_hash hc" key None] miss free range by auto
  then obtain i pre post where i: "uhash_find_slot t key hc = Some i" "map ?p [0..<?n] = pre @ i # post"
      "he_hashcode (uh_elements t ! i) < 0" "\<forall>j\<in>set pre. \<not> never_used (uh_elements t ! j)"
    unfolding find_slot_walk [OF n] js_def by blast
  let ?m = "length pre"
  have m: "?m < ?n" using arg_cong [OF i(2), of length] by simp
  have nth: "?p k = (pre @ i # post) ! k" if "k < ?n" for k
    using arg_cong [OF i(2), of "\<lambda>xs. xs ! k"] that by simp
  have "?p ?m = i" using nth [OF m] by simp
  moreover have "\<not> never_used (uh_elements t ! ?p k)" if "k < ?m" for k
    using nth [of k] that m i(4) by (auto simp: nth_append)
  ultimately have "reaches (uh_elements t) (positive_hash hc) i" using m by (auto simp: reaches_def)
  moreover have "i < ?n" using \<open>?p ?m = i\<close> probe_less [OF pos] by blast
  ultimately show ?thesis using i by blast
qed

lemma find_full:
  assumes n: "prime_length (uh_length t)"
    and "\<And>j. j < uh_length t \<Longrightarrow> \<not> hits t key (positive_hash hc) j \<and> occupied (uh_elements t ! j)"
  shows "uhash_find_slot t key hc = None"
proof -
  have walk: "walk t key h None is = None"
    if "\<forall>j\<in>set is. \<not> hits t key h j \<and> occupied (uh_elements t ! j)" for "is" h
    using that by (induction "is") auto
  show ?thesis
    unfolding find_slot_walk [OF n] using probe_image [OF n, of "positive_hash hc"] assms(2)
    by (intro walk) (auto simp: atLeast0LessThan)
qed

section \<open>The key contract\<close>

text \<open>The prime index and the water marks agree with the length; a failed reallocation breaks this.\<close>

definition uh_synced :: "'p UHashtable \<Rightarrow> bool" where
  "uh_synced t \<longleftrightarrow>
     0 \<le> uh_primeIndex t \<and> uh_primeIndex t < 28 \<and> uh_length t = PRIMES ! nat (uh_primeIndex t) \<and>
     uh_highWaterMark t = highWaterMark_of (uh_policy t) (uh_length t) \<and>
     uh_lowWaterMark t = lowWaterMark_of (uh_policy t) (uh_length t)"

text \<open>The client's functions and the settings of a table, which no operation on its contents changes.\<close>

abbreviation uh_settings where
  "uh_settings t \<equiv> (uh_keyHasher t, uh_keyComparator t, uh_valueComparator t, uh_keyDeleter t, uh_valueDeleter t, uh_policy t)"

lemma setElement_fields:
  assumes "uhash_setElement t i hc key value = (r, t')"
  shows "uh_elements t' = (uh_elements t)[i := \<lparr>he_hashcode = hc, he_value = value, he_key = key\<rparr>]"
    and "uh_count t' = uh_count t" and "uh_settings t' = uh_settings t" and "uh_primeIndex t' = uh_primeIndex t"
    and "uh_highWaterMark t' = uh_highWaterMark t" and "uh_lowWaterMark t' = uh_lowWaterMark t"
    and "r = (if uh_valueDeleter t then Null else he_value (uh_elements t ! i))"
  using assms by (auto simp: uhash_setElement_def Let_def split: option.splits if_splits)

text \<open>The last part of \<open>_uhash_put\<close>, after the table may have grown.\<close>

definition put_store ::
  "'p UHashtable \<Rightarrow> 'p UHashTok \<Rightarrow> 'p UHashTok \<Rightarrow> UErrorCode \<Rightarrow> ('p UHashTok \<times> 'p UHashtable \<times> UErrorCode) option" where
  "put_store t key value status =
     (case uhash_find_slot t key (uh_keyHasher t key) of
        None \<Rightarrow> None
      | Some i \<Rightarrow>
          if IS_EMPTY_OR_DELETED (he_hashcode (uh_elements t ! i)) \<and> uh_count t + 1 = int (uh_length t)
          then Some (Null, HASH_DELETE_KEY_VALUE t key value, U_MEMORY_ALLOCATION_ERROR)
          else case uhash_setElement
                   (if IS_EMPTY_OR_DELETED (he_hashcode (uh_elements t ! i)) then t\<lparr>uh_count := uh_count t + 1\<rparr> else t) i
                   (int (positive_hash (uh_keyHasher t key))) key value of
                 (r, t) \<Rightarrow> Some (r, t, status))"

lemma put_key_store:
  assumes "U_SUCCESS status" and "\<not> (valuePointer \<and> as_pointer value = None)"
  shows "uhash_put_key alloc t key value valuePointer status =
    (case (if uh_count t > uh_highWaterMark t then uhash_rehash alloc t status else Some (t, status)) of
       None \<Rightarrow> None
     | Some (t, status) \<Rightarrow> if U_FAILURE status then Some (Null, HASH_DELETE_KEY_VALUE t key value, status)
                           else put_store t key value status)"
  using assms by (simp only: uhash_put_key_def put_store_def Let_def if_False)

lemma HASH_DELETE_KEY_VALUE_fields [simp]:
  "uh_keyHasher (HASH_DELETE_KEY_VALUE t k v) = uh_keyHasher t"
  "uh_keyComparator (HASH_DELETE_KEY_VALUE t k v) = uh_keyComparator t"
  "uh_valueComparator (HASH_DELETE_KEY_VALUE t k v) = uh_valueComparator t"
  "uh_keyDeleter (HASH_DELETE_KEY_VALUE t k v) = uh_keyDeleter t"
  "uh_valueDeleter (HASH_DELETE_KEY_VALUE t k v) = uh_valueDeleter t"
  "uh_policy (HASH_DELETE_KEY_VALUE t k v) = uh_policy t"
  "uh_count (HASH_DELETE_KEY_VALUE t k v) = uh_count t"
  "uh_primeIndex (HASH_DELETE_KEY_VALUE t k v) = uh_primeIndex t"
  "uh_ok (HASH_DELETE_KEY_VALUE t k v) = uh_ok t"
  "uh_map (HASH_DELETE_KEY_VALUE t k v) = uh_map t" "uh_synced (HASH_DELETE_KEY_VALUE t k v) = uh_synced t"
  by (simp_all add: HASH_DELETE_KEY_VALUE_def Let_def uh_ok_def uh_map_def uh_synced_def split: option.split)

lemma replicate_ok: "prime_length n \<Longrightarrow> slots_ok hash cmp (replicate n empty_slot)"
  by (auto simp: slots_ok_def slot_ok_def)

lemma replicate_map: "slots_map cmp (replicate n empty_slot) k = None"
  by (simp add: slots_map_None)

text \<open>
  What the table relies on in the functions its client supplies: the comparator is an equivalence and
  equal keys have equal hash codes.
\<close>

locale key_contract =
  fixes hash :: "'p UHashTok \<Rightarrow> int" and cmp :: "'p UHashTok \<Rightarrow> 'p UHashTok \<Rightarrow> bool"
  assumes cmp_refl: "cmp k k"
    and cmp_sym: "cmp k1 k2 \<Longrightarrow> cmp k2 k1"
    and cmp_trans: "cmp k1 k2 \<Longrightarrow> cmp k2 k3 \<Longrightarrow> cmp k1 k3"
    and cmp_hash: "cmp k1 k2 \<Longrightarrow> hash k1 = hash k2"
begin

lemma slots_map_Some:
  assumes "slots_ok hash cmp els" and "i < length els" and "occupied (els ! i)" and "cmp key (he_key (els ! i))"
  shows "slots_map cmp els key = Some (he_value (els ! i))"
proof (cases "slots_map cmp els key")
  case None
  then show ?thesis using assms by (auto simp: slots_map_None)
next
  case (Some v)
  then obtain j where j: "j < length els" "occupied (els ! j)" "cmp key (he_key (els ! j))" "he_value (els ! j) = v"
    using slots_map_SomeD by blast
  then have "cmp (he_key (els ! i)) (he_key (els ! j))" using assms(4) cmp_sym cmp_trans by blast
  then have "i = j" using assms j by (auto simp: slots_ok_def)
  then show ?thesis using Some j by simp
qed

lemma slots_map_eq: "cmp k1 k2 \<Longrightarrow> slots_map cmp els k1 = slots_map cmp els k2"
proof -
  assume "cmp k1 k2"
  then have "cmp k1 k = cmp k2 k" for k using cmp_sym cmp_trans by blast
  then show ?thesis by (simp add: slots_map_def)
qed

text \<open>Storing an element in a slot keeps the invariant and changes the map at its key only.\<close>

lemma slots_ok_update:
  assumes ok: "slots_ok hash cmp els" and i: "i < length els" and e: "slot_ok hash e" "\<not> never_used e"
    and r: "occupied e \<Longrightarrow> reaches els (nat (he_hashcode e)) i"
    and d: "\<And>j. occupied e \<Longrightarrow> j < length els \<Longrightarrow> j \<noteq> i \<Longrightarrow> occupied (els ! j) \<Longrightarrow>
      \<not> cmp (he_key e) (he_key (els ! j))"
  shows "slots_ok hash cmp (els[i := e])"
  unfolding slots_ok_def
proof (intro conjI allI impI)
  show "prime_length (length (els[i := e]))" using ok by (simp add: slots_ok_def)
  fix j assume j: "j < length (els[i := e])"
  then show "slot_ok hash (els[i := e] ! j)"
    using ok e by (cases "j = i") (auto simp: slots_ok_def)
  { assume "occupied (els[i := e] ! j)"
    then show "reaches (els[i := e]) (nat (he_hashcode (els[i := e] ! j))) j"
      using ok i j e(2) r by (cases "j = i") (auto simp: slots_ok_def intro: reaches_update) }
  { fix k assume "k < length (els[i := e])" "occupied (els[i := e] ! j)" "occupied (els[i := e] ! k)"
      "cmp (he_key (els[i := e] ! j)) (he_key (els[i := e] ! k))"
    then show "j = k"
      using ok i j d [of j] d [of k] cmp_sym
      by (cases "j = i"; cases "k = i") (auto simp: slots_ok_def) }
qed

lemma slots_map_update:
  assumes ok: "slots_ok hash cmp els" and ok': "slots_ok hash cmp (els[i := e])" and i: "i < length els"
  shows "slots_map cmp (els[i := e]) k =
    (if occupied e \<and> cmp k (he_key e) then Some (he_value e)
     else if occupied (els ! i) \<and> cmp k (he_key (els ! i)) then None
     else slots_map cmp els k)"
proof (cases "occupied e \<and> cmp k (he_key e)")
  case True
  then show ?thesis using slots_map_Some [OF ok', of i k] i by simp
next
  case new: False
  show ?thesis
  proof (cases "slots_map cmp (els[i := e]) k")
    case None
    then have *: "\<not> (occupied (els ! j) \<and> cmp k (he_key (els ! j)))" if "j < length els" "j \<noteq> i" for j
      using that by (auto simp: slots_map_None dest: spec [of _ j])
    then have "slots_map cmp els k = None" if "\<not> (occupied (els ! i) \<and> cmp k (he_key (els ! i)))"
      using that by (auto simp: slots_map_None)
    then show ?thesis using None new by simp
  next
    case (Some v)
    then obtain j where j: "j < length els" "occupied (els[i := e] ! j)" "cmp k (he_key (els[i := e] ! j))"
        "he_value (els[i := e] ! j) = v"
      using slots_map_SomeD by fastforce
    then have "j \<noteq> i" using new i by auto
    then have j': "occupied (els ! j)" "cmp k (he_key (els ! j))" "he_value (els ! j) = v" using j by auto
    have "\<not> (occupied (els ! i) \<and> cmp k (he_key (els ! i)))"
    proof
      assume a: "occupied (els ! i) \<and> cmp k (he_key (els ! i))"
      then have "cmp (he_key (els ! i)) (he_key (els ! j))" using j'(2) cmp_sym cmp_trans by blast
      then show False using ok i j(1) j'(1) a \<open>j \<noteq> i\<close> by (auto simp: slots_ok_def)
    qed
    then show ?thesis using Some new j' slots_map_Some [OF ok j(1) j'(1,2)] by auto
  qed
qed

text \<open>The search finds a stored key, and a slot for a key that is not stored.\<close>

lemma find_present:
  assumes ok: "slots_ok hash cmp (uh_elements t)" and c: "uh_keyComparator t = cmp"
    and i: "i < uh_length t" "occupied (uh_elements t ! i)" "cmp key (he_key (uh_elements t ! i))"
  shows "uhash_find_slot t key (hash key) = Some i"
proof -
  let ?n = "uh_length t" and ?h = "positive_hash (hash key)"
  have n: "prime_length ?n" using ok by (simp add: slots_ok_def)
  have code: "he_hashcode (uh_elements t ! i) = int ?h"
    using ok i cmp_hash [OF i(3)] by (auto simp: slots_ok_def slot_ok_def)
  have "reaches (uh_elements t) ?h i" using ok i code by (auto simp: slots_ok_def)
  then obtain m where m: "m < ?n" "probe ?n ?h m = i" "\<forall>k<m. \<not> never_used (uh_elements t ! probe ?n ?h k)"
    by (auto simp: reaches_def)
  have "\<not> hits t key ?h (probe ?n ?h k)" if "k < m" for k
  proof
    let ?j = "probe ?n ?h k"
    assume hit: "hits t key ?h ?j"
    have "?j < ?n" using m(1) by (intro probe_less) linarith
    moreover have "cmp (he_key (uh_elements t ! i)) (he_key (uh_elements t ! ?j))"
      using hit c i(3) cmp_sym cmp_trans by blast
    ultimately have "i = ?j" using ok i(1,2) hit by (auto simp: slots_ok_def)
    then show False using probe_neq [OF n, of k m ?h] m that by (simp add: less_imp_diff_less)
  qed
  then have "walk t key ?h None (map (probe ?n ?h) [0..<?n]) = Some (probe ?n ?h m)"
    by (intro walk_hit [OF probe_split [OF m(1)]]) (use m i code c in auto)
  then show ?thesis unfolding find_slot_walk [OF n] using m(2) by simp
qed

lemma find_absent:
  assumes ok: "slots_ok hash cmp (uh_elements t)" and c: "uh_keyComparator t = cmp"
    and free: "\<exists>j<uh_length t. \<not> occupied (uh_elements t ! j)" and no: "slots_map cmp (uh_elements t) key = None"
  shows "\<exists>i<uh_length t. uhash_find_slot t key hc = Some i \<and> he_hashcode (uh_elements t ! i) < 0 \<and>
    reaches (uh_elements t) (positive_hash hc) i"
proof (rule find_vacant)
  show "\<not> hits t key (positive_hash hc) j" if "j < uh_length t" for j
    using no that c by (auto simp: slots_map_None)
qed (use ok free in \<open>auto simp: slots_ok_def not_le\<close>)

lemma find_value_map:
  assumes ok: "uh_ok t" and f: "uh_keyHasher t = hash" "uh_keyComparator t = cmp"
  shows "find_value t key = Some (case uh_map t key of Some v \<Rightarrow> v | None \<Rightarrow> Null)"
proof (cases "uh_map t key")
  case None
  then obtain i where "i < uh_length t" "uhash_find_slot t key (hash key) = Some i" "he_hashcode (uh_elements t ! i) < 0"
    using find_absent [of t key] ok f vacancy [of occupied "uh_elements t"]
    by (auto simp: uh_ok_def uh_map_def)
  then show ?thesis using None ok f by (auto simp: find_value_def uh_ok_def slots_ok_def slot_ok_def)
next
  case (Some v)
  then obtain i where i: "i < uh_length t" "occupied (uh_elements t ! i)" "cmp key (he_key (uh_elements t ! i))"
      "he_value (uh_elements t ! i) = v"
    using slots_map_SomeD f by (fastforce simp: uh_map_def)
  then show ?thesis using find_present [of t] Some ok f by (simp add: find_value_def uh_ok_def)
qed

section \<open>Rehashing\<close>

lemma slots_map_set:
  assumes "slots_ok hash cmp els"
  shows "slots_map cmp els k = Some v \<longleftrightarrow> (\<exists>e\<in>set els. occupied e \<and> cmp k (he_key e) \<and> he_value e = v)"
proof
  assume "slots_map cmp els k = Some v"
  then show "\<exists>e\<in>set els. occupied e \<and> cmp k (he_key e) \<and> he_value e = v"
    using slots_map_SomeD [of cmp els k v] nth_mem by blast
next
  assume "\<exists>e\<in>set els. occupied e \<and> cmp k (he_key e) \<and> he_value e = v"
  then show "slots_map cmp els k = Some v"
    using slots_map_Some [OF assms] by (auto simp: in_set_conv_nth)
qed

text \<open>One step of the loop: an element whose key is new goes to a free slot.\<close>

lemma rehash_step:
  assumes ok: "slots_ok hash cmp (uh_elements t)" and c: "uh_keyComparator t = cmp"
    and cnt: "uh_count t = int (length (filter occupied (uh_elements t)))" "uh_count t < int (uh_length t)"
    and e: "slot_ok hash e" "occupied e" and key: "slots_map cmp (uh_elements t) (he_key e) = None"
  shows "\<exists>els. rehash_loop (e # es) t = rehash_loop es (t\<lparr>uh_elements := els, uh_count := uh_count t + 1\<rparr>) \<and>
    length els = uh_length t \<and> slots_ok hash cmp els \<and> uh_count t + 1 = int (length (filter occupied els)) \<and>
    (\<forall>k. slots_map cmp els k = (if cmp k (he_key e) then Some (he_value e) else slots_map cmp (uh_elements t) k))"
proof -
  have free: "\<exists>j<uh_length t. \<not> occupied (uh_elements t ! j)"
    using vacancy [of occupied "uh_elements t"] cnt by auto
  obtain i where i: "i < uh_length t" "uhash_find_slot t (he_key e) (he_hashcode e) = Some i"
      "he_hashcode (uh_elements t ! i) < 0" "reaches (uh_elements t) (positive_hash (he_hashcode e)) i"
    using find_absent [OF ok c free key, of "he_hashcode e"] by blast
  let ?els = "(uh_elements t)[i := e]"
  have reach: "reaches (uh_elements t) (nat (he_hashcode e)) i"
    using i(4) e by (simp add: slot_ok_def)
  have ok': "slots_ok hash cmp ?els"
    using ok i(1) e key reach by (intro slots_ok_update) (auto simp: slots_map_None)
  have "slots_map cmp ?els k = (if cmp k (he_key e) then Some (he_value e) else slots_map cmp (uh_elements t) k)" for k
    using slots_map_update [OF ok ok' i(1), of k] i(3) e(2) by auto
  moreover have "uh_count t + 1 = int (length (filter occupied ?els))"
    using filter_update_count [OF i(1), of occupied e] cnt(1) i(3) e(2) by simp
  moreover have "rehash_loop (e # es) t = rehash_loop es (t\<lparr>uh_elements := ?els, uh_count := uh_count t + 1\<rparr>)"
    using i(2) e(2) by (simp add: IS_EMPTY_OR_DELETED_def)
  ultimately show ?thesis using ok' by (intro exI [of _ ?els]) auto
qed

lemma rehash_loop_ok:
  assumes "slots_ok hash cmp (uh_elements t)" and "uh_keyComparator t = cmp"
    and "uh_count t = int (length (filter occupied (uh_elements t)))"
    and "\<forall>e\<in>set es. slot_ok hash e"
    and "sorted_wrt (\<lambda>e e'. \<not> (occupied e \<and> occupied e' \<and> cmp (he_key e) (he_key e'))) es"
    and "\<forall>e\<in>set es. occupied e \<longrightarrow> slots_map cmp (uh_elements t) (he_key e) = None"
    and "uh_count t + int (length (filter occupied es)) < int (uh_length t)"
  shows "\<exists>els'. rehash_loop es t =
      Some (t\<lparr>uh_elements := els', uh_count := uh_count t + int (length (filter occupied es))\<rparr>) \<and>
    length els' = uh_length t \<and> slots_ok hash cmp els' \<and>
    int (length (filter occupied els')) = uh_count t + int (length (filter occupied es)) \<and>
    (\<forall>k v. slots_map cmp els' k = Some v \<longleftrightarrow>
       slots_map cmp (uh_elements t) k = Some v \<or> (\<exists>e\<in>set es. occupied e \<and> cmp k (he_key e) \<and> he_value e = v))"
  using assms
proof (induction es arbitrary: t)
  case Nil
  then show ?case by (intro exI [of _ "uh_elements t"]) auto
next
  case (Cons e es)
  show ?case
  proof (cases "occupied e")
    case False
    then show ?thesis using Cons.IH [OF Cons.prems(1,2,3)] Cons.prems(4-7) by (auto simp: IS_EMPTY_OR_DELETED_def)
  next
    case occ: True
    have key: "slots_map cmp (uh_elements t) (he_key e) = None" and sl: "slot_ok hash e"
      using Cons.prems(4,6) occ by auto
    have "uh_count t < int (uh_length t)" using Cons.prems(7) by linarith
    then obtain els where step:
        "rehash_loop (e # es) t = rehash_loop es (t\<lparr>uh_elements := els, uh_count := uh_count t + 1\<rparr>)"
      and len: "length els = uh_length t" and ok: "slots_ok hash cmp els"
      and cnt: "uh_count t + 1 = int (length (filter occupied els))"
      and map: "\<And>k. slots_map cmp els k = (if cmp k (he_key e) then Some (he_value e) else slots_map cmp (uh_elements t) k)"
      using rehash_step [OF Cons.prems(1,2,3) _ sl occ key, of es] by auto
    let ?t = "t\<lparr>uh_elements := els, uh_count := uh_count t + 1\<rparr>"
    have "\<exists>els'. rehash_loop es ?t =
        Some (?t\<lparr>uh_elements := els', uh_count := uh_count ?t + int (length (filter occupied es))\<rparr>) \<and>
      length els' = uh_length ?t \<and> slots_ok hash cmp els' \<and>
      int (length (filter occupied els')) = uh_count ?t + int (length (filter occupied es)) \<and>
      (\<forall>k v. slots_map cmp els' k = Some v \<longleftrightarrow>
         slots_map cmp (uh_elements ?t) k = Some v \<or> (\<exists>e\<in>set es. occupied e \<and> cmp k (he_key e) \<and> he_value e = v))"
    proof (rule Cons.IH)
      show "uh_count ?t = int (length (filter occupied (uh_elements ?t)))" using cnt by simp
      show "\<forall>e'\<in>set es. occupied e' \<longrightarrow> slots_map cmp (uh_elements ?t) (he_key e') = None"
        using Cons.prems(5,6) occ cmp_sym by (auto simp: map)
    qed (use Cons.prems ok occ len in auto)
    then obtain els' where els': "rehash_loop es ?t =
        Some (?t\<lparr>uh_elements := els', uh_count := uh_count ?t + int (length (filter occupied es))\<rparr>)"
      "length els' = uh_length t" "slots_ok hash cmp els'"
      "int (length (filter occupied els')) = uh_count t + 1 + int (length (filter occupied es))"
      "\<And>k v. slots_map cmp els' k = Some v \<longleftrightarrow>
         slots_map cmp els k = Some v \<or> (\<exists>e\<in>set es. occupied e \<and> cmp k (he_key e) \<and> he_value e = v)"
      using len by auto
    have "slots_map cmp els' k = Some v \<longleftrightarrow>
       slots_map cmp (uh_elements t) k = Some v \<or> (\<exists>e'\<in>set (e # es). occupied e' \<and> cmp k (he_key e') \<and> he_value e' = v)" for k v
      unfolding els'(5) map using occ key slots_map_eq [of k "he_key e" "uh_elements t"] by auto
    then show ?thesis
      unfolding step using els' occ by (intro exI [of _ els']) (simp add: add.assoc)
  qed
qed

text \<open>More elements than slots: some search meets a full table and returns the null pointer.\<close>

lemma rehash_loop_overflow:
  assumes "slots_ok hash cmp (uh_elements t)" and "uh_keyComparator t = cmp"
    and "uh_count t = int (length (filter occupied (uh_elements t)))"
    and "\<forall>e\<in>set es. slot_ok hash e"
    and "sorted_wrt (\<lambda>e e'. \<not> (occupied e \<and> occupied e' \<and> cmp (he_key e) (he_key e'))) es"
    and "\<forall>e\<in>set es. occupied e \<longrightarrow> slots_map cmp (uh_elements t) (he_key e) = None"
    and "uh_count t + int (length (filter occupied es)) > int (uh_length t)"
  shows "rehash_loop es t = None"
  using assms
proof (induction es arbitrary: t)
  case Nil
  then show ?case using length_filter_le [of occupied "uh_elements t"] by simp
next
  case (Cons e es)
  consider "\<not> occupied e" | "occupied e" "uh_count t < int (uh_length t)" | "occupied e" "\<not> uh_count t < int (uh_length t)"
    by blast
  then show ?case
  proof cases
    case 1
    then show ?thesis using Cons.IH [OF Cons.prems(1,2,3)] Cons.prems(4-7) by (auto simp: IS_EMPTY_OR_DELETED_def)
  next
    case 2
    then obtain els where els:
        "rehash_loop (e # es) t = rehash_loop es (t\<lparr>uh_elements := els, uh_count := uh_count t + 1\<rparr>)"
        "length els = uh_length t" "slots_ok hash cmp els" "uh_count t + 1 = int (length (filter occupied els))"
        "\<And>k. slots_map cmp els k = (if cmp k (he_key e) then Some (he_value e) else slots_map cmp (uh_elements t) k)"
      using rehash_step [OF Cons.prems(1,2,3) 2(2) _ 2(1), of es] Cons.prems(4,6) by auto
    have "\<forall>e'\<in>set es. occupied e' \<longrightarrow> slots_map cmp els (he_key e') = None"
      using Cons.prems(5,6) 2(1) cmp_sym by (auto simp: els(5))
    then show ?thesis unfolding els(1) using els(2-4) Cons.prems(2,4,5,7) 2(1) by (intro Cons.IH) auto
  next
    case 3
    then have "length (filter occupied (uh_elements t)) = uh_length t"
      using Cons.prems(3) length_filter_le [of occupied "uh_elements t"] by simp
    then have "\<forall>j<uh_length t. occupied (uh_elements t ! j)"
      by (metis (no_types, lifting) filter_id_conv length_filter_less nat_neq_iff nth_mem)
    moreover have "slots_map cmp (uh_elements t) (he_key e) = None" using Cons.prems(6) 3 by simp
    ultimately have "uhash_find_slot t (he_key e) (he_hashcode e) = None"
      using Cons.prems(1,2) by (intro find_full) (auto simp: slots_ok_def slots_map_None)
    then show ?thesis using 3 by (simp add: IS_EMPTY_OR_DELETED_def)
  qed
qed

lemma elements_ready:
  assumes "slots_ok hash cmp els"
  shows "\<forall>e\<in>set (rev els). slot_ok hash e"
    and "sorted_wrt (\<lambda>e e'. \<not> (occupied e \<and> occupied e' \<and> cmp (he_key e) (he_key e'))) (rev els)"
    and "length (filter occupied (rev els)) = length (filter occupied els)"
proof -
  show "\<forall>e\<in>set (rev els). slot_ok hash e" using assms by (auto simp: slots_ok_def in_set_conv_nth)
  show "sorted_wrt (\<lambda>e e'. \<not> (occupied e \<and> occupied e' \<and> cmp (he_key e) (he_key e'))) (rev els)"
    unfolding sorted_wrt_rev unfolding sorted_wrt_iff_nth_less
    using slots_ok_distinct [OF assms] by (metis less_irrefl order.strict_trans)
  show "length (filter occupied (rev els)) = length (filter occupied els)" by (metis length_rev rev_filter)
qed

lemma rehash_into:
  assumes t: "uh_ok t" "uh_keyHasher t = hash" "uh_keyComparator t = cmp"
    and n: "prime_length n" "uh_count t < int n"
  shows "\<exists>els'. rehash_loop (rev (uh_elements t)) (t\<lparr>uh_primeIndex := pi, uh_elements := replicate n empty_slot,
        uh_count := 0, uh_lowWaterMark := lo, uh_highWaterMark := hi\<rparr>) =
      Some (t\<lparr>uh_elements := els', uh_primeIndex := pi, uh_lowWaterMark := lo, uh_highWaterMark := hi\<rparr>) \<and>
    length els' = n \<and> slots_ok hash cmp els' \<and>
    int (length (filter occupied els')) = uh_count t \<and> slots_map cmp els' = uh_map t"
proof -
  let ?t = "t\<lparr>uh_primeIndex := pi, uh_elements := replicate n empty_slot,
    uh_count := 0, uh_lowWaterMark := lo, uh_highWaterMark := hi\<rparr>"
  let ?old = "uh_elements t"
  have ok: "slots_ok hash cmp ?old" and cnt: "uh_count t = int (length (filter occupied ?old))"
    using t by (simp_all add: uh_ok_def)
  note ready = elements_ready [OF ok]
  have "\<exists>els'. rehash_loop (rev ?old) ?t =
      Some (?t\<lparr>uh_elements := els', uh_count := uh_count ?t + int (length (filter occupied (rev ?old)))\<rparr>) \<and>
    length els' = uh_length ?t \<and> slots_ok hash cmp els' \<and>
    int (length (filter occupied els')) = uh_count ?t + int (length (filter occupied (rev ?old))) \<and>
    (\<forall>k v. slots_map cmp els' k = Some v \<longleftrightarrow> slots_map cmp (uh_elements ?t) k = Some v \<or>
       (\<exists>e\<in>set (rev ?old). occupied e \<and> cmp k (he_key e) \<and> he_value e = v))"
    by (rule rehash_loop_ok) (use t n cnt ready in \<open>auto simp: replicate_ok replicate_map\<close>)
  then obtain els' where els': "rehash_loop (rev ?old) ?t =
      Some (?t\<lparr>uh_elements := els', uh_count := uh_count ?t + int (length (filter occupied (rev ?old)))\<rparr>)"
    "length els' = n" "slots_ok hash cmp els'"
    "int (length (filter occupied els')) = uh_count t"
    "\<And>k v. slots_map cmp els' k = Some v \<longleftrightarrow> (\<exists>e\<in>set ?old. occupied e \<and> cmp k (he_key e) \<and> he_value e = v)"
    using cnt ready(3) by (auto simp: replicate_map)
  have "slots_map cmp els' k = Some v \<longleftrightarrow> uh_map t k = Some v" for k v
    using els'(5) [of k v] slots_map_set [OF ok, of k v] t(3) by (simp add: uh_map_def)
  then have "slots_map cmp els' k = uh_map t k" for k by (metis not_Some_eq)
  then show ?thesis using els' cnt ready(3) by (intro exI [of _ els']) (auto simp: fun_eq_iff)
qed

lemma rehash_ok:
  assumes t: "uh_ok t" "uh_keyHasher t = hash" "uh_keyComparator t = cmp"
    and sync: "uh_synced t" "uh_primeIndex t < 15" and st: "U_SUCCESS status"
  shows "\<exists>t' status'. uhash_rehash alloc t status = Some (t', status') \<and> uh_ok t' \<and> uh_map t' = uh_map t \<and>
    uh_count t' = uh_count t \<and> uh_settings t' = uh_settings t \<and>
    uh_primeIndex t' \<le> uh_primeIndex t + of_bool (uh_count t > uh_highWaterMark t) \<and>
    ((\<forall>n. alloc n) \<longrightarrow> status' = status \<and> uh_synced t' \<and>
      (uh_count t > uh_highWaterMark t \<longrightarrow> uh_length t < uh_length t'))"
proof -
  let ?up = "uh_count t > uh_highWaterMark t" and ?down = "uh_count t < uh_lowWaterMark t"
  define pi where "pi = (if ?up then uh_primeIndex t + 1 else if ?down then uh_primeIndex t - 1 else uh_primeIndex t)"
  have idx: "0 \<le> uh_primeIndex t" using sync by (simp add: uh_synced_def)
  show ?thesis
  proof (cases "(\<not> ?up \<and> \<not> ?down) \<or> pi < 0 \<or> \<not> alloc (sizeof_UHashElement * int (PRIMES ! nat pi))")
    case True
    then show ?thesis
      using t sync st idx
      by (auto simp: uhash_rehash_def uhash_allocate_def Let_def pi_def uh_ok_def uh_map_def)
  next
    case False
    let ?n = "PRIMES ! nat pi"
    have pi: "0 \<le> pi" "pi < 16" using False sync by (auto simp: pi_def)
    have n: "prime_length ?n" using PRIMES_prime [of "nat pi"] pi by simp
    have len: "uh_length t = PRIMES ! nat (uh_primeIndex t)" "0 \<le> uh_primeIndex t" using sync by (simp_all add: uh_synced_def)
    have up: "uh_length t < ?n" if ?up
      using PRIMES_grow [of "nat (uh_primeIndex t)"] that sync len by (simp add: pi_def nat_add_distrib)
    have down: "uh_length t div 10 < ?n" if "\<not> ?up"
    proof -
      have "Suc (nat pi) = nat (uh_primeIndex t)" "nat pi < 27" using False that pi len by (auto simp: pi_def split: if_splits)
      then show ?thesis using PRIMES_grow [of "nat pi"] len(1) by simp
    qed
    have cnt: "uh_count t < int ?n"
    proof (cases ?up)
      case True
      then show ?thesis using up t(1) by (simp add: uh_ok_def)
    next
      case nup: False
      then have "uh_count t < lowWaterMark_of (uh_policy t) (uh_length t)" using False sync by (simp add: uh_synced_def)
      then have "uh_count t < int (uh_length t div 10)" using t(1)
        by (cases "uh_policy t") (auto simp: uh_ok_def zdiv_int)
      then show ?thesis using down [OF nup] by linarith
    qed
    obtain els' where els': "rehash_loop (rev (uh_elements t)) (t\<lparr>uh_primeIndex := pi, uh_elements := replicate ?n empty_slot,
          uh_count := 0, uh_lowWaterMark := lowWaterMark_of (uh_policy t) ?n,
          uh_highWaterMark := highWaterMark_of (uh_policy t) ?n\<rparr>) =
        Some (t\<lparr>uh_elements := els', uh_primeIndex := pi, uh_lowWaterMark := lowWaterMark_of (uh_policy t) ?n,
          uh_highWaterMark := highWaterMark_of (uh_policy t) ?n\<rparr>)"
      "length els' = ?n" "slots_ok hash cmp els'" "int (length (filter occupied els')) = uh_count t"
      "slots_map cmp els' = uh_map t"
      using rehash_into [OF t n cnt] by blast
    have "uhash_rehash alloc t status = Some (t\<lparr>uh_elements := els', uh_primeIndex := pi,
        uh_lowWaterMark := lowWaterMark_of (uh_policy t) ?n, uh_highWaterMark := highWaterMark_of (uh_policy t) ?n\<rparr>, status)"
      using False pi st els'(1) by (auto simp: uhash_rehash_def uhash_allocate_def Let_def simp flip: pi_def)
    then show ?thesis
      using els'(2-5) t cnt pi up by (auto simp: uh_ok_def uh_map_def uh_synced_def) (auto simp: pi_def)
  qed
qed

section \<open>Operations on the contents\<close>

lemma slot_for_key:
  assumes t: "uh_ok t" "uh_keyHasher t = hash" "uh_keyComparator t = cmp"
  shows "\<exists>i<uh_length t. uhash_find_slot t key (hash key) = Some i \<and>
    occupied (uh_elements t ! i) = (uh_map t key \<noteq> None) \<and>
    reaches (uh_elements t) (positive_hash (hash key)) i \<and>
    he_value (uh_elements t ! i) = (case uh_map t key of Some v \<Rightarrow> v | None \<Rightarrow> Null) \<and>
    (occupied (uh_elements t ! i) \<longrightarrow> cmp key (he_key (uh_elements t ! i)))"
proof (cases "uh_map t key")
  case None
  have ok: "slots_ok hash cmp (uh_elements t)" "\<exists>j<uh_length t. \<not> occupied (uh_elements t ! j)"
    using t vacancy [of occupied "uh_elements t"] by (auto simp: uh_ok_def)
  obtain i where i: "i < uh_length t" "uhash_find_slot t key (hash key) = Some i"
      "he_hashcode (uh_elements t ! i) < 0" "reaches (uh_elements t) (positive_hash (hash key)) i"
    using find_absent [OF ok(1) t(3) ok(2), of key] None t(3) by (auto simp: uh_map_def)
  moreover have "he_value (uh_elements t ! i) = Null"
    using ok(1) i(1,3) by (auto simp: slots_ok_def slot_ok_def)
  ultimately show ?thesis using None by auto
next
  case (Some v)
  have ok: "slots_ok hash cmp (uh_elements t)" using t by (simp add: uh_ok_def)
  obtain i where i: "i < uh_length t" "occupied (uh_elements t ! i)" "cmp key (he_key (uh_elements t ! i))"
      "he_value (uh_elements t ! i) = v"
    using slots_map_SomeD Some t(3) by (fastforce simp: uh_map_def)
  have "he_hashcode (uh_elements t ! i) = int (positive_hash (hash key))"
    using ok i(1,2) cmp_hash [OF i(3)] by (auto simp: slots_ok_def slot_ok_def)
  then have "reaches (uh_elements t) (positive_hash (hash key)) i"
    using ok i(1,2) by (auto simp: slots_ok_def)
  then show ?thesis using i Some find_present [OF ok t(3) i(1-3)] by auto
qed

lemma remove_slot:
  assumes t: "uh_ok t" "uh_keyHasher t = hash" "uh_keyComparator t = cmp" and v: "uh_map t key = Some v"
  shows "\<exists>r t'. (\<forall>alloc. uhash_remove_key alloc t key =
      (if uh_count t' < uh_lowWaterMark t'
       then map_option (\<lambda>(t, status). (r, t)) (uhash_rehash alloc t' U_ZERO_ERROR) else Some (r, t'))) \<and>
    uh_ok t' \<and> uh_settings t' = uh_settings t \<and> uh_primeIndex t' = uh_primeIndex t \<and>
    uh_highWaterMark t' = uh_highWaterMark t \<and> uh_lowWaterMark t' = uh_lowWaterMark t \<and>
    uh_length t' = uh_length t \<and> uh_count t' = uh_count t - 1 \<and>
    (\<forall>k. uh_map t' k = (if cmp k key then None else uh_map t k)) \<and> (\<not> uh_valueDeleter t \<longrightarrow> r = v)"
proof -
  have ok: "slots_ok hash cmp (uh_elements t)" using t by (simp add: uh_ok_def)
  obtain i where i: "i < uh_length t" "occupied (uh_elements t ! i)" "cmp key (he_key (uh_elements t ! i))"
      "he_value (uh_elements t ! i) = v"
    using slots_map_SomeD v t(3) by (fastforce simp: uh_map_def)
  obtain r t1 where rem: "uhash_internalRemoveElement t i = (r, t1)" by fastforce
  note fields = setElement_fields [OF rem [unfolded uhash_internalRemoveElement_def]]
  let ?e = "\<lparr>he_hashcode = HASH_DELETED, he_value = Null, he_key = Null\<rparr>"
  have els: "uh_elements t1 = (uh_elements t)[i := ?e]" using fields(1) by simp
  have ok1: "slots_ok hash cmp (uh_elements t1)"
    unfolding els using ok i(1) by (intro slots_ok_update) (auto simp: slot_ok_def)
  have t1: "uh_ok t1" "uh_keyHasher t1 = hash" "uh_keyComparator t1 = cmp"
    using ok1 fields(2,3) t filter_update_count [OF i(1), of occupied ?e] i(2)
    unfolding uh_ok_def els by auto
  have "uh_map t1 k = (if cmp k key then None else uh_map t k)" for k
  proof -
    have "cmp k (he_key (uh_elements t ! i)) = cmp k key" using i(3) cmp_sym cmp_trans by blast
    then show ?thesis
      using slots_map_update [OF ok, of i ?e k] ok1 i(1,2) t(3) t1(3) by (simp add: uh_map_def els)
  qed
  moreover have "\<not> uh_valueDeleter t \<longrightarrow> r = v" using fields(7) i(4) by auto
  moreover have "uhash_find_slot t key (uh_keyHasher t key) = Some i" using find_present [OF ok t(3) i(1-3)] t(2) by simp
  then have "\<forall>alloc. uhash_remove_key alloc t key =
      (if uh_count t1 < uh_lowWaterMark t1
       then map_option (\<lambda>(t, status). (r, t)) (uhash_rehash alloc t1 U_ZERO_ERROR) else Some (r, t1))"
    using rem i(2) by (simp add: uhash_remove_key_def IS_EMPTY_OR_DELETED_def)
  ultimately show ?thesis using t1 fields(2-6) els by (intro exI [of _ r] exI [of _ t1]) auto
qed

text \<open>
  A removal that should shrink the table but cannot allocate the smaller array leaves the table as it was, with
  a smaller prime index; a later shrink that succeeds then chooses an array that may be too small.
\<close>

lemma remove_unallocated:
  assumes t: "uh_ok t" "uh_keyHasher t = hash" "uh_keyComparator t = cmp" and key: "uh_map t key \<noteq> None"
    and marks: "uh_count t - 1 < uh_lowWaterMark t" "\<not> uh_count t - 1 > uh_highWaterMark t"
    and pi: "0 < uh_primeIndex t" "uh_primeIndex t < 28"
    and a: "\<not> alloc (sizeof_UHashElement * int (PRIMES ! nat (uh_primeIndex t - 1)))"
  shows "\<exists>r t'. uhash_remove_key alloc t key = Some (r, t') \<and> uh_ok t' \<and> uh_settings t' = uh_settings t \<and>
    uh_primeIndex t' = uh_primeIndex t - 1 \<and> uh_count t' = uh_count t - 1 \<and> uh_length t' = uh_length t \<and>
    uh_highWaterMark t' = uh_highWaterMark t \<and> uh_lowWaterMark t' = uh_lowWaterMark t \<and>
    (\<forall>k. uh_map t' k = (if cmp k key then None else uh_map t k))"
proof -
  obtain v where v: "uh_map t key = Some v" using key by auto
  obtain r t1 where rem: "uhash_remove_key alloc t key =
      (if uh_count t1 < uh_lowWaterMark t1
       then map_option (\<lambda>(t, status). (r, t)) (uhash_rehash alloc t1 U_ZERO_ERROR) else Some (r, t1))"
    and t1: "uh_ok t1" "uh_settings t1 = uh_settings t" "uh_primeIndex t1 = uh_primeIndex t"
      "uh_highWaterMark t1 = uh_highWaterMark t" "uh_lowWaterMark t1 = uh_lowWaterMark t"
      "uh_length t1 = uh_length t" "uh_count t1 = uh_count t - 1"
      "\<And>k. uh_map t1 k = (if cmp k key then None else uh_map t k)"
    using remove_slot [OF t v] by metis
  have "uhash_remove_key alloc t key = Some (r, t1\<lparr>uh_primeIndex := uh_primeIndex t - 1\<rparr>)"
    unfolding rem using marks pi a t1 by (simp add: uhash_rehash_def uhash_allocate_def Let_def)
  then show ?thesis using t1 by (auto simp: uh_ok_def uh_map_def)
qed

lemma remove_overflow:
  assumes t: "uh_ok t" "uh_keyHasher t = hash" "uh_keyComparator t = cmp" and key: "uh_map t key \<noteq> None"
    and marks: "uh_count t - 1 < uh_lowWaterMark t" "\<not> uh_count t - 1 > uh_highWaterMark t"
    and pi: "0 < uh_primeIndex t" "uh_primeIndex t < 16"
    and a: "alloc (sizeof_UHashElement * int (PRIMES ! nat (uh_primeIndex t - 1)))"
    and small: "int (PRIMES ! nat (uh_primeIndex t - 1)) < uh_count t - 1"
  shows "uhash_remove_key alloc t key = None"
proof -
  let ?pi = "uh_primeIndex t - 1" let ?n = "PRIMES ! nat ?pi"
  obtain v where v: "uh_map t key = Some v" using key by auto
  obtain r t1 where rem: "uhash_remove_key alloc t key =
      (if uh_count t1 < uh_lowWaterMark t1
       then map_option (\<lambda>(t, status). (r, t)) (uhash_rehash alloc t1 U_ZERO_ERROR) else Some (r, t1))"
    and t1: "uh_ok t1" "uh_settings t1 = uh_settings t" "uh_primeIndex t1 = uh_primeIndex t"
      "uh_highWaterMark t1 = uh_highWaterMark t" "uh_lowWaterMark t1 = uh_lowWaterMark t"
      "uh_count t1 = uh_count t - 1"
    using remove_slot [OF t v] by metis
  have ok1: "slots_ok hash cmp (uh_elements t1)" using t1 t by (simp add: uh_ok_def)
  note ready = elements_ready [OF ok1]
  let ?t = "t1\<lparr>uh_primeIndex := ?pi, uh_elements := replicate ?n empty_slot, uh_count := 0,
    uh_lowWaterMark := lowWaterMark_of (uh_policy t1) ?n, uh_highWaterMark := highWaterMark_of (uh_policy t1) ?n\<rparr>"
  have "prime_length ?n" using PRIMES_prime [of "nat ?pi"] pi by simp
  then have "rehash_loop (rev (uh_elements t1)) ?t = None"
    using t t1 small ready by (intro rehash_loop_overflow) (auto simp: replicate_ok replicate_map uh_ok_def)
  then have "uhash_rehash alloc t1 U_ZERO_ERROR = None"
    using marks pi a t1 by (simp add: uhash_rehash_def uhash_allocate_def Let_def)
  then show ?thesis using rem marks t1 by simp
qed

lemma remove_ok:
  assumes t: "uh_ok t" "uh_keyHasher t = hash" "uh_keyComparator t = cmp"
    and sync: "uh_synced t" "uh_primeIndex t < 15"
  shows "\<exists>r t'. uhash_remove_key alloc t key = Some (r, t') \<and> uh_ok t' \<and> uh_settings t' = uh_settings t \<and>
    (\<forall>k. uh_map t' k = (if cmp k key then None else uh_map t k)) \<and>
    (\<not> uh_valueDeleter t \<longrightarrow> r = (case uh_map t key of Some v \<Rightarrow> v | None \<Rightarrow> Null)) \<and>
    uh_count t' \<le> uh_count t \<and>
    uh_primeIndex t' \<le> uh_primeIndex t + of_bool (uh_count t > uh_highWaterMark t) \<and>
    ((\<forall>n. alloc n) \<longrightarrow> uh_synced t')"
proof (cases "uh_map t key")
  case None
  obtain i where i: "uhash_find_slot t key (hash key) = Some i" "\<not> occupied (uh_elements t ! i)"
    using slot_for_key [OF t, of key] None by blast
  moreover have "uh_map t k = None" if "cmp k key" for k
    using slots_map_eq [OF that, of "uh_elements t"] None t(3) by (simp add: uh_map_def)
  ultimately show ?thesis using t None sync(1) by (auto simp: uhash_remove_key_def IS_EMPTY_OR_DELETED_def)
next
  case (Some v)
  obtain r t1 where rem: "uhash_remove_key alloc t key =
      (if uh_count t1 < uh_lowWaterMark t1
       then map_option (\<lambda>(t, status). (r, t)) (uhash_rehash alloc t1 U_ZERO_ERROR) else Some (r, t1))"
    and t1: "uh_ok t1" "uh_settings t1 = uh_settings t" "uh_primeIndex t1 = uh_primeIndex t"
      "uh_highWaterMark t1 = uh_highWaterMark t" "uh_lowWaterMark t1 = uh_lowWaterMark t"
      "uh_length t1 = uh_length t" "uh_count t1 = uh_count t - 1"
      "\<And>k. uh_map t1 k = (if cmp k key then None else uh_map t k)" "\<not> uh_valueDeleter t \<longrightarrow> r = v"
    using remove_slot [OF t Some] by metis
  have sync1: "uh_synced t1" "uh_primeIndex t1 < 15" using sync t1 by (auto simp: uh_synced_def)
  show ?thesis
  proof (cases "uh_count t1 < uh_lowWaterMark t1")
    case False
    then show ?thesis using rem t1 sync1 Some by simp
  next
    case True
    obtain t' status' where t': "uhash_rehash alloc t1 U_ZERO_ERROR = Some (t', status')" "uh_ok t'" "uh_map t' = uh_map t1"
        "uh_settings t' = uh_settings t1" "(\<forall>n. alloc n) \<longrightarrow> uh_synced t'"
        "uh_count t' = uh_count t1" "uh_primeIndex t' \<le> uh_primeIndex t1 + of_bool (uh_count t1 > uh_highWaterMark t1)"
      using rehash_ok [OF t1(1) _ _ sync1, of U_ZERO_ERROR alloc] t(2,3) t1(2) by auto
    have "uh_primeIndex t' \<le> uh_primeIndex t + of_bool (uh_count t > uh_highWaterMark t)"
      using t'(7) t1 by (cases "uh_count t1 > uh_highWaterMark t1") auto
    then show ?thesis using True rem t' t1 Some by simp
  qed
qed

lemma store_ok:
  assumes t: "uh_ok t" "uh_keyHasher t = hash" "uh_keyComparator t = cmp"
    and i: "i < uh_length t" "occupied (uh_elements t ! i) = (uh_map t key \<noteq> None)"
      "reaches (uh_elements t) (positive_hash (hash key)) i"
      "occupied (uh_elements t ! i) \<longrightarrow> cmp key (he_key (uh_elements t ! i))"
    and room: "uh_map t key = None \<Longrightarrow> uh_count t + 1 < int (uh_length t)"
    and set: "uhash_setElement (if uh_map t key = None then t\<lparr>uh_count := uh_count t + 1\<rparr> else t) i
      (int (positive_hash (hash key))) key value = (r, t')"
  shows "uh_ok t' \<and> (\<forall>k. uh_map t' k = (if cmp k key then Some value else uh_map t k))"
proof -
  note fields = setElement_fields [OF set]
  let ?e = "\<lparr>he_hashcode = int (positive_hash (hash key)), he_value = value, he_key = key\<rparr>"
  have els: "uh_elements t' = (uh_elements t)[i := ?e]" using fields(1) by (simp split: if_splits)
  have ok: "slots_ok hash cmp (uh_elements t)" using t by (simp add: uh_ok_def)
  have others: "\<not> cmp key (he_key (uh_elements t ! j))" if j: "j < uh_length t" "j \<noteq> i" "occupied (uh_elements t ! j)" for j
  proof
    assume c: "cmp key (he_key (uh_elements t ! j))"
    then have "uh_map t key \<noteq> None" using j t(3) by (auto simp: uh_map_def slots_map_None)
    then have "cmp (he_key (uh_elements t ! i)) (he_key (uh_elements t ! j))" "occupied (uh_elements t ! i)"
      using i(2,4) c cmp_sym cmp_trans by blast+
    then show False using slots_ok_distinct [OF ok i(1) j(1)] j by blast
  qed
  have ok': "slots_ok hash cmp (uh_elements t')"
    unfolding els using ok i(1,3) others by (intro slots_ok_update) (auto simp: slot_ok_def)
  have "uh_count t' = int (length (filter occupied (uh_elements t')))" "uh_count t' < int (uh_length t')"
    using filter_update_count [OF i(1), of occupied ?e] t(1) i(2) room fields(2)
    unfolding els uh_ok_def by (auto split: if_splits)
  then have "uh_ok t'" using ok' fields(3) t(2,3) by (simp add: uh_ok_def split: if_splits)
  moreover have "uh_map t' k = (if cmp k key then Some value else uh_map t k)" for k
  proof -
    have *: "uh_map t' k = slots_map cmp (uh_elements t') k" "uh_map t k = slots_map cmp (uh_elements t) k"
      using fields(3) t(3) by (simp_all add: uh_map_def split: if_splits)
    have "cmp k key" if "occupied (uh_elements t ! i)" "cmp k (he_key (uh_elements t ! i))"
      using that i(4) cmp_sym cmp_trans by blast
    then show ?thesis
      unfolding * els using slots_map_update [OF ok ok' [unfolded els] i(1), of k] by auto
  qed
  ultimately show ?thesis by blast
qed

lemma put_store_ok:
  assumes t: "uh_ok t" "uh_keyHasher t = hash" "uh_keyComparator t = cmp"
  shows "\<exists>r t' status'. put_store t key value status = Some (r, t', status') \<and>
    uh_ok t' \<and> uh_settings t' = uh_settings t \<and> (uh_synced t \<longrightarrow> uh_synced t') \<and>
    uh_count t' \<le> uh_count t + 1 \<and> uh_primeIndex t' = uh_primeIndex t \<and>
    (status' = U_MEMORY_ALLOCATION_ERROR \<and> uh_map t key = None \<and> uh_count t + 1 = int (uh_length t) \<and> uh_map t' = uh_map t \<or>
     status' = status \<and> (\<forall>k. uh_map t' k = (if cmp k key then Some value else uh_map t k)) \<and>
     (\<not> uh_valueDeleter t \<longrightarrow> r = (case uh_map t key of Some v \<Rightarrow> v | None \<Rightarrow> Null)))"
proof -
  obtain i where i: "i < uh_length t" "uhash_find_slot t key (hash key) = Some i"
      "occupied (uh_elements t ! i) = (uh_map t key \<noteq> None)" "reaches (uh_elements t) (positive_hash (hash key)) i"
      "he_value (uh_elements t ! i) = (case uh_map t key of Some v \<Rightarrow> v | None \<Rightarrow> Null)"
      "occupied (uh_elements t ! i) \<longrightarrow> cmp key (he_key (uh_elements t ! i))"
    using slot_for_key [OF t, of key] by blast
  have fresh: "IS_EMPTY_OR_DELETED (he_hashcode (uh_elements t ! i)) = (uh_map t key = None)"
    using i(3) by (auto simp: IS_EMPTY_OR_DELETED_def)
  show ?thesis
  proof (cases "uh_map t key = None \<and> uh_count t + 1 = int (uh_length t)")
    case True
    then show ?thesis using i(2) t by (simp add: put_store_def fresh)
  next
    case False
    let ?t = "if uh_map t key = None then t\<lparr>uh_count := uh_count t + 1\<rparr> else t"
    obtain r t' where upd: "uhash_setElement ?t i (int (positive_hash (hash key))) key value = (r, t')" by fastforce
    note fields = setElement_fields [OF upd]
    have "put_store t key value status = Some (r, t', status)"
      using False i(2) t(2) upd by (auto simp: put_store_def fresh)
    moreover have "uh_map t key = None \<Longrightarrow> uh_count t + 1 < int (uh_length t)"
      using False t(1) by (auto simp: uh_ok_def)
    note store_ok [OF t i(1,3,4,6) this upd]
    moreover have "uh_settings t' = uh_settings t" "uh_count t' \<le> uh_count t + 1" "uh_primeIndex t' = uh_primeIndex t"
      using fields(2,3,4) by (simp_all split: if_splits)
    moreover have "uh_synced t \<longrightarrow> uh_synced t'" using fields by (auto simp: uh_synced_def split: if_splits)
    moreover have "\<not> uh_valueDeleter t \<longrightarrow> r = (case uh_map t key of Some v \<Rightarrow> v | None \<Rightarrow> Null)"
      using fields(7) i(5) by (auto split: if_splits)
    ultimately show ?thesis by blast
  qed
qed

lemma put_ok:
  assumes t: "uh_ok t" "uh_keyHasher t = hash" "uh_keyComparator t = cmp"
    and sync: "uh_synced t" "uh_primeIndex t < 15"
    and vp: "\<not> (valuePointer \<and> as_pointer value = None)" and st: "U_SUCCESS status"
  shows "\<exists>r t' status'. uhash_put_key alloc t key value valuePointer status = Some (r, t', status') \<and>
    uh_ok t' \<and> uh_settings t' = uh_settings t \<and>
    (\<forall>k. uh_map t' k = (if U_SUCCESS status' \<and> cmp k key then Some value else uh_map t k)) \<and>
    (U_SUCCESS status' \<and> \<not> uh_valueDeleter t \<longrightarrow> r = (case uh_map t key of Some v \<Rightarrow> v | None \<Rightarrow> Null)) \<and>
    uh_count t' \<le> uh_count t + 1 \<and>
    uh_primeIndex t' \<le> uh_primeIndex t + of_bool (uh_count t > uh_highWaterMark t) \<and>
    ((\<forall>n. alloc n) \<longrightarrow> uh_synced t' \<and> (uh_policy t \<noteq> U_FIXED \<longrightarrow> status' = status))"
proof -
  obtain t1 st1 where t1: "(if uh_count t > uh_highWaterMark t then uhash_rehash alloc t status else Some (t, status)) = Some (t1, st1)"
      "uh_ok t1" "uh_map t1 = uh_map t" "uh_settings t1 = uh_settings t" "uh_count t1 = uh_count t"
      "(\<forall>n. alloc n) \<longrightarrow> st1 = status \<and> uh_synced t1 \<and> (uh_count t > uh_highWaterMark t \<longrightarrow> uh_length t < uh_length t1)"
      "\<not> uh_count t > uh_highWaterMark t \<Longrightarrow> t1 = t \<and> st1 = status"
      "uh_primeIndex t1 \<le> uh_primeIndex t + of_bool (uh_count t > uh_highWaterMark t)"
    using rehash_ok [OF t sync st, of alloc] t sync by (cases "uh_count t > uh_highWaterMark t") auto
  have put: "uhash_put_key alloc t key value valuePointer status =
      (if U_FAILURE st1 then Some (Null, HASH_DELETE_KEY_VALUE t1 key value, st1) else put_store t1 key value st1)"
    using put_key_store [OF st vp] t1(1) by simp
  show ?thesis
  proof (cases "U_FAILURE st1")
    case True
    then have "\<not> (\<forall>n. alloc n)" using t1(6) st by auto
    then show ?thesis using True put t1(2-5,8) by auto
  next
    case False
    have room: "uh_count t1 + 1 \<noteq> int (uh_length t1)" if "\<forall>n. alloc n" "uh_policy t \<noteq> U_FIXED"
    proof (cases "uh_count t > uh_highWaterMark t")
      case True
      then show ?thesis using t1(5,6) that t(1) by (simp add: uh_ok_def)
    next
      case le: False
      have "uh_highWaterMark t = int (uh_length t) div 2" using sync that by (cases "uh_policy t") (auto simp: uh_synced_def)
      moreover have "2 < uh_length t" using t(1) by (simp add: uh_ok_def slots_ok_def prime_length_def)
      ultimately have "uh_count t + 1 < int (uh_length t)" using le by linarith
      then show ?thesis using t1(7) [OF le] by simp
    qed
    have t1': "uh_keyHasher t1 = hash" "uh_keyComparator t1 = cmp" using t1(4) t by simp_all
    obtain r t' status' where t': "put_store t1 key value st1 = Some (r, t', status')"
      "uh_ok t'" "uh_settings t' = uh_settings t1" "uh_synced t1 \<longrightarrow> uh_synced t'"
      "uh_count t' \<le> uh_count t1 + 1" "uh_primeIndex t' = uh_primeIndex t1"
      "status' = U_MEMORY_ALLOCATION_ERROR \<and> uh_map t1 key = None \<and> uh_count t1 + 1 = int (uh_length t1) \<and> uh_map t' = uh_map t1 \<or>
       status' = st1 \<and> (\<forall>k. uh_map t' k = (if cmp k key then Some value else uh_map t1 k)) \<and>
       (\<not> uh_valueDeleter t1 \<longrightarrow> r = (case uh_map t1 key of Some v \<Rightarrow> v | None \<Rightarrow> Null))"
      using put_store_ok [OF t1(2) t1', of key "value" st1] by blast
    then show ?thesis using put False t1(3-6,8) room by auto
  qed
qed

end

end
