(* ===== verification/UHashMap.thy ===== *)
theory UHashMap
  imports UHashProps
begin

unbundle bit_operations_syntax

text \<open>
  The hash table of \<open>common/uhash.c\<close> as a map: the hash functions and comparators of the source meet the key
  contract, insertion, removal and lookup refine a partial map, sequences of operations simulate one, and the
  behaviour of shrinking after refused allocations and of \<open>uhash_equals\<close>.
\<close>

section \<open>The key functions meet the contract\<close>

interpretation long_keys: key_contract uhash_hashLong uhash_compareLong
  by unfold_locales (auto simp: uhash_hashLong_def uhash_compareLong_def)

lemma compare_units_eq:
  assumes "\<forall>x. (f x = 0) = (x = 0)"
  shows "compare_units f xs ys \<longleftrightarrow> map f (c_str xs) = map f (c_str ys)"
  using assms
proof (induction f xs ys rule: compare_units.induct)
  case (3 f x xs)
  have "f x = f 0 \<longleftrightarrow> x = 0" using "3.prems" by metis
  then show ?case by simp
next
  case (4 f x xs y ys)
  have fx: "f x = 0 \<longleftrightarrow> x = 0" and fy: "f y = 0 \<longleftrightarrow> y = 0" using "4.prems" by blast+
  show ?case
  proof (cases "x \<noteq> 0 \<and> f x = f y")
    case True
    then have "y \<noteq> 0" using fx fy by simp
    then show ?thesis using "4.IH" [OF True "4.prems"] True by simp
  next
    case False
    then have "x = 0 \<or> f x \<noteq> f y" by blast
    then show ?thesis
    proof
      assume "f x \<noteq> f y"
      then have "x \<noteq> y" "x = 0 \<longrightarrow> y \<noteq> 0" by auto
      then show ?thesis using \<open>f x \<noteq> f y\<close> by simp
    qed simp
  qed
qed auto

lemma compare_pointers_iff:
  assumes "\<forall>x. (f x = 0) = (x = 0)"
  shows "compare_pointers f mem k1 k2 \<longleftrightarrow>
    map_option (\<lambda>p. map f (c_str (mem p))) (as_pointer k1) = map_option (\<lambda>p. map f (c_str (mem p))) (as_pointer k2)"
  using compare_units_eq [OF assms] by (auto simp: compare_pointers_def split: option.splits)

lemma STRING_HASH_map: "STRING_HASH (\<lambda>c. g (f c)) str = STRING_HASH g (map f str)"
  by (simp add: STRING_HASH_def comp_def)

lemma compare_pointers_contract:
  assumes f: "\<forall>x. (f x = 0) = (x = 0)"
    and h: "\<And>k. hash k = (case map_option (\<lambda>p. map f (c_str (mem p))) (as_pointer k) of None \<Rightarrow> 0 | Some s \<Rightarrow> STRING_HASH g s)"
  shows "key_contract hash (compare_pointers f mem)"
  by unfold_locales (simp_all add: compare_pointers_iff [OF f] h)

lemma lower_zero: "\<forall>x. (uprv_asciitolower x = 0) = (x = 0)"
  by (auto simp: uprv_asciitolower_def)

interpretation uchar_keys: key_contract "uhash_hashUChars mem" "uhash_compareUChars mem" for mem
  unfolding uhash_compareUChars_def
  by (rule compare_pointers_contract [where g = "\<lambda>c. c"])
    (auto simp: uhash_hashUChars_def ustr_hashUCharsN_def split: option.split)

interpretation char_keys: key_contract "uhash_hashChars mem" "uhash_compareChars mem" for mem
  unfolding uhash_compareChars_def
  by (rule compare_pointers_contract [where g = "\<lambda>c. c mod 256"])
    (auto simp: uhash_hashChars_def ustr_hashCharsN_def split: option.split)

interpretation ichar_keys: key_contract "uhash_hashIChars mem" "uhash_compareIChars mem" for mem
  unfolding uhash_compareIChars_def
  by (rule compare_pointers_contract [where g = "\<lambda>c. c mod 256"])
    (auto simp: uhash_hashIChars_def ustr_hashICharsN_def lower_zero
      STRING_HASH_map [of "\<lambda>c. c mod 256" uprv_asciitolower] split: option.split)

section \<open>Properties\<close>

text \<open>
  C16. A table whose hash function and comparator meet the contract is a map: \<open>_uhash_put\<close> returns, keeps
  the invariant, binds the key (and the keys equal to it) when the status stays successful and changes nothing
  otherwise, and returns the old value when the table does not own its values.  When no allocation fails the
  table stays in step with its prime index and only a table of fixed size can refuse a key.
\<close>

theorem put_refines_map:
  assumes "key_contract (uh_keyHasher t) (uh_keyComparator t)"
    and "uh_ok t" and "uh_synced t" and "uh_primeIndex t < 15"
    and "\<not> (valuePointer \<and> as_pointer value = None)" and "U_SUCCESS status"
  shows "\<exists>r t' status'. uhash_put_key alloc t key value valuePointer status = Some (r, t', status') \<and>
    uh_ok t' \<and>
    (\<forall>k. uh_map t' k = (if U_SUCCESS status' \<and> uh_keyComparator t k key then Some value else uh_map t k)) \<and>
    (U_SUCCESS status' \<and> \<not> uh_valueDeleter t \<longrightarrow> r = (case uh_map t key of Some v \<Rightarrow> v | None \<Rightarrow> Null)) \<and>
    ((\<forall>n. alloc n) \<longrightarrow> uh_synced t' \<and> (uh_policy t \<noteq> U_FIXED \<longrightarrow> status' = status))"
  using key_contract.put_ok [OF assms(1,2) refl refl assms(3-6), of alloc key] by blast

text \<open>
  C17. \<open>_uhash_remove\<close> unbinds the key, keeps the invariant even when the table shrinks or the smaller
  array cannot be allocated, and the lookup behind every \<open>uhash_get\<close> returns the value bound to a key or the
  null token.
\<close>

theorem remove_get_refine_map:
  assumes "key_contract (uh_keyHasher t) (uh_keyComparator t)"
    and "uh_ok t" and "uh_synced t" and "uh_primeIndex t < 15"
  shows "find_value t k = Some (case uh_map t k of Some v \<Rightarrow> v | None \<Rightarrow> Null) \<and>
    (\<exists>r t'. uhash_remove_key alloc t key = Some (r, t') \<and> uh_ok t' \<and>
      uh_map t' = (\<lambda>k. if uh_keyComparator t k key then None else uh_map t k) \<and>
      (\<not> uh_valueDeleter t \<longrightarrow> r = (case uh_map t key of Some v \<Rightarrow> v | None \<Rightarrow> Null)))"
  using key_contract.remove_ok [OF assms(1,2) refl refl assms(3,4), of alloc key]
    key_contract.find_value_map [OF assms(1,2) refl refl, of k] by (auto simp: fun_eq_iff)

section \<open>Sequences of operations on integer keys\<close>

datatype uh_op = Put int int | Remove int

fun uh_exec :: "allocator \<Rightarrow> uh_op \<Rightarrow> 'p UHashtable \<Rightarrow> 'p UHashtable option" where
  "uh_exec alloc (Put k v) t = map_option (\<lambda>(r, t, status). t) (uhash_iputi alloc t k v U_ZERO_ERROR)"
| "uh_exec alloc (Remove k) t = map_option snd (uhash_iremovei alloc t k)"

fun uh_run :: "allocator \<Rightarrow> uh_op list \<Rightarrow> 'p UHashtable \<Rightarrow> 'p UHashtable option" where
  "uh_run alloc [] t = Some t"
| "uh_run alloc (op # ops) t = Option.bind (uh_exec alloc op t) (uh_run alloc ops)"

fun map_exec :: "uh_op \<Rightarrow> (int \<rightharpoonup> int) \<Rightarrow> (int \<rightharpoonup> int)" where
  "map_exec (Put k v) m = m(k \<mapsto> v)"
| "map_exec (Remove k) m = m(k := None)"

definition represents :: "'p UHashtable \<Rightarrow> (int \<rightharpoonup> int) \<Rightarrow> bool" where
  "represents t m \<longleftrightarrow> uh_ok t \<and> uh_synced t \<and> uh_primeIndex t < 15 \<and>
     uh_keyHasher t = uhash_hashLong \<and> uh_keyComparator t = uhash_compareLong \<and> uh_policy t = U_GROW \<and>
     (\<forall>k. uh_map t (Integer k) = map_option Integer (m k))"

lemma prime_index_stays:
  assumes "uh_synced t" and "uh_primeIndex t < 15" and "uh_policy t = U_GROW" and "uh_count t \<le> 131069"
    and "i \<le> uh_primeIndex t + of_bool (uh_count t > uh_highWaterMark t)"
  shows "i < 15"
proof (cases "uh_primeIndex t = 14")
  case True
  then have "uh_highWaterMark t = 131069" using assms by (simp add: uh_synced_def PRIMES_def)
  then show ?thesis using assms True by simp
next
  case False
  then show ?thesis using assms(2,5) by (cases "uh_count t > uh_highWaterMark t") auto
qed

lemma uh_exec_represents:
  assumes r: "represents t m" and c: "uh_count t \<le> 131069" and a: "\<forall>n. alloc n"
  shows "\<exists>t'. uh_exec alloc op t = Some t' \<and> represents t' (map_exec op m) \<and> uh_count t' \<le> uh_count t + 1"
proof (cases op)
  case (Put k v)
  obtain r t' where "uhash_put_key alloc t (Integer k) (Integer v) False U_ZERO_ERROR = Some (r, t', U_ZERO_ERROR)"
      "uh_ok t'" "uh_settings t' = uh_settings t" "uh_synced t'" "uh_count t' \<le> uh_count t + 1"
      "\<forall>k'. uh_map t' k' = (if uhash_compareLong k' (Integer k) then Some (Integer v) else uh_map t k')"
      "uh_primeIndex t' \<le> uh_primeIndex t + of_bool (uh_count t > uh_highWaterMark t)"
    using long_keys.put_ok [of t False "Integer v" U_ZERO_ERROR alloc "Integer k"] r a
    by (auto simp: represents_def)
  then show ?thesis
    using prime_index_stays [of t "uh_primeIndex t'"] r c
    by (auto simp: Put uhash_iputi_def represents_def uhash_compareLong_def)
next
  case (Remove k)
  obtain r t' where "uhash_remove_key alloc t (Integer k) = Some (r, t')"
      "uh_ok t'" "uh_settings t' = uh_settings t" "uh_synced t'" "uh_count t' \<le> uh_count t"
      "\<forall>k'. uh_map t' k' = (if uhash_compareLong k' (Integer k) then None else uh_map t k')"
      "uh_primeIndex t' \<le> uh_primeIndex t + of_bool (uh_count t > uh_highWaterMark t)"
    using long_keys.remove_ok [of t alloc "Integer k"] r a by (auto simp: represents_def)
  then show ?thesis
    using prime_index_stays [of t "uh_primeIndex t'"] r c
    by (auto simp: Remove uhash_iremovei_def represents_def uhash_compareLong_def)
qed

lemma uh_run_represents:
  assumes "represents t m" and "uh_count t + int (length ops) \<le> 131070" and "\<forall>n. alloc n"
  shows "\<exists>t'. uh_run alloc ops t = Some t' \<and> represents t' (fold map_exec ops m)"
  using assms(1,2)
proof (induction ops arbitrary: t m)
  case (Cons op ops)
  then obtain t' where "uh_exec alloc op t = Some t'" "represents t' (map_exec op m)" "uh_count t' \<le> uh_count t + 1"
    using uh_exec_represents [OF Cons.prems(1) _ assms(3), of op] by auto
  then show ?case using Cons.IH [of t'] Cons.prems(2) by auto
qed simp

lemma open_represents:
  assumes "\<forall>n. alloc n"
  shows "\<exists>t. uhash_open alloc uhash_hashLong uhash_compareLong None U_ZERO_ERROR = (Some t, U_ZERO_ERROR) \<and>
    represents t Map.empty \<and> uh_count t = 0"
proof -
  have "prime_length 127" using PRIMES_prime [of 3] by (simp add: PRIMES_def)
  then have "slots_ok uhash_hashLong uhash_compareLong (replicate 127 empty_slot)" by (rule replicate_ok)
  then show ?thesis
    using assms
    by (simp add: uhash_open_def uhash_create_def uhash_init_def uhash_allocate_def Let_def represents_def
        uh_ok_def uh_map_def uh_synced_def replicate_map PRIMES_def)
qed

text \<open>
  C15. A table of integers opened with the default size simulates a partial map: after any sequence of up to
  131070 insertions and removals (with memory available) every operation has returned and every lookup
  returns the value that was last stored under the key, or 0 when there is none.
\<close>

theorem hashtable_simulates_map:
  assumes "\<forall>n. alloc n" and "length ops \<le> 131070"
  shows "\<exists>t0 t. uhash_open alloc uhash_hashLong uhash_compareLong None U_ZERO_ERROR = (Some t0, U_ZERO_ERROR) \<and>
    uh_run alloc ops t0 = Some t \<and> uh_ok t \<and>
    (\<forall>k. uhash_igeti t k = Some (case fold map_exec ops Map.empty k of Some v \<Rightarrow> v | None \<Rightarrow> 0))"
proof -
  obtain t0 :: "'a UHashtable" where t0: "uhash_open alloc uhash_hashLong uhash_compareLong None U_ZERO_ERROR = (Some t0, U_ZERO_ERROR)"
      "represents t0 Map.empty" "uh_count t0 = 0"
    using open_represents [OF assms(1)] by blast
  then obtain t where t: "uh_run alloc ops t0 = Some t" "represents t (fold map_exec ops Map.empty)"
    using uh_run_represents [OF t0(2) _ assms(1), of ops] assms(2) by auto
  have "uhash_igeti t k = Some (case fold map_exec ops Map.empty k of Some v \<Rightarrow> v | None \<Rightarrow> 0)" for k
    using long_keys.find_value_map [of t "Integer k"] t(2)
    by (auto simp: uhash_igeti_def represents_def split: option.split)
  then show ?thesis using t0(1) t by (auto simp: represents_def)
qed

theorem hashtable_simulates_map_witness:
  "\<exists>t0 t. uhash_open (\<lambda>n. True) uhash_hashLong uhash_compareLong None U_ZERO_ERROR = (Some (t0 :: nat UHashtable), U_ZERO_ERROR) \<and>
    uh_run (\<lambda>n. True) [Put 3 30, Put 130 40, Remove 3, Put 257 50] t0 = Some t \<and>
    uhash_igeti t 3 = Some 0 \<and> uhash_igeti t 130 = Some 40 \<and> uhash_igeti t 257 = Some 50"
  using hashtable_simulates_map [of "\<lambda>n. True" "[Put 3 30, Put 130 40, Remove 3, Put 257 50]", where ?'a = nat]
  by fastforce

section \<open>Witness tables\<close>

definition open_long :: "nat UHashtable" where
  "open_long = the (fst (uhash_open (\<lambda>n. True) uhash_hashLong uhash_compareLong None U_ZERO_ERROR))"

lemma open_long_ok:
  "uh_ok open_long" "uh_synced open_long" "uh_primeIndex open_long < 15"
  "uh_keyHasher open_long = uhash_hashLong" "uh_keyComparator open_long = uhash_compareLong"
  "uh_policy open_long = U_GROW" "uh_map open_long (Integer k) = None" "\<not> uh_valueDeleter open_long"
  "uh_count open_long = 0" "uh_map open_long x = None"
  using open_represents [of "\<lambda>n. True", where ?'a = nat]
  by (auto simp: open_long_def represents_def uhash_open_def uhash_create_def uhash_init_def
      uhash_allocate_def Let_def uh_map_def replicate_map)

lemma open_long_contract: "key_contract (uh_keyHasher open_long) (uh_keyComparator open_long)"
  unfolding open_long_ok by (rule long_keys.key_contract_axioms)

theorem put_refines_map_witness:
  "key_contract (uh_keyHasher open_long) (uh_keyComparator open_long) \<and> uh_ok open_long \<and> uh_synced open_long \<and>
   (\<exists>t'. uhash_put_key (\<lambda>n. True) open_long (Integer 5) (Integer 7) False U_ZERO_ERROR = Some (Null, t', U_ZERO_ERROR) \<and>
     uh_ok t' \<and> uh_synced t' \<and> uh_map t' (Integer 5) = Some (Integer 7) \<and> uh_map t' (Integer 6) = None)"
proof -
  obtain r t' status' where *: "uhash_put_key (\<lambda>n. True) open_long (Integer 5) (Integer 7) False U_ZERO_ERROR = Some (r, t', status')"
    "uh_ok t'"
    "\<forall>k. uh_map t' k = (if U_SUCCESS status' \<and> uh_keyComparator open_long k (Integer 5) then Some (Integer 7) else uh_map open_long k)"
    "U_SUCCESS status' \<and> \<not> uh_valueDeleter open_long \<longrightarrow> r = (case uh_map open_long (Integer 5) of Some v \<Rightarrow> v | None \<Rightarrow> Null)"
    "uh_synced t'" "uh_policy open_long \<noteq> U_FIXED \<longrightarrow> status' = U_ZERO_ERROR"
    using put_refines_map [OF open_long_contract open_long_ok(1-3), of False "Integer 7" U_ZERO_ERROR "\<lambda>n. True" "Integer 5"]
    by auto
  then show ?thesis
    using open_long_contract open_long_ok(1,2) by (auto simp: open_long_ok uhash_compareLong_def)
qed

theorem remove_get_refine_map_witness:
  "\<exists>t t'. uhash_put_key (\<lambda>n. True) open_long (Integer 5) (Integer 7) False U_ZERO_ERROR = Some (Null, t, U_ZERO_ERROR) \<and>
     find_value t (Integer 5) = Some (Integer 7) \<and>
     uhash_remove_key (\<lambda>n. True) t (Integer 5) = Some (Integer 7, t') \<and> uh_ok t' \<and> uh_map t' (Integer 5) = None"
proof -
  obtain r t status where t: "uhash_put_key (\<lambda>n. True) open_long (Integer 5) (Integer 7) False U_ZERO_ERROR = Some (r, t, status)"
    "uh_ok t" "uh_settings t = uh_settings open_long"
    "\<forall>k. uh_map t k = (if U_SUCCESS status \<and> uhash_compareLong k (Integer 5) then Some (Integer 7) else uh_map open_long k)"
    "U_SUCCESS status \<and> \<not> uh_valueDeleter open_long \<longrightarrow> r = (case uh_map open_long (Integer 5) of Some v \<Rightarrow> v | None \<Rightarrow> Null)"
    "uh_primeIndex t \<le> uh_primeIndex open_long + of_bool (uh_count open_long > uh_highWaterMark open_long)"
    "uh_synced t" "uh_policy open_long \<noteq> U_FIXED \<longrightarrow> status = U_ZERO_ERROR"
    using long_keys.put_ok [of open_long False "Integer 7" U_ZERO_ERROR "\<lambda>n. True" "Integer 5"] open_long_ok by auto
  have "uh_primeIndex open_long = 3"
    by (simp add: open_long_def uhash_open_def uhash_create_def uhash_init_def uhash_allocate_def Let_def)
  then have s: "uh_keyHasher t = uhash_hashLong" "uh_keyComparator t = uhash_compareLong" "\<not> uh_valueDeleter t" "uh_primeIndex t < 15"
    using t(3,6) open_long_ok by (auto split: split_of_bool_asm)
  have c: "key_contract (uh_keyHasher t) (uh_keyComparator t)" unfolding s by (rule long_keys.key_contract_axioms)
  have m: "uh_map t (Integer 5) = Some (Integer 7)" "r = Null" "status = U_ZERO_ERROR"
    using t(4,5,8) open_long_ok by (auto simp: uhash_compareLong_def)
  from remove_get_refine_map [OF c t(2,7) s(4), of "Integer 5" "\<lambda>n. True" "Integer 5"] m t(1) s show ?thesis
    by (auto simp: uhash_compareLong_def)
qed

section \<open>Shrinking after refused allocations\<close>

lemma failed_shrink_step:
  assumes c: "key_contract hash cmp" and t: "uh_ok t" "uh_keyHasher t = hash" "uh_keyComparator t = cmp"
    and m: "uh_lowWaterMark t = 25" "uh_highWaterMark t = 125" "uh_count t \<le> 25"
    and pi: "1 < uh_primeIndex t" "uh_primeIndex t \<le> 4" and key: "uh_map t (Integer k) \<noteq> None"
  shows "\<exists>t'. uh_exec (\<lambda>n. n = sizeof_UHashElement * 13) (Remove k) t = Some t' \<and> uh_ok t' \<and>
    uh_keyHasher t' = hash \<and> uh_keyComparator t' = cmp \<and> uh_lowWaterMark t' = 25 \<and> uh_highWaterMark t' = 125 \<and>
    uh_count t' = uh_count t - 1 \<and> uh_primeIndex t' = uh_primeIndex t - 1 \<and>
    (\<forall>k'. uh_map t' k' = (if cmp k' (Integer k) then None else uh_map t k'))"
proof -
  have "uh_primeIndex t = 2 \<or> uh_primeIndex t = 3 \<or> uh_primeIndex t = 4" using pi by linarith
  then have "PRIMES ! nat (uh_primeIndex t - 1) \<noteq> 13" by (auto simp: PRIMES_def)
  then show ?thesis
    using key_contract.remove_unallocated [OF c t key, of "\<lambda>n. n = sizeof_UHashElement * 13"] m pi t
    by (auto simp: uhash_iremovei_def)
qed

text \<open>
  C18. A refused allocation while shrinking leaves the prime index decremented although the table keeps its
  length.  From a well-formed table of 251 slots with 25 elements, four removals, of which the first three find
  no memory for the smaller arrays and the fourth finds memory for 13 slots, end in a dereferenced null
  pointer: 21 elements do not fit.
\<close>

theorem shrink_after_failures_crashes:
  assumes t: "key_contract (uh_keyHasher t) (uh_keyComparator t)" "uh_ok t" "uh_synced t"
    and shape: "uh_policy t = U_GROW_AND_SHRINK" "uh_primeIndex t = 4" "uh_count t = 25"
    and keys: "\<forall>i<4. uh_map t (Integer (k i)) \<noteq> None"
      "\<forall>i<4. \<forall>j<4. uh_keyComparator t (Integer (k i)) (Integer (k j)) \<longrightarrow> i = j"
    and alloc: "alloc = (\<lambda>n. n = sizeof_UHashElement * 13)"
  shows "uh_run alloc [Remove (k (0::nat)), Remove (k 1), Remove (k 2), Remove (k 3)] t = None"
proof -
  let ?c = "uh_keyComparator t" and ?a = "\<lambda>n. n = sizeof_UHashElement * 13"
  have m: "uh_lowWaterMark t = 25" "uh_highWaterMark t = 125" using t(3) shape by (simp_all add: uh_synced_def PRIMES_def)
  have k: "uh_map t (Integer (k i)) \<noteq> None" if "i < 4" for i using keys(1) that by blast
  have ne: "\<not> ?c (Integer (k i)) (Integer (k j))" if "i < 4" "j < 4" "i \<noteq> j" for i j using keys(2) that by blast
  obtain t1 where t1: "uh_exec ?a (Remove (k 0)) t = Some t1" "uh_ok t1" "uh_keyHasher t1 = uh_keyHasher t" "uh_keyComparator t1 = ?c"
      "uh_lowWaterMark t1 = 25" "uh_highWaterMark t1 = 125" "uh_count t1 = 24" "uh_primeIndex t1 = 3"
      "\<forall>k'. uh_map t1 k' = (if ?c k' (Integer (k 0)) then None else uh_map t k')"
    using failed_shrink_step [OF t(1,2) refl refl m, of "k 0"] shape k [of 0] by auto
  obtain t2 where t2: "uh_exec ?a (Remove (k 1)) t1 = Some t2" "uh_ok t2" "uh_keyHasher t2 = uh_keyHasher t" "uh_keyComparator t2 = ?c"
      "uh_lowWaterMark t2 = 25" "uh_highWaterMark t2 = 125" "uh_count t2 = 23" "uh_primeIndex t2 = 2"
      "\<forall>k'. uh_map t2 k' = (if ?c k' (Integer (k 1)) then None else uh_map t1 k')"
    using failed_shrink_step [OF t(1) t1(2-6), of "k 1"] t1(7-9) k [of 1] ne [of 1 0] by auto
  obtain t3 where t3: "uh_exec ?a (Remove (k 2)) t2 = Some t3" "uh_ok t3" "uh_keyHasher t3 = uh_keyHasher t" "uh_keyComparator t3 = ?c"
      "uh_lowWaterMark t3 = 25" "uh_highWaterMark t3 = 125" "uh_count t3 = 22" "uh_primeIndex t3 = 1"
      "\<forall>k'. uh_map t3 k' = (if ?c k' (Integer (k 2)) then None else uh_map t2 k')"
    using failed_shrink_step [OF t(1) t2(2-6), of "k 2"] t2(7-9) t1(9) k [of 2] ne [of 2 0] ne [of 2 1] by auto
  have "uhash_remove_key ?a t3 (Integer (k 3)) = None"
    using key_contract.remove_overflow [OF t(1) t3(2-4), of "Integer (k 3)" ?a] t3(5-9) t2(9) t1(9) k [of 3]
      ne [of 3 0] ne [of 3 1] ne [of 3 2] by (simp add: PRIMES_def)
  then have "uh_exec ?a (Remove (k 3)) t3 = None" by (simp add: uhash_iremovei_def)
  then show ?thesis unfolding alloc using t1(1) t2(1) t3(1) by (simp del: uh_exec.simps)
qed

definition crowded_slot :: "nat \<Rightarrow> nat UHashElement" where
  "crowded_slot i = (if i < 25
     then \<lparr>he_hashcode = int i + 2, he_value = Integer 1, he_key = Integer (int i + 2)\<rparr> else empty_slot)"

definition crowded :: "nat UHashtable" where
  "crowded = open_long\<lparr>uh_elements := map crowded_slot [0..<251], uh_count := 25, uh_policy := U_GROW_AND_SHRINK,
     uh_primeIndex := 4, uh_lowWaterMark := 25, uh_highWaterMark := 125\<rparr>"

lemma crowded_hash: "j < 25 \<Longrightarrow> positive_hash (int j + 2) = j + 2 \<and> probe 251 (j + 2) 0 = j"
proof -
  assume "j < 25"
  then have "j = 0 \<or> j = 1 \<or> j = 2 \<or> j = 3 \<or> j = 4 \<or> j = 5 \<or> j = 6 \<or> j = 7 \<or> j = 8 \<or> j = 9 \<or> j = 10 \<or> j = 11 \<or> 
      j = 12 \<or> j = 13 \<or> j = 14 \<or> j = 15 \<or> j = 16 \<or> j = 17 \<or> j = 18 \<or> j = 19 \<or> j = 20 \<or> j = 21 \<or> j = 22 \<or> j = 23 \<or> j = 24"
    by arith
  then show ?thesis
    by (elim disjE) (simp_all add: positive_hash_def probe_def flip: numeral_2_eq_2 numeral_3_eq_3)
qed

lemma crowded_ok: "uh_ok crowded"
proof -
  let ?els = "map crowded_slot [0..<251]"
  have occ: "occupied (crowded_slot i) \<longleftrightarrow> i < 25" for i by (simp add: crowded_slot_def)
  have "prime_length 251" using PRIMES_prime [of 4] by (simp add: PRIMES_def)
  moreover have "slot_ok uhash_hashLong (crowded_slot i)" for i
    using crowded_hash [of i] by (auto simp: slot_ok_def crowded_slot_def uhash_hashLong_def)
  moreover have "i = j" if "occupied (crowded_slot i)" "occupied (crowded_slot j)"
      "uhash_compareLong (he_key (crowded_slot i)) (he_key (crowded_slot j))" for i j
    using that unfolding occ by (auto simp: crowded_slot_def uhash_compareLong_def)
  moreover have "reaches ?els (nat (he_hashcode (crowded_slot i))) i" if "i < 251" "occupied (crowded_slot i)" for i
  proof -
    have "probe 251 (nat (he_hashcode (crowded_slot i))) 0 = i"
      using that crowded_hash [of i] unfolding occ by (simp add: crowded_slot_def nat_add_distrib)
    then show ?thesis by (auto simp: reaches_def intro!: exI [of _ 0])
  qed
  ultimately have "slots_ok uhash_hashLong uhash_compareLong ?els" by (auto simp: slots_ok_def)
  moreover have "length (filter occupied ?els) = 25"
  proof -
    have "{i. i < 251 \<and> [0..<251] ! i < 25} = {..<25::nat}" by auto
    then show ?thesis by (simp add: filter_map length_filter_conv_card comp_def occ)
  qed
  ultimately show ?thesis by (simp add: uh_ok_def crowded_def open_long_ok)
qed

lemma crowded_map: "i < 4 \<Longrightarrow> uh_map crowded (Integer (int i + 2)) \<noteq> None"
proof
  assume i: "i < 4" and "uh_map crowded (Integer (int i + 2)) = None"
  then have "\<not> (occupied (crowded_slot i) \<and> uhash_compareLong (Integer (int i + 2)) (he_key (crowded_slot i)))"
    by (auto simp: uh_map_def slots_map_None crowded_def open_long_ok dest!: spec [of _ i])
  then show False using i by (simp add: crowded_slot_def uhash_compareLong_def)
qed

theorem shrink_after_failures_crashes_witness:
  "uh_ok crowded \<and> uh_run (\<lambda>n. n = sizeof_UHashElement * 13) [Remove 2, Remove 3, Remove 4, Remove 5] crowded = None"
proof -
  have "uh_run (\<lambda>n. n = sizeof_UHashElement * 13)
      [Remove (int 0 + 2), Remove (int 1 + 2), Remove (int 2 + 2), Remove (int 3 + 2)] crowded = None"
  proof (rule shrink_after_failures_crashes [of crowded "\<lambda>i. int i + 2"])
    show "key_contract (uh_keyHasher crowded) (uh_keyComparator crowded)"
      using open_long_contract by (simp add: crowded_def)
    show "uh_synced crowded" by (simp add: uh_synced_def crowded_def PRIMES_def)
  qed (use crowded_ok crowded_map in \<open>simp_all add: crowded_def open_long_ok uhash_compareLong_def\<close>)
  then show ?thesis using crowded_ok by simp
qed

section \<open>Iteration and equality\<close>

lemma next_occupied_filter:
  "filter occupied (drop i els) =
     (case next_occupied els i of None \<Rightarrow> [] | Some j \<Rightarrow> els ! j # filter occupied (drop (Suc j) els))"
proof (induction els i rule: next_occupied.induct)
  case (1 els i)
  show ?case
  proof (cases "i < length els")
    case True
    then have "drop i els = els ! i # drop (Suc i) els" by (simp add: Cons_nth_drop_Suc)
    then show ?thesis using 1 True by (subst next_occupied.simps) (auto simp: IS_EMPTY_OR_DELETED_def)
  qed (subst next_occupied.simps, simp)
qed

lemma nextElement_filter:
  "0 \<le> pos + 1 \<Longrightarrow> filter occupied (drop (nat (pos + 1)) (uh_elements t)) =
     (case uhash_nextElement t pos of None \<Rightarrow> []
      | Some j \<Rightarrow> uh_elements t ! j # filter occupied (drop (nat (int j + 1)) (uh_elements t)))"
  using next_occupied_filter [of "nat (pos + 1)" "uh_elements t"]
  by (simp add: uhash_nextElement_def nat_add_distrib split: option.splits)

lemma equals_loop_spec:
  assumes get: "\<And>key. find_value t2 key = Some (val key)"
  shows "0 \<le> pos + 1 \<Longrightarrow> length (filter occupied (drop (nat (pos + 1)) (uh_elements t1))) = n \<Longrightarrow>
    equals_loop n pos cmp t1 t2 =
      Some (\<forall>e\<in>set (filter occupied (drop (nat (pos + 1)) (uh_elements t1))). cmp (he_value e) (val (he_key e)))"
proof (induction n arbitrary: pos)
  case (Suc n)
  then obtain j where j: "uhash_nextElement t1 pos = Some j"
      "filter occupied (drop (nat (pos + 1)) (uh_elements t1)) =
       uh_elements t1 ! j # filter occupied (drop (nat (int j + 1)) (uh_elements t1))"
    using nextElement_filter [of pos t1] by (auto split: option.splits)
  then show ?case using Suc.IH [of "int j"] Suc.prems by (simp add: get)
qed simp

text \<open>
  C19. \<open>uhash_equals\<close> on two well-formed tables with the same functions: it returns true exactly when the
  counts agree and every value of the first table is equal, by the value comparator, to what a lookup of its key
  in the second table returns.  A key that the second table lacks counts as bound to the null token, so the tables
  need not have the same keys.
\<close>

theorem uhash_equals_spec:
  assumes "key_contract (uh_keyHasher t2) (uh_keyComparator t2)" and "uh_ok t1" and "uh_ok t2"
    and "uh_valueComparator t1 = Some cmp"
  shows "uhash_equals t1 t2 True = Some (uh_count t1 = uh_count t2 \<and>
    (\<forall>e\<in>set (uh_elements t1). occupied e \<longrightarrow>
       cmp (he_value e) (case uh_map t2 (he_key e) of Some v \<Rightarrow> v | None \<Rightarrow> Null)))"
proof -
  have n: "length (filter occupied (drop (nat (- 1 + 1)) (uh_elements t1))) = nat (uh_count t1)"
    using assms(2) by (simp add: uh_ok_def)
  show ?thesis
    using equals_loop_spec [OF key_contract.find_value_map [OF assms(1,3) refl refl] _ n, of cmp] assms(4)
    by (auto simp: uhash_equals_def)
qed

lemma single_put:
  "\<exists>r t'. uhash_iputi (\<lambda>n. True) open_long k 0 U_ZERO_ERROR = Some (r, t', U_ZERO_ERROR) \<and> uh_ok t' \<and>
    uh_count t' = 1 \<and> uh_settings t' = uh_settings open_long \<and>
    (\<forall>k'. uh_map t' (Integer k') = (if k' = k then Some (Integer 0) else None)) \<and>
    (\<forall>e\<in>set (uh_elements t'). occupied e \<longrightarrow> as_integer (he_value e) = 0)"
proof -
  obtain r t' where t': "uhash_put_key (\<lambda>n. True) open_long (Integer k) (Integer 0) False U_ZERO_ERROR = Some (r, t', U_ZERO_ERROR)"
      "uh_ok t'" "uh_settings t' = uh_settings open_long" "uh_count t' \<le> 1"
      "\<forall>k'. uh_map t' k' = (if uhash_compareLong k' (Integer k) then Some (Integer 0) else uh_map open_long k')"
    using long_keys.put_ok [of open_long False "Integer 0" U_ZERO_ERROR "\<lambda>n. True" "Integer k"] open_long_ok by auto
  have ok: "slots_ok uhash_hashLong uhash_compareLong (uh_elements t')" using t' by (simp add: uh_ok_def open_long_ok)
  have "uh_map t' (Integer k) = Some (Integer 0)" using t'(5) by (simp add: uhash_compareLong_def)
  then have "\<exists>e\<in>set (uh_elements t'). occupied e"
    using long_keys.slots_map_set [OF ok] t'(3) by (auto simp: uh_map_def open_long_ok)
  then have "filter occupied (uh_elements t') \<noteq> []" by (auto simp: filter_empty_conv)
  then have "uh_count t' = 1" using t'(2,4) by (cases "filter occupied (uh_elements t')") (auto simp: uh_ok_def)
  moreover have "as_integer (he_value e) = 0" if e: "e \<in> set (uh_elements t')" "occupied e" for e
  proof -
    have "uh_map t' (he_key e) = Some (he_value e)"
      using long_keys.slots_map_set [OF ok] e t'(3) by (auto simp: uh_map_def open_long_ok uhash_compareLong_def)
    moreover have "uh_map open_long x = None" for x
      using open_long_ok(10) [of x] .
    ultimately have "he_value e = Integer 0" using t'(5) by (auto split: if_splits)
    then show ?thesis by simp
  qed
  ultimately show ?thesis
    using t' by (auto simp: uhash_iputi_def open_long_ok uhash_compareLong_def)
qed

text \<open>Two tables with different keys, all bound to 0, compare equal.\<close>

theorem uhash_equals_spec_witness:
  "\<exists>r1 r2 t1 t2. uhash_iputi (\<lambda>n. True) open_long 5 0 U_ZERO_ERROR = Some (r1, t1, U_ZERO_ERROR) \<and>
    uhash_iputi (\<lambda>n. True) open_long 6 0 U_ZERO_ERROR = Some (r2, t2, U_ZERO_ERROR) \<and>
    uh_map t1 (Integer 5) \<noteq> None \<and> uh_map t2 (Integer 5) = None \<and>
    uhash_equals (snd (uhash_setValueComparator t1 (Some uhash_compareLong))) t2 True = Some True"
proof -
  obtain r1 t1 where t1: "uhash_iputi (\<lambda>n. True) open_long 5 0 U_ZERO_ERROR = Some (r1, t1, U_ZERO_ERROR)" "uh_ok t1"
      "uh_count t1 = 1" "\<forall>k'. uh_map t1 (Integer k') = (if k' = 5 then Some (Integer 0) else None)"
      "\<forall>e\<in>set (uh_elements t1). occupied e \<longrightarrow> as_integer (he_value e) = 0"
    using single_put [of 5] by blast
  obtain r2 t2 where t2: "uhash_iputi (\<lambda>n. True) open_long 6 0 U_ZERO_ERROR = Some (r2, t2, U_ZERO_ERROR)" "uh_ok t2"
      "uh_count t2 = 1" "uh_settings t2 = uh_settings open_long"
      "\<forall>k'. uh_map t2 (Integer k') = (if k' = 6 then Some (Integer 0) else None)"
      "\<forall>e\<in>set (uh_elements t2). occupied e \<longrightarrow> as_integer (he_value e) = 0"
    using single_put [of 6] by blast
  let ?t1 = "snd (uhash_setValueComparator t1 (Some uhash_compareLong))"
  have "key_contract (uh_keyHasher t2) (uh_keyComparator t2)" using open_long_contract t2(4) by simp
  moreover have "uh_ok ?t1" "uh_valueComparator ?t1 = Some uhash_compareLong"
    using t1(2) by (simp_all add: uhash_setValueComparator_def uh_ok_def)
  moreover have "as_integer (case uh_map t2 k of Some v \<Rightarrow> v | None \<Rightarrow> Null) = 0" for k
    using t2(6) slots_map_SomeD [of "uh_keyComparator t2" "uh_elements t2" k]
    by (fastforce simp: uh_map_def split: option.split)
  ultimately have "uhash_equals ?t1 t2 True = Some True"
    using uhash_equals_spec [of t2 ?t1 uhash_compareLong] t1(3,5) t2(2,3)
    by (simp add: uhash_setValueComparator_def uhash_compareLong_def)
  then show ?thesis using t1(1,4) t2(1,5) by auto
qed

end
