(* ===== verification/Utf8.thy ===== *)
theory Utf8
  imports Utf16 "HOL-Library.Monad_Syntax"
begin

text \<open>
  UTF-8 text access: the macros of \<open>common/unicode/utf8.h\<close> and the functions of \<open>common/utf_impl.c\<close> behind
  them.

  A string is a list of bytes, integers in \<open>0 .. 0xff\<close>; a cast to \<open>uint8_t\<close> is the remainder by 256.  Every read
  goes through \<open>byte_at\<close>, which is \<open>None\<close> outside the list, so that a result \<open>Some\<close> says that no byte behind
  the string was read.  A length below 0 stands for a NUL-terminated string, as in the code.
\<close>

section \<open>Macros for single bytes and code points\<close>

type_synonym bytes = "int list"

abbreviation (input) U_SENTINEL :: UChar32 where "U_SENTINEL \<equiv> - 1"

definition byte_at :: "bytes \<Rightarrow> nat \<Rightarrow> int option" where
  "byte_at s i = (if i < length s then Some (s ! i) else None)"

definition U8_COUNT_TRAIL_BYTES :: "int \<Rightarrow> nat" where
  "U8_COUNT_TRAIL_BYTES leadByte =
     (let b = leadByte mod 256 in
      if b < 0xf0 then of_bool (b \<ge> 0xc0) + of_bool (b \<ge> 0xe0)
      else if b < 0xfe then 3 + of_bool (b \<ge> 0xf8) + of_bool (b \<ge> 0xfc) else 0)"

definition U8_MASK_LEAD_BYTE :: "int \<Rightarrow> nat \<Rightarrow> int" where
  "U8_MASK_LEAD_BYTE leadByte countTrailBytes = leadByte AND (push_bit (6 - countTrailBytes) 1 - 1)"

definition U8_IS_SINGLE :: "int \<Rightarrow> bool" where
  "U8_IS_SINGLE c = (c AND 0x80 = 0)"

definition U8_IS_LEAD :: "int \<Rightarrow> bool" where
  "U8_IS_LEAD c = ((c - 0xc0) mod 256 < 0x3e)"

definition U8_IS_TRAIL :: "int \<Rightarrow> bool" where
  "U8_IS_TRAIL c = (c AND 0xc0 = 0x80)"

definition U8_LENGTH :: "UChar32 \<Rightarrow> nat" where
  "U8_LENGTH c =
     (let u = c mod 2 ^ 32 in
      if u \<le> 0x7f then 1 else if u \<le> 0x7ff then 2 else if u \<le> 0xd7ff then 3
      else if u \<le> 0xdfff \<or> u > 0x10ffff then 0 else if u \<le> 0xffff then 3 else 4)"

definition U_IS_UNICODE_NONCHAR :: "UChar32 \<Rightarrow> bool" where
  "U_IS_UNICODE_NONCHAR c = (c \<ge> 0xfdd0 \<and> (c \<le> 0xfdef \<or> c AND 0xfffe = 0xfffe) \<and> c \<le> 0x10ffff)"

definition utf8_minLegal :: "UChar32 list" where
  "utf8_minLegal = [0, 0x80, 0x800, 0x10000]"

definition utf8_errorValue :: "UChar32 list" where
  "utf8_errorValue = [0x15, 0x9f, 0xffff, 0x10ffff, 0x3ffffff, 0x7fffffff]"

definition errorValue :: "nat \<Rightarrow> int \<Rightarrow> UChar32" where
  "errorValue count strict =
     (if strict \<ge> 0 then utf8_errorValue ! count else if strict = - 3 then 0xfffd else U_SENTINEL)"

section \<open>Reading forward\<close>

text \<open>
  The \<open>switch\<close> of \<open>utf8_nextCharSafeBody\<close>: each branch falls through to the next; \<open>Some None\<close> is the \<open>break\<close>
  to the error handling.
\<close>

definition next_case1 :: "bytes \<Rightarrow> nat \<Rightarrow> UChar32 \<Rightarrow> nat \<Rightarrow> int \<Rightarrow> (UChar32 \<times> nat) option option" where
  "next_case1 s i c count strict = do {
     b \<leftarrow> byte_at s i;
     let trail = (b - 0x80) mod 256;
     let c = push_bit 6 c OR trail;
     Some (if trail > 0x3f then None
           else if c \<ge> utf8_minLegal ! count \<and> (strict \<le> 0 \<or> \<not> U_IS_UNICODE_NONCHAR c) then Some (c, i + 1)
           else None)
   }"

definition next_case2 :: "bytes \<Rightarrow> nat \<Rightarrow> UChar32 \<Rightarrow> nat \<Rightarrow> int \<Rightarrow> (UChar32 \<times> nat) option option" where
  "next_case2 s i c count strict = do {
     b \<leftarrow> byte_at s i;
     let trail = (b - 0x80) mod 256;
     let c = push_bit 6 c OR trail;
     if (c AND 0xffe0 = 0x360 \<and> strict \<noteq> - 2) \<or> trail > 0x3f then Some None
     else next_case1 s (i + 1) c count strict
   }"

definition next_case3 :: "bytes \<Rightarrow> nat \<Rightarrow> UChar32 \<Rightarrow> nat \<Rightarrow> int \<Rightarrow> (UChar32 \<times> nat) option option" where
  "next_case3 s i c count strict = do {
     b \<leftarrow> byte_at s i;
     let trail = (b - 0x80) mod 256;
     let c = push_bit 6 c OR trail;
     if c \<ge> 0x110 \<or> trail > 0x3f then Some None
     else next_case2 s (i + 1) c count strict
   }"

text \<open>\<open>while(count>0 && U8_IS_TRAIL(s[i])) { ++i; --count; }\<close>\<close>

fun skip_trails :: "bytes \<Rightarrow> nat \<Rightarrow> nat \<Rightarrow> nat option" where
  "skip_trails s i 0 = Some i"
| "skip_trails s i (Suc count) = do {
     b \<leftarrow> byte_at s i;
     if U8_IS_TRAIL b then skip_trails s (i + 1) count else Some i
   }"

definition utf8_nextCharSafeBody :: "bytes \<Rightarrow> nat \<Rightarrow> int \<Rightarrow> UChar32 \<Rightarrow> int \<Rightarrow> (UChar32 \<times> nat) option" where
  "utf8_nextCharSafeBody s pi len c strict =
     (let count = U8_COUNT_TRAIL_BYTES c;
          error = (\<lambda>count. do { i \<leftarrow> skip_trails s pi count; Some (errorValue (i - pi) strict, i) }) in
      if int pi + int count \<le> len \<or> len < 0 then do {
        let c = U8_MASK_LEAD_BYTE c count;
        r \<leftarrow> (if count = 3 then next_case3 s pi c count strict
             else if count = 2 then next_case2 s pi c count strict
             else if count = 1 then next_case1 s pi c count strict
             else Some None);
        case r of Some result \<Rightarrow> Some result | None \<Rightarrow> error count
      }
      else error (nat (len - int pi)))"

text \<open>\<open>U8_NEXT\<close> and \<open>U8_NEXT_OR_FFFD\<close> differ in \<open>strict\<close> only, which is -1 or -3.\<close>

definition U8_NEXT_strict :: "int \<Rightarrow> bytes \<Rightarrow> nat \<Rightarrow> int \<Rightarrow> (UChar32 \<times> nat) option" where
  "U8_NEXT_strict strict s i len = do {
     c \<leftarrow> byte_at s i;
     let i = i + 1;
     if c < 0x80 then Some (c, i)
     else do {
       t1 \<leftarrow> (if 0xe0 < c \<and> c \<le> 0xec \<and> (int i + 1 < len \<or> len < 0)
              then map_option (\<lambda>b. (b - 0x80) mod 256) (byte_at s i) else Some 0x40);
       t2 \<leftarrow> (if t1 \<le> 0x3f then map_option (\<lambda>b. (b - 0x80) mod 256) (byte_at s (i + 1)) else Some 0x40);
       if t2 \<le> 0x3f
       then Some ((push_bit 12 c OR push_bit 6 t1 OR t2) mod 0x10000, i + 2)
       else do {
         t1 \<leftarrow> (if c < 0xe0 \<and> c \<ge> 0xc2 \<and> int i \<noteq> len
                then map_option (\<lambda>b. (b - 0x80) mod 256) (byte_at s i) else Some 0x40);
         if t1 \<le> 0x3f then Some (push_bit 6 (c AND 0x1f) OR t1, i + 1)
         else utf8_nextCharSafeBody s i len c strict
       }
     }
   }"

definition U8_NEXT :: "bytes \<Rightarrow> nat \<Rightarrow> int \<Rightarrow> (UChar32 \<times> nat) option" where
  "U8_NEXT = U8_NEXT_strict (- 1)"

definition U8_NEXT_OR_FFFD :: "bytes \<Rightarrow> nat \<Rightarrow> int \<Rightarrow> (UChar32 \<times> nat) option" where
  "U8_NEXT_OR_FFFD = U8_NEXT_strict (- 3)"

definition U8_FWD_1 :: "bytes \<Rightarrow> nat \<Rightarrow> int \<Rightarrow> nat option" where
  "U8_FWD_1 s i len = do {
     b \<leftarrow> byte_at s i;
     let i = i + 1;
     if U8_IS_LEAD b
     then let count = U8_COUNT_TRAIL_BYTES b in
          skip_trails s i (if int i + int count > len \<and> len \<ge> 0 then nat (len - int i) else count)
     else Some i
   }"

fun U8_FWD_N :: "bytes \<Rightarrow> nat \<Rightarrow> int \<Rightarrow> nat \<Rightarrow> nat option" where
  "U8_FWD_N s i len 0 = Some i"
| "U8_FWD_N s i len (Suc n) =
     (if int i < len then Option.bind (U8_FWD_1 s i len) (\<lambda>i. U8_FWD_N s i len n)
      else if len < 0 then do {
        b \<leftarrow> byte_at s i;
        if b \<noteq> 0 then Option.bind (U8_FWD_1 s i len) (\<lambda>i. U8_FWD_N s i len n) else Some i
      }
      else Some i)"

section \<open>Writing\<close>

abbreviation (input) u8 :: "int \<Rightarrow> int" where "u8 x \<equiv> x mod 256"

definition bytes2 :: "UChar32 \<Rightarrow> bytes" where
  "bytes2 c = [u8 (drop_bit 6 c OR 0xc0), u8 ((c AND 0x3f) OR 0x80)]"

definition bytes3 :: "UChar32 \<Rightarrow> bytes" where
  "bytes3 c = [u8 (drop_bit 12 c OR 0xe0), u8 ((drop_bit 6 c AND 0x3f) OR 0x80), u8 ((c AND 0x3f) OR 0x80)]"

definition bytes4 :: "UChar32 \<Rightarrow> bytes" where
  "bytes4 c = [u8 (drop_bit 18 c OR 0xf0), u8 ((drop_bit 12 c AND 0x3f) OR 0x80),
     u8 ((drop_bit 6 c AND 0x3f) OR 0x80), u8 ((c AND 0x3f) OR 0x80)]"

text \<open>Consecutive stores \<open>(s)[(i)++]=b\<close> for the bytes of a list.\<close>

fun store_bytes :: "bytes \<Rightarrow> nat \<Rightarrow> bytes \<Rightarrow> bytes" where
  "store_bytes s i [] = s"
| "store_bytes s i (b # bs) = store_bytes (s[i := b]) (i + 1) bs"

definition U8_APPEND_UNSAFE :: "bytes \<Rightarrow> nat \<Rightarrow> UChar32 \<Rightarrow> bytes \<times> nat" where
  "U8_APPEND_UNSAFE s i c =
     (let u = c mod 2 ^ 32;
          bs = (if u \<le> 0x7f then [u8 c] else if u \<le> 0x7ff then bytes2 c
                else if u \<le> 0xffff then bytes3 c else bytes4 c) in
      (store_bytes s i bs, i + length bs))"

text \<open>\<open>report\<close> says that \<open>pIsError\<close> is not null; the last component is the new value of \<open>*pIsError\<close>.\<close>

definition utf8_appendCharSafeBody :: "bytes \<Rightarrow> nat \<Rightarrow> nat \<Rightarrow> UChar32 \<Rightarrow> bool \<Rightarrow> bool \<Rightarrow> bytes \<times> nat \<times> bool" where
  "utf8_appendCharSafeBody s i len c report isError =
     (let u = c mod 2 ^ 32;
          failure = (if report then (s, i, True)
                     else if i < len
                     then (case U8_APPEND_UNSAFE s i (utf8_errorValue ! (min (len - i) 3 - 1)) of (s, i) \<Rightarrow> (s, i, isError))
                     else (s, i, isError)) in
      if u \<le> 0x7ff then
        (if i + 1 < len then (store_bytes s i (bytes2 c), i + 2, isError) else failure)
      else if u \<le> 0xffff then
        (if i + 2 < len \<and> \<not> U_IS_SURROGATE c then (store_bytes s i (bytes3 c), i + 3, isError) else failure)
      else if u \<le> 0x10ffff then
        (if i + 3 < len then (store_bytes s i (bytes4 c), i + 4, isError) else failure)
      else failure)"

definition U8_APPEND :: "bytes \<Rightarrow> nat \<Rightarrow> nat \<Rightarrow> UChar32 \<Rightarrow> bool \<Rightarrow> bytes \<times> nat \<times> bool" where
  "U8_APPEND s i capacity c isError =
     (let u = c mod 2 ^ 32 in
      if u \<le> 0x7f then (s[i := u8 c], i + 1, isError)
      else if u \<le> 0x7ff \<and> i + 1 < capacity then (store_bytes s i (bytes2 c), i + 2, isError)
      else if u \<le> 0xd7ff \<and> i + 2 < capacity then (store_bytes s i (bytes3 c), i + 3, isError)
      else utf8_appendCharSafeBody s i capacity c True isError)"

section \<open>Reading backward\<close>

text \<open>
  The loop of \<open>utf8_prevCharSafeBody\<close>: \<open>pi\<close> is the index of the last byte, \<open>i\<close> runs backwards; the result is
  the code point or error value and the new index.
\<close>

fun prev_loop ::
  "bytes \<Rightarrow> nat \<Rightarrow> nat \<Rightarrow> nat \<Rightarrow> UChar32 \<Rightarrow> nat \<Rightarrow> nat \<Rightarrow> int \<Rightarrow> (UChar32 \<times> nat) option" where
  "prev_loop s start pi i c count shift strict =
     (if i \<le> start then Some (errorValue 0 strict, pi)
      else do {
        b \<leftarrow> byte_at s (i - 1);
        let i = i - 1;
        if (b - 0x80) mod 256 < 0x7e then
          if b AND 0x40 \<noteq> 0 then
            let shouldCount = U8_COUNT_TRAIL_BYTES b in
            if count = shouldCount then
              let c = c OR push_bit shift (U8_MASK_LEAD_BYTE b count) in
              if count \<ge> 4 \<or> c > 0x10ffff \<or> c < utf8_minLegal ! count \<or> (U_IS_SURROGATE c \<and> strict \<noteq> - 2) \<or>
                 (strict > 0 \<and> U_IS_UNICODE_NONCHAR c)
              then Some (errorValue (if count \<ge> 4 then 3 else count) strict, i)
              else Some (c, i)
            else if count < shouldCount then Some (errorValue count strict, i)
            else Some (errorValue 0 strict, pi)
          else if count < 5
          then prev_loop s start pi i (c OR push_bit shift (b AND 0x3f)) (count + 1) (shift + 6) strict
          else Some (errorValue 0 strict, pi)
        else Some (errorValue 0 strict, pi)
      })"

declare prev_loop.simps [simp del]

definition utf8_prevCharSafeBody :: "bytes \<Rightarrow> nat \<Rightarrow> nat \<Rightarrow> UChar32 \<Rightarrow> int \<Rightarrow> (UChar32 \<times> nat) option" where
  "utf8_prevCharSafeBody s start pi c strict =
     (if \<not> U8_IS_TRAIL c then Some (errorValue 0 strict, pi)
      else prev_loop s start pi pi (c AND 0x3f) 1 6 strict)"

definition U8_PREV_strict :: "int \<Rightarrow> bytes \<Rightarrow> nat \<Rightarrow> nat \<Rightarrow> (UChar32 \<times> nat) option" where
  "U8_PREV_strict strict s start i = do {
     c \<leftarrow> byte_at s (i - 1);
     if c \<ge> 0x80 then utf8_prevCharSafeBody s start (i - 1) c strict else Some (c, i - 1)
   }"

definition U8_PREV :: "bytes \<Rightarrow> nat \<Rightarrow> nat \<Rightarrow> (UChar32 \<times> nat) option" where
  "U8_PREV = U8_PREV_strict (- 1)"

definition U8_PREV_OR_FFFD :: "bytes \<Rightarrow> nat \<Rightarrow> nat \<Rightarrow> (UChar32 \<times> nat) option" where
  "U8_PREV_OR_FFFD = U8_PREV_strict (- 3)"

fun back1_loop :: "bytes \<Rightarrow> nat \<Rightarrow> nat \<Rightarrow> nat \<Rightarrow> nat option" where
  "back1_loop s Z i I = do {
     b \<leftarrow> byte_at s I;
     if (b - 0x80) mod 256 \<ge> 0x7e then Some i
     else if b \<ge> 0xc0 then Some (if U8_COUNT_TRAIL_BYTES b \<ge> i - I then I else i)
     else if Z < I then back1_loop s Z i (I - 1)
     else Some i
   }"

declare back1_loop.simps [simp del]

definition utf8_back1SafeBody :: "bytes \<Rightarrow> nat \<Rightarrow> nat \<Rightarrow> nat option" where
  "utf8_back1SafeBody s start i = back1_loop s (if start + 5 < i then i - 5 else start) i i"

definition U8_SET_CP_START :: "bytes \<Rightarrow> nat \<Rightarrow> nat \<Rightarrow> nat option" where
  "U8_SET_CP_START s start i = do {
     b \<leftarrow> byte_at s i;
     if U8_IS_TRAIL b then utf8_back1SafeBody s start i else Some i
   }"

definition U8_BACK_1 :: "bytes \<Rightarrow> nat \<Rightarrow> nat \<Rightarrow> nat option" where
  "U8_BACK_1 s start i = U8_SET_CP_START s start (i - 1)"

fun U8_BACK_N :: "bytes \<Rightarrow> nat \<Rightarrow> nat \<Rightarrow> nat \<Rightarrow> nat option" where
  "U8_BACK_N s start i 0 = Some i"
| "U8_BACK_N s start i (Suc n) =
     (if i > start then Option.bind (U8_BACK_1 s start i) (\<lambda>i. U8_BACK_N s start i n) else Some i)"

definition U8_GET :: "bytes \<Rightarrow> nat \<Rightarrow> nat \<Rightarrow> int \<Rightarrow> UChar32 option" where
  "U8_GET s start i len = do {
     i \<leftarrow> U8_SET_CP_START s start i;
     (c, i) \<leftarrow> U8_NEXT s i len;
     Some c
   }"

definition U8_SET_CP_LIMIT :: "bytes \<Rightarrow> nat \<Rightarrow> nat \<Rightarrow> int \<Rightarrow> nat option" where
  "U8_SET_CP_LIMIT s start i len =
     (if start < i then do {
        inside \<leftarrow> (if int i < len then Some True
                   else if len < 0 then map_option (\<lambda>b. b \<noteq> 0) (byte_at s i) else Some False);
        if inside then Option.bind (U8_BACK_1 s start i) (\<lambda>i. U8_FWD_1 s i len) else Some i
      }
      else Some i)"

end
