(* ===== verification/Utf8Props.thy ===== *)
theory Utf8Props
  imports Utf8
begin

unbundle bit_operations_syntax

text \<open>
  The decoding macros of \<open>common/unicode/utf8.h\<close> against the UTF-8 encoding form: a forward step reads exactly
  the encoding of one Unicode scalar value or reports an error, never leaves the string and always makes
  progress; the inline paths of the macros agree with the function \<open>utf8_nextCharSafeBody\<close>.
\<close>

section \<open>Reference\<close>

definition u8_text :: "bytes \<Rightarrow> bool" where
  "u8_text s \<longleftrightarrow> (\<forall>b\<in>set s. 0 \<le> b \<and> b < 256)"

definition scalar :: "UChar32 \<Rightarrow> bool" where
  "scalar c \<longleftrightarrow> 0 \<le> c \<and> c \<le> 0x10ffff \<and> \<not> (0xd800 \<le> c \<and> c \<le> 0xdfff)"

text \<open>The UTF-8 encoding form of the Unicode standard.\<close>

definition utf8_encode :: "UChar32 \<Rightarrow> bytes" where
  "utf8_encode c =
     (if c < 0x80 then [c]
      else if c < 0x800 then [0xc0 + c div 64, 0x80 + c mod 64]
      else if c < 0x10000 then [0xe0 + c div 4096, 0x80 + c div 64 mod 64, 0x80 + c mod 64]
      else [0xf0 + c div 262144, 0x80 + c div 4096 mod 64, 0x80 + c div 64 mod 64, 0x80 + c mod 64])"

definition encoded_at :: "bytes \<Rightarrow> nat \<Rightarrow> UChar32 \<Rightarrow> bool" where
  "encoded_at s i c \<longleftrightarrow> scalar c \<and> take (length (utf8_encode c)) (drop i s) = utf8_encode c"

section \<open>Bit operations on bytes\<close>

lemma and_3f: "c AND 0x3f = c mod 64" for c :: int
  using and_low_mask [of c 6] by (simp add: mask_eq_exp_minus_1)

lemma and_1f: "c AND 0x1f = c mod 32" for c :: int
  using and_low_mask [of c 5] by (simp add: mask_eq_exp_minus_1)

lemma mask_lead:
  "U8_MASK_LEAD_BYTE b 1 = b mod 32" "U8_MASK_LEAD_BYTE b 2 = b mod 16" "U8_MASK_LEAD_BYTE b 3 = b mod 8"
  using and_low_mask [of b 5] and_low_mask [of b 4] and_low_mask [of b 3]
  by (simp_all add: U8_MASK_LEAD_BYTE_def mask_eq_exp_minus_1)

lemma trail_mod:
  fixes b :: int
  assumes "0 \<le> b" and "b < 256"
  shows "(b - 0x80) mod 256 = (if 0x80 \<le> b then b - 0x80 else b + 0x80)"
  using mod_add_self2 [of "b - 128" 256] assms by (auto simp: mod_pos_pos_trivial)

lemma mod_offset: "0 \<le> b - k * m \<Longrightarrow> b - k * m < m \<Longrightarrow> b mod m = b - k * m" for b k m :: int
  using mod_mult_self1 [of "b - k * m" k m] by (simp add: mod_pos_pos_trivial)

lemma is_trail_iff: "0 \<le> b \<Longrightarrow> b < 256 \<Longrightarrow> U8_IS_TRAIL b \<longleftrightarrow> 0x80 \<le> b \<and> b < 0xc0"
proof -
  assume b: "0 \<le> b" "b < 256"
  have e: "b AND 0xc0 = (b div 64) * 64"
    using and_push_mask [of b 6 2] b by (simp add: mask_eq_exp_minus_1 push_bit_eq_mult)
  show ?thesis unfolding U8_IS_TRAIL_def e by presburger
qed

lemma surrogate_block: "0 \<le> c \<Longrightarrow> c < 0x10000 \<Longrightarrow> c AND 0xffe0 = 0x360 \<longleftrightarrow> 0x360 \<le> c \<and> c < 0x380" for c :: int
proof -
  assume c: "0 \<le> c" "c < 0x10000"
  have e: "c AND 0xffe0 = (c div 32) * 32"
    using and_push_mask [of c 5 11] c by (simp add: mask_eq_exp_minus_1 push_bit_eq_mult)
  show ?thesis unfolding e by presburger
qed

lemma byte_at_text: "u8_text s \<Longrightarrow> byte_at s i = Some b \<Longrightarrow> i < length s \<and> s ! i = b \<and> 0 \<le> b \<and> b < 256"
  by (auto simp: byte_at_def u8_text_def split: if_splits)

lemma byte_at_Some: "i < length s \<Longrightarrow> byte_at s i = Some (s ! i)"
  by (simp add: byte_at_def)

abbreviation trail :: "int \<Rightarrow> bool" where
  "trail b \<equiv> 0x80 \<le> b \<and> b < 0xc0"

section \<open>The branches of the decoder\<close>

lemma next_case1_eq:
  assumes "u8_text s" and "byte_at s i = Some b" and "strict < 0"
  shows "next_case1 s i c count strict =
    Some (if trail b \<and> c * 64 + (b - 0x80) \<ge> utf8_minLegal ! count then Some (c * 64 + (b - 0x80), i + 1) else None)"
  using byte_at_text [OF assms(1,2)] assms(2,3) mul_or [of "b - 0x80" c]
  by (auto simp: next_case1_def trail_mod Let_def)

lemma next_case2_eq:
  assumes "u8_text s" and "byte_at s i = Some b" and "strict \<in> {- 1, - 3}" and "0 \<le> c" and "c < 0x400"
  shows "next_case2 s i c count strict =
    (let c' = c * 64 + (b - 0x80) in
     if trail b \<and> \<not> (0x360 \<le> c' \<and> c' < 0x380) then next_case1 s (i + 1) c' count strict else Some None)"
  using byte_at_text [OF assms(1,2)] assms(2-) mul_or [of "b - 0x80" c] surrogate_block [of "c * 64 + (b - 0x80)"]
  by (auto simp: next_case2_def trail_mod Let_def)

lemma next_case3_eq:
  assumes "u8_text s" and "byte_at s i = Some b"
  shows "next_case3 s i c count strict =
    (let c' = c * 64 + (b - 0x80) in
     if trail b \<and> c' < 0x110 then next_case2 s (i + 1) c' count strict else Some None)"
  using byte_at_text [OF assms(1,2)] assms(2) mul_or [of "b - 0x80" c]
  by (auto simp: next_case3_def trail_mod Let_def)

lemma skip_trails_bounds:
  assumes "u8_text s" and "i + count \<le> length s"
  shows "\<exists>j. skip_trails s i count = Some j \<and> i \<le> j \<and> j \<le> i + count"
  using assms(2)
proof (induction count arbitrary: i)
  case (Suc count)
  then show ?case using Suc.IH [of "i + 1"] by (auto simp: byte_at_Some)
qed simp

lemma count_trail_cases:
  assumes "0 \<le> b" and "b < 256"
  shows "U8_COUNT_TRAIL_BYTES b =
    (if b < 0xc0 then 0 else if b < 0xe0 then 1 else if b < 0xf0 then 2 else if b < 0xf8 then 3
     else if b < 0xfc then 4 else if b < 0xfe then 5 else 0)"
  using assms by (simp add: U8_COUNT_TRAIL_BYTES_def Let_def mod_pos_pos_trivial)

lemma errorValue_neg: "errorValue n (- 1) = - 1" "errorValue n (- 3) = 0xfffd"
  by (simp_all add: errorValue_def)

section \<open>The inline paths agree with the function\<close>

lemma byte_at_next: "u8_text s \<Longrightarrow> i < length s \<Longrightarrow> byte_at s i = Some (s ! i) \<and> 0 \<le> s ! i \<and> s ! i < 256"
  by (auto simp: byte_at_def u8_text_def)

lemma body3_eq:
  assumes t: "u8_text s" and i: "i + 2 \<le> length s" and b: "0xe0 \<le> b" "b < 0xf0" and st: "strict \<in> {- 1, - 3}"
  shows "utf8_nextCharSafeBody s i (int (length s)) b strict =
    (let y = s ! i - 0x80; z = s ! (i + 1) - 0x80; c = ((b - 0xe0) * 64 + y) * 64 + z in
     if trail (s ! i) \<and> trail (s ! (i + 1)) \<and> 0x800 \<le> c \<and> \<not> (0xd800 \<le> c \<and> c \<le> 0xdfff) then Some (c, i + 2)
     else do { j \<leftarrow> skip_trails s i 2; Some (errorValue (j - i) strict, j) })"
proof -
  have by0: "byte_at s i = Some (s ! i)" and by1: "byte_at s (i + 1) = Some (s ! (i + 1))"
    using i by (auto simp: byte_at_def)
  have cnt: "U8_COUNT_TRAIL_BYTES b = 2" using b by (simp add: count_trail_cases)
  have mask: "U8_MASK_LEAD_BYTE b 2 = b - 0xe0"
    using b mod_offset [of b 14 16] by (simp add: mask_lead)
  have min: "utf8_minLegal ! 2 = 0x800" by (simp add: utf8_minLegal_def)
  have neg: "strict < 0" using st by auto
  let ?y = "s ! i - 0x80" and ?z = "s ! (i + 1) - 0x80"
  let ?c = "(b - 0xe0) * 64 + ?y"
  have sur: "(0x360 \<le> ?c \<and> ?c < 0x380) = (0xd800 \<le> ?c * 64 + ?z \<and> ?c * 64 + ?z \<le> 0xdfff)" if "trail (s ! (i + 1))"
    using that by auto
  show ?thesis
    unfolding utf8_nextCharSafeBody_def Let_def cnt mask
    using i neg by0 by1 next_case2_eq [OF t by0 st, of "b - 0xe0" 2] next_case1_eq [OF t by1 neg, of ?c 2] b sur min
    by (auto simp: Let_def)
qed

lemma body4_eq:
  assumes t: "u8_text s" and i: "i + 3 \<le> length s" and b: "0xf0 \<le> b" "b < 0xf8" and st: "strict \<in> {- 1, - 3}"
  shows "utf8_nextCharSafeBody s i (int (length s)) b strict =
    (let x = s ! i - 0x80; y = s ! (i + 1) - 0x80; z = s ! (i + 2) - 0x80;
         c = (((b - 0xf0) * 64 + x) * 64 + y) * 64 + z in
     if trail (s ! i) \<and> trail (s ! (i + 1)) \<and> trail (s ! (i + 2)) \<and> 0x10000 \<le> c \<and> c \<le> 0x10ffff then Some (c, i + 3)
     else do { j \<leftarrow> skip_trails s i 3; Some (errorValue (j - i) strict, j) })"
proof -
  have by0: "byte_at s i = Some (s ! i)" and by1: "byte_at s (i + 1) = Some (s ! (i + 1))"
    and by2: "byte_at s (i + 2) = Some (s ! (i + 2))"
    using i by (auto simp: byte_at_def)
  have cnt: "U8_COUNT_TRAIL_BYTES b = 3" using b by (simp add: count_trail_cases)
  have mask: "U8_MASK_LEAD_BYTE b 3 = b - 0xf0" using b mod_offset [of b 30 8] by (simp add: mask_lead)
  have min: "utf8_minLegal ! 3 = 0x10000" by (simp add: utf8_minLegal_def)
  have neg: "strict < 0" using st by auto
  let ?x = "s ! i - 0x80" and ?y = "s ! (i + 1) - 0x80" and ?z = "s ! (i + 2) - 0x80"
  let ?c1 = "(b - 0xf0) * 64 + ?x" let ?c2 = "?c1 * 64 + ?y"
  have case1: "next_case1 s (i + 2) ?c2 3 strict =
      Some (if trail (s ! (i + 2)) \<and> 0x10000 \<le> ?c2 * 64 + ?z then Some (?c2 * 64 + ?z, i + 3) else None)"
    using next_case1_eq [OF t by2 neg, of ?c2 3] min by simp
  have case2: "next_case2 s (i + 1) ?c1 3 strict =
      (if trail (s ! (i + 1)) \<and> \<not> (0x360 \<le> ?c2 \<and> ?c2 < 0x380) then next_case1 s (i + 2) ?c2 3 strict else Some None)"
    if "trail (s ! i)" "?c1 < 0x110"
  proof -
    have two: "i + 1 + 1 = i + 2" by simp
    have "0 \<le> ?c1" "?c1 < 0x400" using that b by auto
    from next_case2_eq [OF t by1 st this, of 3] show ?thesis unfolding Let_def two .
  qed
  have case3: "next_case3 s i (b - 0xf0) 3 strict =
      (if trail (s ! i) \<and> ?c1 < 0x110 then next_case2 s (i + 1) ?c1 3 strict else Some None)"
    using next_case3_eq [OF t by0, of "b - 0xf0" 3 strict] by (simp add: Let_def)
  let ?ok = "trail (s ! i) \<and> trail (s ! (i + 1)) \<and> trail (s ! (i + 2)) \<and> 0x10000 \<le> ?c2 * 64 + ?z \<and> ?c2 * 64 + ?z \<le> 0x10ffff"
  have "next_case3 s i (b - 0xf0) 3 strict = Some (if ?ok then Some (?c2 * 64 + ?z, i + 3) else None)"
  proof (cases "trail (s ! i) \<and> trail (s ! (i + 1)) \<and> trail (s ! (i + 2))")
    case True
    then have "(?c1 < 0x110) = (?c2 * 64 + ?z \<le> 0x10ffff)" "0x360 \<le> ?c2 \<and> ?c2 < 0x380 \<longrightarrow> \<not> 0x10000 \<le> ?c2 * 64 + ?z"
      by auto
    then show ?thesis using case1 case2 case3 True by auto
  next
    case False
    then show ?thesis using case1 case2 case3 by auto
  qed
  then show ?thesis
    unfolding utf8_nextCharSafeBody_def Let_def cnt mask using i by auto
qed

lemma body2_eq:
  assumes t: "u8_text s" and i: "i + 1 \<le> length s" and b: "0xc0 \<le> b" "b < 0xe0" and st: "strict \<in> {- 1, - 3}"
  shows "utf8_nextCharSafeBody s i (int (length s)) b strict =
    (let z = s ! i - 0x80; c = (b - 0xc0) * 64 + z in
     if trail (s ! i) \<and> 0x80 \<le> c then Some (c, i + 1)
     else do { j \<leftarrow> skip_trails s i 1; Some (errorValue (j - i) strict, j) })"
proof -
  have by0: "byte_at s i = Some (s ! i)" using i by (auto simp: byte_at_def)
  have cnt: "U8_COUNT_TRAIL_BYTES b = 1" using b by (simp add: count_trail_cases)
  have mask: "U8_MASK_LEAD_BYTE b 1 = b - 0xc0" unfolding mask_lead using b mod_offset [of b 6 32] by simp
  have min: "utf8_minLegal ! 1 = 0x80" by (simp add: utf8_minLegal_def)
  have neg: "strict < 0" using st by auto
  show ?thesis
    unfolding utf8_nextCharSafeBody_def Let_def cnt mask
    using i next_case1_eq [OF t by0 neg, of "b - 0xc0" 1] min by auto
qed

lemma body_short:
  assumes "0 \<le> b" and "b < 256"
    and "length s < i + U8_COUNT_TRAIL_BYTES b \<or> U8_COUNT_TRAIL_BYTES b \<notin> {1, 2, 3}" and "i \<le> length s"
  shows "\<exists>n\<le>length s - i. utf8_nextCharSafeBody s i (int (length s)) b strict =
    do { j \<leftarrow> skip_trails s i n; Some (errorValue (j - i) strict, j) }"
proof (cases "length s < i + U8_COUNT_TRAIL_BYTES b")
  case True
  have "nat (int (length s) - int i) = length s - i" by simp
  then show ?thesis using True by (auto simp: utf8_nextCharSafeBody_def Let_def intro!: exI [of _ "length s - i"])
next
  case False
  then show ?thesis
    using assms(3) by (auto simp: utf8_nextCharSafeBody_def Let_def intro!: exI [of _ "U8_COUNT_TRAIL_BYTES b"])
qed

section \<open>Encoding by digits\<close>

lemma div_4096: "c div 4096 = c div 64 div 64" for c :: int
  by (simp add: zdiv_zmult2_eq [symmetric])

lemma div_262144: "c div 262144 = c div 64 div 64 div 64" for c :: int
  by (simp add: zdiv_zmult2_eq [symmetric])

lemma digit: "0 \<le> z \<Longrightarrow> z < 64 \<Longrightarrow> (x * 64 + z) div 64 = x \<and> (x * 64 + z) mod 64 = z" for x z :: int
  by simp

lemma encode2:
  assumes "0 \<le> z" "z < 64" "0x80 \<le> x * 64 + z" "x < 32"
  shows "utf8_encode (x * 64 + z) = [0xc0 + x, 0x80 + z]"
  using assms digit [of z x] by (auto simp: utf8_encode_def)

lemma encode3:
  assumes "0 \<le> z" "z < 64" "0 \<le> y" "y < 64" "0x800 \<le> (x * 64 + y) * 64 + z" "x < 16"
  shows "utf8_encode ((x * 64 + y) * 64 + z) = [0xe0 + x, 0x80 + y, 0x80 + z]"
proof -
  have "x \<le> 15" "y \<le> 63" "z \<le> 63" using assms by simp_all
  then have "(x * 64 + y) * 64 + z \<le> (15 * 64 + 63) * 64 + 63" by (intro add_mono mult_right_mono) simp_all
  then have "(x * 64 + y) * 64 + z < 0x10000" by simp
  moreover have "\<not> (x * 64 + y) * 64 + z < 0x80" "\<not> (x * 64 + y) * 64 + z < 0x800" using assms by linarith+
  ultimately show ?thesis using digit [of z "x * 64 + y"] digit [of y x] assms by (simp add: utf8_encode_def div_4096)
qed

lemma encode4:
  assumes "0 \<le> z" "z < 64" "0 \<le> y" "y < 64" "0 \<le> x" "x < 64" "0x10000 \<le> ((w * 64 + x) * 64 + y) * 64 + z"
  shows "utf8_encode (((w * 64 + x) * 64 + y) * 64 + z) = [0xf0 + w, 0x80 + x, 0x80 + y, 0x80 + z]"
proof -
  let ?c = "((w * 64 + x) * 64 + y) * 64 + z"
  have "\<not> ?c < 0x80" "\<not> ?c < 0x800" "\<not> ?c < 0x10000" using assms by linarith+
  then show ?thesis
    using digit [of z "(w * 64 + x) * 64 + y"] digit [of y "w * 64 + x"] digit [of x w] assms
    by (simp add: utf8_encode_def div_4096 div_262144)
qed

text \<open>The digits of a code point and what they imply for the bytes of its encoding.\<close>

lemma digits: "c = (c div 64) * 64 + c mod 64" "0 \<le> c mod 64" "c mod 64 < 64" for c :: int
  by simp_all

lemma encoded_nth:
  assumes "encoded_at s i c" and "k < length (utf8_encode c)"
  shows "i + k < length s" and "s ! (i + k) = utf8_encode c ! k"
proof -
  have e: "take (length (utf8_encode c)) (drop i s) = utf8_encode c" using assms(1) by (simp add: encoded_at_def)
  have "length (take (length (utf8_encode c)) (drop i s)) = length (utf8_encode c)" using e by simp
  then show k: "i + k < length s" using assms(2) by simp
  have "take (length (utf8_encode c)) (drop i s) ! k = utf8_encode c ! k" using e by simp
  then show "s ! (i + k) = utf8_encode c ! k" using assms(2) k by simp
qed

lemma encoded_atI:
  assumes "scalar c" and "i + length (utf8_encode c) \<le> length s"
    and "\<And>k. k < length (utf8_encode c) \<Longrightarrow> s ! (i + k) = utf8_encode c ! k"
  shows "encoded_at s i c"
  unfolding encoded_at_def
proof (intro conjI nth_equalityI)
  show "length (take (length (utf8_encode c)) (drop i s)) = length (utf8_encode c)" using assms(2) by simp
qed (use assms in simp_all)

section \<open>Forward access\<close>

lemma inline3:
  fixes b y z :: int
  assumes "0 \<le> y" "y < 64" "0 \<le> z" "z < 64" and "0xe0 \<le> b" "b < 0xf0"
  shows "(push_bit 12 b OR push_bit 6 y OR z) mod 0x10000 = ((b - 0xe0) * 64 + y) * 64 + z"
proof -
  have "push_bit 6 y OR z = y * 64 + z" using assms by (intro mul_or)
  moreover have "y \<le> 63" "z \<le> 63" using assms by simp_all
  then have "y * 64 + z \<le> 63 * 64 + 63" by (intro add_mono mult_right_mono) simp_all
  then have "push_bit 12 b OR (y * 64 + z) = (y * 64 + z) + b * 4096"
    using or_disjoint [of "y * 64 + z" 12 b] assms by (simp add: or.commute push_bit_eq_mult)
  moreover have "(y * 64 + z + b * 4096) mod 0x10000 = y * 64 + z + b * 4096 - 14 * 0x10000"
  proof (rule mod_offset)
    have "b \<le> 239" using assms by simp
    then show "y * 64 + z + b * 4096 - 14 * 0x10000 < 0x10000" using \<open>y * 64 + z \<le> 63 * 64 + 63\<close> by simp
  qed (use assms in simp)
  ultimately show ?thesis by simp
qed

lemma U8_NEXT_body:
  assumes t: "u8_text s" and i: "i < length s" and st: "strict \<in> {- 1, - 3}"
  shows "U8_NEXT_strict strict s i (int (length s)) =
    (if s ! i < 0x80 then Some (s ! i, i + 1) else utf8_nextCharSafeBody s (i + 1) (int (length s)) (s ! i) strict)"
proof -
  let ?b = "s ! i" and ?n = "int (length s)"
  have b0: "byte_at s i = Some ?b" "0 \<le> ?b" "?b < 256" using byte_at_next [OF t i] by auto
  consider "?b < 0x80"
    | "0xe0 < ?b" "?b \<le> 0xec" "i + 2 < length s" "trail (s ! (i + 1))" "trail (s ! (i + 2))"
    | "0xc2 \<le> ?b" "?b < 0xe0" "i + 1 < length s" "trail (s ! (i + 1))"
    | "0x80 \<le> ?b" "\<not> (0xe0 < ?b \<and> ?b \<le> 0xec \<and> i + 2 < length s \<and> trail (s ! (i + 1)) \<and> trail (s ! (i + 2)))"
      "\<not> (0xc2 \<le> ?b \<and> ?b < 0xe0 \<and> i + 1 < length s \<and> trail (s ! (i + 1)))"
    by linarith
  then show ?thesis
  proof cases
    case 1
    then show ?thesis using b0 by (simp add: U8_NEXT_strict_def)
  next
    case 2
    then have "U8_NEXT_strict strict s i ?n = Some (((?b - 0xe0) * 64 + (s ! (i + 1) - 0x80)) * 64 + (s ! (i + 2) - 0x80), i + 3)"
      using b0 byte_at_next [OF t, of "i + 1"] byte_at_next [OF t, of "i + 2"]
        inline3 [of "s ! (i + 1) - 0x80" "s ! (i + 2) - 0x80" ?b]
      by (simp add: U8_NEXT_strict_def Let_def trail_mod)
    then show ?thesis using 2 body3_eq [OF t, of "i + 1" ?b strict] st by (simp add: Let_def)
  next
    case 3
    then have "U8_NEXT_strict strict s i ?n = Some ((?b - 0xc0) * 64 + (s ! (i + 1) - 0x80), i + 2)"
      using b0 byte_at_next [OF t, of "i + 1"] mul_or [of "s ! (i + 1) - 0x80" "?b - 0xc0"] mod_offset [of ?b 6 32]
      by (simp add: U8_NEXT_strict_def Let_def trail_mod and_1f)
    then show ?thesis using 3 body2_eq [OF t, of "i + 1" ?b strict] st by (simp add: Let_def)
  next
    case 4
    let ?v = "\<lambda>j. (s ! j - 0x80) mod 256"
    have v: "?v j \<le> 0x3f \<longleftrightarrow> trail (s ! j)" if "j < length s" for j
      using trail_mod [of "s ! j"] byte_at_next [OF t that] by auto
    show ?thesis
    proof (cases "0xe0 < ?b \<and> ?b \<le> 0xec \<and> i + 2 < length s")
      case True
      then have "byte_at s (i + 1) = Some (s ! (i + 1))" "byte_at s (i + 2) = Some (s ! (i + 2))"
        "\<not> (?v (i + 1) \<le> 0x3f \<and> ?v (i + 2) \<le> 0x3f)" "int (i + 1) + 1 < ?n"
        using 4 v [of "i + 1"] v [of "i + 2"] by (auto simp: byte_at_Some)
      then show ?thesis
        using True b0 by (cases "?v (i + 1) \<le> 0x3f") (simp_all add: U8_NEXT_strict_def Let_def)
    next
      case False
      then have no3: "\<not> (0xe0 < ?b \<and> ?b \<le> 0xec \<and> int (i + 1) + 1 < ?n)" by auto
      show ?thesis
      proof (cases "0xc2 \<le> ?b \<and> ?b < 0xe0 \<and> i + 1 < length s")
        case True
        then have "byte_at s (i + 1) = Some (s ! (i + 1))" "\<not> ?v (i + 1) \<le> 0x3f"
          using 4 v [of "i + 1"] by (auto simp: byte_at_Some)
        then show ?thesis using no3 b0 4(1) by (auto simp: U8_NEXT_strict_def Let_def)
      next
        case False
        then have "\<not> (?b < 0xe0 \<and> 0xc2 \<le> ?b \<and> int (i + 1) \<noteq> ?n)" using i by auto
        then show ?thesis using no3 b0 4(1) by (auto simp: U8_NEXT_strict_def Let_def)
      qed
    qed
  qed
qed

lemma errorValue_const: "strict < 0 \<Longrightarrow> errorValue n strict = errorValue 0 strict"
  by (simp add: errorValue_def)

text \<open>What a forward step may do: read one encoded code point, or report an error after at least one byte.\<close>

definition next_ok :: "int \<Rightarrow> bytes \<Rightarrow> nat \<Rightarrow> (UChar32 \<times> nat) option \<Rightarrow> bool" where
  "next_ok strict s i r \<longleftrightarrow> (\<exists>c i'. r = Some (c, i') \<and> i < i' \<and> i' \<le> length s \<and>
     (encoded_at s i c \<and> i' = i + length (utf8_encode c) \<or> c = errorValue 0 strict))"

lemma next_ok_error:
  assumes "u8_text s" and "i + 1 + n \<le> length s" and "strict < 0"
  shows "next_ok strict s i (do { j \<leftarrow> skip_trails s (i + 1) n; Some (errorValue (j - (i + 1)) strict, j) })"
proof -
  obtain j where "skip_trails s (i + 1) n = Some j" "i + 1 \<le> j" "j \<le> i + 1 + n"
    using skip_trails_bounds [OF assms(1,2)] by blast
  then show ?thesis using assms(2) errorValue_const [OF assms(3), of "j - (i + 1)"] by (simp add: next_ok_def)
qed

lemma next_ok_char:
  assumes "utf8_encode c = bs" and "scalar c" and "i + length bs \<le> length s"
    and "\<And>k. k < length bs \<Longrightarrow> s ! (i + k) = bs ! k" and "bs \<noteq> []"
  shows "next_ok strict s i (Some (c, i + length bs))"
  using encoded_atI [of c i s] assms by (auto simp: next_ok_def)

lemma next_total:
  assumes t: "u8_text s" and i: "i < length s" and st: "strict \<in> {- 1, - 3}"
  shows "next_ok strict s i (U8_NEXT_strict strict s i (int (length s)))"
proof -
  let ?b = "s ! i"
  have b: "0 \<le> ?b" "?b < 256" using byte_at_next [OF t i] by auto
  have neg: "strict < 0" using st by auto
  note nxt = U8_NEXT_body [OF t i st]
  have ar: "i + 1 + 1 = i + 2" "i + 1 + 2 = i + 3" "i + 1 + 3 = i + 4" by simp_all
  have err: "next_ok strict s i r"
    if "r = do { j \<leftarrow> skip_trails s (i + 1) n; Some (errorValue (j - (i + 1)) strict, j) }" "i + 1 + n \<le> length s" for r n
    unfolding that(1) using t that(2) neg by (rule next_ok_error)
  have "?b < 0x80 \<or> 0xc0 \<le> ?b \<and> ?b < 0xe0 \<and> i + 1 < length s \<or>
      0xe0 \<le> ?b \<and> ?b < 0xf0 \<and> i + 2 < length s \<or> 0xf0 \<le> ?b \<and> ?b < 0xf8 \<and> i + 3 < length s \<or>
      0x80 \<le> ?b \<and> (length s < i + 1 + U8_COUNT_TRAIL_BYTES ?b \<or> U8_COUNT_TRAIL_BYTES ?b \<notin> {1, 2, 3})"
    using count_trail_cases [OF b] by (auto split: if_splits)
  then consider (one) "?b < 0x80" | (two) "0xc0 \<le> ?b" "?b < 0xe0" "i + 1 < length s"
    | (three) "0xe0 \<le> ?b" "?b < 0xf0" "i + 2 < length s" | (four) "0xf0 \<le> ?b" "?b < 0xf8" "i + 3 < length s"
    | (bad) "0x80 \<le> ?b" "length s < i + 1 + U8_COUNT_TRAIL_BYTES ?b \<or> U8_COUNT_TRAIL_BYTES ?b \<notin> {1, 2, 3}"
    by blast
  then show ?thesis
  proof cases
    case one
    then have "next_ok strict s i (Some (?b, i + length [?b]))"
      using b i by (intro next_ok_char) (auto simp: utf8_encode_def scalar_def)
    then show ?thesis using nxt one by simp
  next
    case two
    let ?z = "s ! (i + 1) - 0x80"
    show ?thesis
    proof (cases "trail (s ! (i + 1)) \<and> 0x80 \<le> (?b - 0xc0) * 64 + ?z")
      case True
      then have "next_ok strict s i (Some ((?b - 0xc0) * 64 + ?z, i + length [?b, s ! (i + 1)]))"
        using two encode2 [of ?z "?b - 0xc0"]
        by (intro next_ok_char) (auto simp: scalar_def nth_Cons' less_Suc_eq)
      then show ?thesis
        unfolding nxt using two True body2_eq [OF t _ two(1,2) st, of "i + 1", unfolded Let_def ar] by simp
    next
      case False
      then show ?thesis
        unfolding nxt using two body2_eq [OF t _ two(1,2) st, of "i + 1", unfolded Let_def ar]
        by (intro err [of _ 1]) (auto simp del: skip_trails.simps One_nat_def)
    qed
  next
    case three
    let ?y = "s ! (i + 1) - 0x80" and ?z = "s ! (i + 2) - 0x80"
    let ?c = "((?b - 0xe0) * 64 + ?y) * 64 + ?z"
    show ?thesis
    proof (cases "trail (s ! (i + 1)) \<and> trail (s ! (i + 2)) \<and> 0x800 \<le> ?c \<and> \<not> (0xd800 \<le> ?c \<and> ?c \<le> 0xdfff)")
      case True
      then have "next_ok strict s i (Some (?c, i + length [?b, s ! (i + 1), s ! (i + 2)]))"
        using three encode3 [of ?z ?y "?b - 0xe0"]
        by (intro next_ok_char) (auto simp: scalar_def nth_Cons' less_Suc_eq numeral_2_eq_2)
      then show ?thesis
        unfolding nxt using three True body3_eq [OF t _ three(1,2) st, of "i + 1", unfolded Let_def ar]
        by (simp add: eval_nat_numeral)
    next
      case False
      then show ?thesis
        unfolding nxt using three body3_eq [OF t _ three(1,2) st, of "i + 1", unfolded Let_def ar]
        by (intro err [of _ 2]) (auto simp del: skip_trails.simps)
    qed
  next
    case four
    let ?x = "s ! (i + 1) - 0x80" and ?y = "s ! (i + 2) - 0x80" and ?z = "s ! (i + 3) - 0x80"
    let ?c = "(((?b - 0xf0) * 64 + ?x) * 64 + ?y) * 64 + ?z"
    show ?thesis
    proof (cases "trail (s ! (i + 1)) \<and> trail (s ! (i + 2)) \<and> trail (s ! (i + 3)) \<and> 0x10000 \<le> ?c \<and> ?c \<le> 0x10ffff")
      case True
      then have "next_ok strict s i (Some (?c, i + length [?b, s ! (i + 1), s ! (i + 2), s ! (i + 3)]))"
        using four encode4 [of ?z ?y ?x "?b - 0xf0"]
        by (intro next_ok_char) (auto simp: scalar_def nth_Cons' less_Suc_eq numeral_2_eq_2 numeral_3_eq_3)
      then show ?thesis
        unfolding nxt using four True body4_eq [OF t _ four(1,2) st, of "i + 1", unfolded Let_def ar]
        by (simp add: eval_nat_numeral)
    next
      case False
      then show ?thesis
        unfolding nxt using four body4_eq [OF t _ four(1,2) st, of "i + 1", unfolded Let_def ar]
        by (intro err [of _ 3]) (auto simp del: skip_trails.simps)
    qed
  next
    case bad
    obtain n where n: "n \<le> length s - (i + 1)"
        "utf8_nextCharSafeBody s (i + 1) (int (length s)) ?b strict = do { j \<leftarrow> skip_trails s (i + 1) n; Some (errorValue (j - (i + 1)) strict, j) }"
      using body_short [OF b bad(2), of strict] i by auto
    then show ?thesis using nxt bad next_ok_error [OF t, of i n strict] i neg by simp
  qed
qed

text \<open>The bytes of an encoded code point, in terms of its digits to the base 64.\<close>

lemma encoded_cases:
  assumes e: "encoded_at s i c"
  obtains
    (one) "0 \<le> c" "c < 0x80" "i < length s" "s ! i = c" "utf8_encode c = [c]"
  | (two) x z where "c = x * 64 + z" "0 \<le> z" "z < 64" "2 \<le> x" "x < 32" "i + 1 < length s"
      "s ! i = 0xc0 + x" "s ! (i + 1) = 0x80 + z" "length (utf8_encode c) = 2"
  | (three) x y z where "c = (x * 64 + y) * 64 + z" "0 \<le> z" "z < 64" "0 \<le> y" "y < 64" "0 \<le> x" "x < 16"
      "0x800 \<le> c" "\<not> (0xd800 \<le> c \<and> c \<le> 0xdfff)" "i + 2 < length s"
      "s ! i = 0xe0 + x" "s ! (i + 1) = 0x80 + y" "s ! (i + 2) = 0x80 + z" "length (utf8_encode c) = 3"
  | (four) w x y z where "c = ((w * 64 + x) * 64 + y) * 64 + z" "0 \<le> z" "z < 64" "0 \<le> y" "y < 64" "0 \<le> x" "x < 64"
      "0 \<le> w" "w < 5" "0x10000 \<le> c" "c \<le> 0x10ffff" "i + 3 < length s"
      "s ! i = 0xf0 + w" "s ! (i + 1) = 0x80 + x" "s ! (i + 2) = 0x80 + y" "s ! (i + 3) = 0x80 + z"
      "length (utf8_encode c) = 4"
proof -
  have sc: "0 \<le> c" "c \<le> 0x10ffff" "\<not> (0xd800 \<le> c \<and> c \<le> 0xdfff)" using e by (auto simp: encoded_at_def scalar_def)
  note nth = encoded_nth [OF e]
  have digit_ex: "\<exists>q r. n = q * 64 + r \<and> 0 \<le> r \<and> r < 64" for n :: int
    using div_mult_mod_eq [of n 64] by (intro exI [of _ "n div 64"] exI [of _ "n mod 64"]) simp
  obtain c1 z where z: "c = c1 * 64 + z" "0 \<le> z" "z < 64" using digit_ex by blast
  obtain c2 y where y: "c1 = c2 * 64 + y" "0 \<le> y" "y < 64" using digit_ex by blast
  obtain c3 x where x: "c2 = c3 * 64 + x" "0 \<le> x" "x < 64" using digit_ex by blast
  consider "c < 0x80" | "0x80 \<le> c" "c < 0x800" | "0x800 \<le> c" "c < 0x10000" | "0x10000 \<le> c" by linarith
  then show thesis
  proof cases
    case 1
    then have "utf8_encode c = [c]" by (simp add: utf8_encode_def)
    then show thesis using one sc 1 nth [of 0] by simp
  next
    case 2
    have c1: "2 \<le> c1" "c1 < 32" using 2 z by linarith+
    then have enc: "utf8_encode c = [0xc0 + c1, 0x80 + z]" using encode2 [OF z(2,3), of c1] 2 z(1) by simp
    show thesis using nth [of 0] nth [of 1] unfolding enc by (intro two [OF z c1]) (simp_all add: enc)
  next
    case 3
    have c: "c = (c2 * 64 + y) * 64 + z" using z(1) y(1) by simp
    have c2: "0 \<le> c2" "c2 < 16" using 3 z y by linarith+
    have enc: "utf8_encode c = [0xe0 + c2, 0x80 + y, 0x80 + z]"
      using encode3 [OF z(2,3) y(2,3) _ c2(2)] 3 c by simp
    show thesis
      using nth [of 0] nth [of 1] nth [of 2] unfolding enc
      by (intro three [OF c z(2,3) y(2,3) c2 3(1) sc(3)]) (simp_all add: enc)
  next
    case 4
    have c: "c = ((c3 * 64 + x) * 64 + y) * 64 + z" using z(1) y(1) x(1) by simp
    have c3: "0 \<le> c3" "c3 < 5" using 4 sc z y x by linarith+
    have enc: "utf8_encode c = [0xf0 + c3, 0x80 + x, 0x80 + y, 0x80 + z]"
      using encode4 [OF z(2,3) y(2,3) x(2,3)] 4 c by simp
    show thesis
      using nth [of 0] nth [of 1] nth [of 2] nth [of 3] unfolding enc
      by (intro four [OF c z(2,3) y(2,3) x(2,3) c3 4 sc(2)]) (simp_all add: enc)
  qed
qed

lemma next_complete:
  assumes t: "u8_text s" and e: "encoded_at s i c" and st: "strict \<in> {- 1, - 3}"
  shows "U8_NEXT_strict strict s i (int (length s)) = Some (c, i + length (utf8_encode c))"
  using e
proof (cases rule: encoded_cases)
  case one
  then show ?thesis using U8_NEXT_body [OF t _ st, of i] by simp
next
  case (two x z)
  then show ?thesis
    using U8_NEXT_body [OF t _ st, of i] body2_eq [OF t _ _ _ st, of "i + 1" "0xc0 + x"] by (simp add: Let_def)
next
  case (three x y z)
  have ar: "i + 1 + 1 = i + 2" "i + 1 + 2 = i + 3" by simp_all
  show ?thesis
    using three U8_NEXT_body [OF t _ st, of i] body3_eq [OF t _ _ _ st, of "i + 1" "0xe0 + x", unfolded Let_def ar] by simp
next
  case (four w x y z)
  have ar: "i + 1 + 1 = i + 2" "i + 1 + 2 = i + 3" "i + 1 + 3 = i + 4" by simp_all
  show ?thesis
    using four U8_NEXT_body [OF t _ st, of i] body4_eq [OF t _ _ _ st, of "i + 1" "0xf0 + w", unfolded Let_def ar] by simp
qed

end
