(* ===== verification/Utf8Text.thy ===== *)
theory Utf8Text
  imports Utf8Props
begin

unbundle bit_operations_syntax

text \<open>
  Backward iteration, skipping and writing of UTF-8 text: \<open>U8_PREV\<close> returns exactly the code point that ends
  at a position, the skipping macros \<open>U8_FWD_1\<close> and \<open>U8_BACK_1\<close> agree with the reading ones, and
  \<open>U8_APPEND\<close> writes what they read.
\<close>

section \<open>Backward access\<close>

fun tval :: "bytes \<Rightarrow> nat \<Rightarrow> nat \<Rightarrow> int" where
  "tval s i 0 = 0"
| "tval s i (Suc n) = (s ! i - 0x80) * 64 ^ n + tval s (Suc i) n"

lemma or_digit: "0 \<le> c \<Longrightarrow> c < 64 ^ n \<Longrightarrow> c OR push_bit (6 * n) x = c + x * 64 ^ n" for c x :: int
  using or_disjoint [of c "6 * n" x] by (simp add: power_mult push_bit_eq_mult)

lemma bit_40: "0 \<le> b \<Longrightarrow> b < 256 \<Longrightarrow> (b AND 0x40 \<noteq> 0) = odd (b div 64)" for b :: int
proof -
  have "b AND 0x40 = (b div 64 mod 2) * 64"
    using and_push_mask [of b 6 1] by (simp add: mask_eq_exp_minus_1 push_bit_eq_mult)
  then show ?thesis by (simp add: odd_iff_mod_2_eq_one)
qed

lemma prev_lead_byte:
  fixes b :: int
  assumes "0 \<le> b" and "b < 256"
  shows "(b - 0x80) mod 256 < 0x7e \<longleftrightarrow> 0x80 \<le> b \<and> b < 0xfe"
    and "0x80 \<le> b \<Longrightarrow> (b AND 0x40 \<noteq> 0) \<longleftrightarrow> 0xc0 \<le> b"
proof -
  show "(b - 0x80) mod 256 < 0x7e \<longleftrightarrow> 0x80 \<le> b \<and> b < 0xfe" using assms by (auto simp: trail_mod)
  assume b: "0x80 \<le> b"
  have "b div 64 = (if 0xc0 \<le> b then 3 else 2)"
    using assms(2) b by (cases "0xc0 \<le> b") (auto intro: int_div_pos_eq [of b 64 3 "b - 0xc0"] int_div_pos_eq [of b 64 2 "b - 0x80"])
  then show "(b AND 0x40 \<noteq> 0) \<longleftrightarrow> 0xc0 \<le> b" unfolding bit_40 [OF assms] by auto
qed

lemma prev_step:
  assumes t: "u8_text s" and i: "start < i" "i \<le> length s" and c: "0 \<le> c" "c < 64 ^ count"
  shows "prev_loop s start pi i c count (6 * count) strict =
    (let b = s ! (i - 1) in
     if b < 0x80 \<or> 0xfe \<le> b then Some (errorValue 0 strict, pi)
     else if 0xc0 \<le> b then
       (let shouldCount = U8_COUNT_TRAIL_BYTES b in
        if count = shouldCount then
          (let c = c + U8_MASK_LEAD_BYTE b count * 64 ^ count in
           if count \<ge> 4 \<or> c > 0x10ffff \<or> c < utf8_minLegal ! count \<or> (U_IS_SURROGATE c \<and> strict \<noteq> - 2) \<or>
              (strict > 0 \<and> U_IS_UNICODE_NONCHAR c)
           then Some (errorValue (if count \<ge> 4 then 3 else count) strict, i - 1)
           else Some (c, i - 1))
        else if count < shouldCount then Some (errorValue count strict, i - 1)
        else Some (errorValue 0 strict, pi))
     else if count < 5
     then prev_loop s start pi (i - 1) (c + (b - 0x80) * 64 ^ count) (count + 1) (6 * (count + 1)) strict
     else Some (errorValue 0 strict, pi))"
proof -
  let ?b = "s ! (i - 1)"
  have b: "byte_at s (i - 1) = Some ?b" "0 \<le> ?b" "?b < 256" using byte_at_next [OF t, of "i - 1"] i by auto
  note lead = prev_lead_byte [OF b(2,3)]
  have trail: "?b AND 0x3f = ?b - 0x80" if "0x80 \<le> ?b" "\<not> 0xc0 \<le> ?b"
    using that mod_offset [of ?b 2 64] by (simp add: and_3f)
  have sh: "6 * count + 6 = 6 * (count + 1)" by simp
  show ?thesis
    apply (subst prev_loop.simps)
    using i b lead trail unfolding or_digit [OF c] sh Let_def
    by simp
qed

lemma tval_bounds:
  assumes "\<forall>j<n. trail (s ! (i + j))"
  shows "0 \<le> tval s i n \<and> tval s i n < 64 ^ n"
  using assms
proof (induction n arbitrary: i)
  case (Suc n)
  have tr: "trail (s ! i)" using Suc.prems by force
  have IH: "0 \<le> tval s (Suc i) n" "tval s (Suc i) n < 64 ^ n" 
  proof -
    have "trail (s ! (Suc i + j))" if "j < n" for j using Suc.prems [rule_format, of "Suc j"] that by simp
    then show "0 \<le> tval s (Suc i) n" "tval s (Suc i) n < 64 ^ n" using Suc.IH [of "Suc i"] by auto
  qed
  have "(s ! i - 0x80) * 64 ^ n \<le> 63 * 64 ^ n" using tr by (intro mult_right_mono) auto
  then have "(s ! i - 0x80) * 64 ^ n + tval s (Suc i) n < 64 * 64 ^ n" using IH(2) by linarith
  moreover have "0 \<le> (s ! i - 0x80) * 64 ^ n" using tr by (intro mult_nonneg_nonneg) auto
  ultimately show ?case using IH(1) by simp
qed simp

text \<open>What a backward step may do from position \<open>i\<close>.\<close>

definition prev_ok :: "int \<Rightarrow> bytes \<Rightarrow> nat \<Rightarrow> nat \<Rightarrow> (UChar32 \<times> nat) option \<Rightarrow> bool" where
  "prev_ok strict s start i r \<longleftrightarrow> (\<exists>c i'. r = Some (c, i') \<and> start \<le> i' \<and> i' < i \<and>
     (encoded_at s i' c \<and> i' + length (utf8_encode c) = i \<or> c = errorValue 0 strict))"

lemma prev_ok_error: "start \<le> j \<Longrightarrow> j < i \<Longrightarrow> strict < 0 \<Longrightarrow> prev_ok strict s start i (Some (errorValue n strict, j))"
  using errorValue_const [of strict n] by (auto simp: prev_ok_def)

lemma prev_ok_char:
  assumes "utf8_encode c = bs" and "scalar c" and "j + length bs = i" and "i \<le> length s" and "start \<le> j" and "bs \<noteq> []"
    and "\<And>k. k < length bs \<Longrightarrow> s ! (j + k) = bs ! k"
  shows "prev_ok strict s start i (Some (c, j))"
  using encoded_atI [of c j s] assms by (auto simp: prev_ok_def)

lemma prev_lead:
  assumes t: "u8_text s" and j: "start \<le> j" "j + count + 1 \<le> length s" and b: "0xc0 \<le> s ! j" "s ! j < 0xfe"
    and tr: "\<forall>k<count. trail (s ! (j + 1 + k))" and cnt: "count = U8_COUNT_TRAIL_BYTES (s ! j)" "count < 4"
    and c: "c = tval s (j + 1) count + U8_MASK_LEAD_BYTE (s ! j) count * 64 ^ count"
    and legal: "c \<le> 0x10ffff" "utf8_minLegal ! count \<le> c" "\<not> U_IS_SURROGATE c"
  shows "prev_ok strict s start (j + count + 1) (Some (c, j))"
proof -
  have bb: "0 \<le> s ! j" "s ! j < 256" using b by auto
  have sc: "scalar c" if "0 \<le> c" using legal surrogate_range [of c] that by (auto simp: scalar_def)
  note cc = count_trail_cases [OF bb]
  consider "count = 1" | "count = 2" | "count = 3" using cc cnt b by (auto split: if_splits)
  then show ?thesis
  proof cases
    case 1
    have r: "s ! j < 0xe0" using cc cnt 1 b by (auto split: if_splits)
    have c': "c = (s ! j - 0xc0) * 64 + (s ! (j + 1) - 0x80)"
      using c 1 b r mask_lead(1) [of "s ! j"] mod_offset [of "s ! j" 6 32] by simp
    have z: "trail (s ! (j + 1))" using tr 1 by force
    have "0x80 \<le> c" using legal 1 by (simp add: utf8_minLegal_def)
    then show ?thesis
      using encode2 [of "s ! (j + 1) - 0x80" "s ! j - 0xc0"] z r sc 1 j c'
      by (intro prev_ok_char [where bs = "[s ! j, s ! (j + 1)]"]) (auto simp: less_Suc_eq)
  next
    case 2
    have r: "0xe0 \<le> s ! j" "s ! j < 0xf0" using cc cnt 2 b by (auto split: if_splits)
    have c': "c = ((s ! j - 0xe0) * 64 + (s ! (j + 1) - 0x80)) * 64 + (s ! (j + 2) - 0x80)"
      using c 2 r mask_lead(2) [of "s ! j"] mod_offset [of "s ! j" 14 16] by (simp add: numeral_2_eq_2)
    have z: "trail (s ! (j + 1))" "trail (s ! (j + 2))" 
      using tr [rule_format, of 0] tr [rule_format, of 1] 2 by simp_all
    have "0x800 \<le> c" using legal 2 by (simp add: utf8_minLegal_def)
    then show ?thesis
      using encode3 [of "s ! (j + 2) - 0x80" "s ! (j + 1) - 0x80" "s ! j - 0xe0"] z r sc 2 j c'
      by (intro prev_ok_char [where bs = "[s ! j, s ! (j + 1), s ! (j + 2)]"]) (auto simp: less_Suc_eq numeral_2_eq_2)
  next
    case 3
    have r: "0xf0 \<le> s ! j" "s ! j < 0xf8" using cc cnt 3 b by (auto split: if_splits)
    have c': "c = (((s ! j - 0xf0) * 64 + (s ! (j + 1) - 0x80)) * 64 + (s ! (j + 2) - 0x80)) * 64 + (s ! (j + 3) - 0x80)"
      using c 3 r mask_lead(3) [of "s ! j"] mod_offset [of "s ! j" 30 8] by (simp add: numeral_3_eq_3 numeral_2_eq_2)
    have z: "trail (s ! (j + 1))" "trail (s ! (j + 2))" "trail (s ! (j + 3))" 
      using tr [rule_format, of 0] tr [rule_format, of 1] tr [rule_format, of 2] 3 by (simp_all add: numeral_3_eq_3)
    have "0x10000 \<le> c" using legal 3 by (simp add: utf8_minLegal_def)
    then show ?thesis
      using encode4 [of "s ! (j + 3) - 0x80" "s ! (j + 2) - 0x80" "s ! (j + 1) - 0x80" "s ! j - 0xf0"] z r sc 3 j c'
      by (intro prev_ok_char [where bs = "[s ! j, s ! (j + 1), s ! (j + 2), s ! (j + 3)]"])
        (auto simp: less_Suc_eq numeral_2_eq_2 numeral_3_eq_3)
  qed
qed

lemma prev_loop_ok:
  assumes t: "u8_text s" and st: "strict \<in> {- 1, - 3}"
  shows "start \<le> i \<Longrightarrow> 1 \<le> count \<Longrightarrow> count \<le> 5 \<Longrightarrow> pi + 1 = i + count \<Longrightarrow> pi < length s \<Longrightarrow>
    \<forall>k<count. trail (s ! (i + k)) \<Longrightarrow>
    prev_ok strict s start (pi + 1) (prev_loop s start pi i (tval s i count) count (6 * count) strict)"
proof (induction i arbitrary: count)
  case 0
  then have "start = 0" by simp
  then have "prev_loop s start pi 0 (tval s 0 count) count (6 * count) strict = Some (errorValue 0 strict, pi)"
    by (subst prev_loop.simps) simp
  then show ?case using 0 st by (auto intro: prev_ok_error)
next
  case (Suc j)
  have neg: "strict < 0" using st by auto
  show ?case
  proof (cases "start < Suc j")
    case False
    then have "prev_loop s start pi (Suc j) (tval s (Suc j) count) count (6 * count) strict = Some (errorValue 0 strict, pi)"
      by (subst prev_loop.simps) simp
    then show ?thesis using Suc.prems neg by (auto intro: prev_ok_error)
  next
    case True
    let ?b = "s ! j" let ?c = "tval s (Suc j) count"
    have bounds: "0 \<le> ?c" "?c < 64 ^ count" using tval_bounds [of count s "Suc j"] Suc.prems(6) by auto
    have len: "Suc j \<le> length s" using Suc.prems(2,4,5) by simp
    note step = prev_step [OF t True len bounds, of pi strict, unfolded Let_def diff_Suc_1]
    have err: "prev_ok strict s start (pi + 1) (Some (errorValue n strict, k))" if "k \<in> {j, pi}" for n k
      using that True Suc.prems(2,4) neg by (intro prev_ok_error) auto
    consider (bad) "?b < 0x80 \<or> 0xfe \<le> ?b" | (lead) "0xc0 \<le> ?b" "?b < 0xfe" | (trail) "trail ?b" by linarith
    then show ?thesis
    proof cases
      case bad
      then show ?thesis unfolding step using err by simp
    next
      case lead
      have tr: "\<forall>k<count. trail (s ! (j + 1 + k))" using Suc.prems(6) by simp
      have e: "j + count + 1 = pi + 1" "j + count + 1 \<le> length s" using Suc.prems(4,5) by simp_all
      have "prev_ok strict s start (pi + 1) (Some (c, j))"
        if "count = U8_COUNT_TRAIL_BYTES ?b" "count < 4" "c = ?c + U8_MASK_LEAD_BYTE ?b count * 64 ^ count"
          "c \<le> 0x10ffff" "utf8_minLegal ! count \<le> c" "\<not> U_IS_SURROGATE c" for c
        using prev_lead [OF t _ e(2) lead tr that(1,2) _ that(4-6), of start strict] that(3) True e(1) by simp
      then show ?thesis
        unfolding step using lead err st by (auto simp: not_less not_le)
    next
      case trail
      show ?thesis
      proof (cases "count < 5")
        case True
        have "prev_ok strict s start (pi + 1)
            (prev_loop s start pi j (tval s j (count + 1)) (count + 1) (6 * (count + 1)) strict)"
        proof (rule Suc.IH)
          show "\<forall>k<count + 1. trail (s ! (j + k))"
          proof (intro allI impI)
            fix k assume "k < count + 1"
            then show "trail (s ! (j + k))" using trail Suc.prems(6) by (cases k) auto
          qed
        qed (use \<open>start < Suc j\<close> True Suc.prems in auto)
        moreover have "tval s j (count + 1) = ?c + (?b - 0x80) * 64 ^ count" by simp
        ultimately show ?thesis unfolding step using trail True by (simp add: add.commute)
      next
        case False
        then show ?thesis unfolding step using trail err by simp
      qed
    qed
  qed
qed

lemma prev_total:
  assumes t: "u8_text s" and i: "start < i" "i \<le> length s" and st: "strict \<in> {- 1, - 3}"
  shows "prev_ok strict s start i (U8_PREV_strict strict s start i)"
proof -
  let ?c = "s ! (i - 1)"
  have b: "byte_at s (i - 1) = Some ?c" "0 \<le> ?c" "?c < 256" using byte_at_next [OF t, of "i - 1"] i by auto
  have neg: "strict < 0" using st by auto
  consider "?c < 0x80" | "trail ?c" | "0xc0 \<le> ?c" by linarith
  then show ?thesis
  proof cases
    case 1
    then have "prev_ok strict s start i (Some (?c, i - 1))"
      using b i by (intro prev_ok_char [where bs = "[?c]"]) (auto simp: utf8_encode_def scalar_def)
    then show ?thesis using 1 b by (simp add: U8_PREV_strict_def)
  next
    case 2
    have "?c AND 0x3f = tval s (i - 1) 1" using 2 mod_offset [of ?c 2 64] by (simp add: and_3f)
    moreover have "prev_ok strict s start (i - 1 + 1) (prev_loop s start (i - 1) (i - 1) (tval s (i - 1) 1) 1 (6 * 1) strict)"
      using i 2 by (intro prev_loop_ok [OF t st]) auto
    ultimately show ?thesis
      using 2 b i is_trail_iff [of ?c] by (simp add: U8_PREV_strict_def utf8_prevCharSafeBody_def)
  next
    case 3
    then show ?thesis
      using b i is_trail_iff [of ?c] prev_ok_error [of start "i - 1" i strict s 0] neg
      by (simp add: U8_PREV_strict_def utf8_prevCharSafeBody_def)
  qed
qed

lemma prev_trail_step:
  assumes "u8_text s" and "start \<le> j" and "j < length s" and "0 \<le> c" and "c < 64 ^ count" and "trail (s ! j)" and "count < 5"
  shows "prev_loop s start pi (j + 1) c count (6 * count) strict =
    prev_loop s start pi j (c + (s ! j - 0x80) * 64 ^ count) (count + 1) (6 * (count + 1)) strict"
  using prev_step [OF assms(1) _ _ assms(4,5), of start "j + 1" pi strict] assms by (simp add: Let_def)

lemma prev_lead_step:
  assumes "u8_text s" and "start \<le> j" and "j < length s" and "0 \<le> c" and "c < 64 ^ count"
    and "0xc0 \<le> s ! j" and "s ! j < 0xf8" and "count = U8_COUNT_TRAIL_BYTES (s ! j)" and "count < 4"
    and "c' = c + U8_MASK_LEAD_BYTE (s ! j) count * 64 ^ count"
    and "c' \<le> 0x10ffff" and "utf8_minLegal ! count \<le> c'" and "\<not> U_IS_SURROGATE c'" and "strict < 0"
  shows "prev_loop s start pi (j + 1) c count (6 * count) strict = Some (c', j)"
  using prev_step [OF assms(1) _ _ assms(4,5), of start "j + 1" pi strict] assms by (simp add: Let_def)

lemma prev_complete:
  assumes t: "u8_text s" and e: "encoded_at s j c" and j: "start \<le> j" and st: "strict \<in> {- 1, - 3}"
  shows "U8_PREV_strict strict s start (j + length (utf8_encode c)) = Some (c, j)"
proof -
  have neg: "strict < 0" using st by auto
  have sc: "0 \<le> c" "c \<le> 0x10ffff" "\<not> U_IS_SURROGATE c"
    using e surrogate_range [of c] by (auto simp: encoded_at_def scalar_def)
  have prev: "U8_PREV_strict strict s start (k + 1) = prev_loop s start k k (s ! k - 0x80) 1 (6 * 1) strict"
    if "k < length s" "trail (s ! k)" for k
    using that byte_at_next [OF t that(1)] is_trail_iff [of "s ! k"] mod_offset [of "s ! k" 2 64]
    by (simp add: U8_PREV_strict_def utf8_prevCharSafeBody_def and_3f)
  from e show ?thesis
  proof (cases rule: encoded_cases)
    case one
    then show ?thesis by (simp add: U8_PREV_strict_def byte_at_Some)
  next
    case (two x z)
    have "prev_loop s start (j + 1) (j + 1) z 1 (6 * 1) strict = Some (c, j)"
      using two j sc neg mask_lead(1) [of "0xc0 + x"] mod_offset [of "0xc0 + x" 6 32]
      by (intro prev_lead_step [OF t]) (auto simp: count_trail_cases utf8_minLegal_def)
    then show ?thesis using prev [of "j + 1"] two by (simp add: numeral_2_eq_2)
  next
    case (three x y z)
    have "prev_loop s start (j + 2) (j + 1 + 1) z 1 (6 * 1) strict =
        prev_loop s start (j + 2) (j + 1) (z + y * 64) 2 (6 * 2) strict"
      using prev_trail_step [OF t, of start "j + 1" z 1 "j + 2" strict] three j by (simp add: numeral_2_eq_2)
    also have "\<dots> = Some (c, j)"
      using three j sc neg mask_lead(2) [of "0xe0 + x"] mod_offset [of "0xe0 + x" 14 16]
      by (intro prev_lead_step [OF t]) (auto simp: count_trail_cases utf8_minLegal_def)
    finally show ?thesis using prev [of "j + 2"] three by (simp add: numeral_2_eq_2 numeral_3_eq_3)
  next
    case (four w x y z)
    have "prev_loop s start (j + 3) (j + 2 + 1) z 1 (6 * 1) strict =
        prev_loop s start (j + 3) (j + 1 + 1) (z + y * 64) 2 (6 * 2) strict"
      using prev_trail_step [OF t, of start "j + 2" z 1 "j + 3" strict] four j by (simp add: numeral_2_eq_2)
    also have "\<dots> = prev_loop s start (j + 3) (j + 1) (z + y * 64 + x * 64 ^ 2) 3 (6 * 3) strict"
      using prev_trail_step [OF t, of start "j + 1" "z + y * 64" 2 "j + 3" strict] four j by simp
    also have "\<dots> = Some (c, j)"
      using four j sc neg mask_lead(3) [of "0xf0 + w"] mod_offset [of "0xf0 + w" 30 8]
      by (intro prev_lead_step [OF t]) (auto simp: count_trail_cases utf8_minLegal_def)
    finally show ?thesis using prev [of "j + 3"] four by (simp add: numeral_2_eq_2 numeral_3_eq_3 eval_nat_numeral)
  qed
qed

section \<open>Skipping agrees with reading\<close>

lemma skip_all_trails:
  "\<forall>k<n. i + k < length s \<and> U8_IS_TRAIL (s ! (i + k)) \<Longrightarrow> skip_trails s i n = Some (i + n)"
proof (induction n arbitrary: i)
  case (Suc n)
  have "skip_trails s (i + 1) n = Some (i + 1 + n)"
    using Suc.prems by (intro Suc.IH) (metis add.assoc add.commute Suc_eq_plus1 Suc_less_eq plus_1_eq_Suc)
  then show ?case using Suc.prems [rule_format, of 0] by (simp add: byte_at_Some)
qed simp

lemma is_lead_iff: "0 \<le> b \<Longrightarrow> b < 256 \<Longrightarrow> U8_IS_LEAD b \<longleftrightarrow> 0xc0 \<le> b \<and> b < 0xfe"
proof -
  assume b: "0 \<le> b" "b < 256"
  have "(b - 0xc0) mod 256 = (if 0xc0 \<le> b then b - 0xc0 else b + 0x40)"
    using mod_add_self2 [of "b - 0xc0" 256] b by (auto simp: mod_pos_pos_trivial)
  then show ?thesis using b by (auto simp: U8_IS_LEAD_def)
qed

lemma FWD_1_skip:
  assumes t: "u8_text s" and i: "i < length s"
  shows "U8_FWD_1 s i (int (length s)) =
    skip_trails s (i + 1) (min (U8_COUNT_TRAIL_BYTES (s ! i)) (length s - (i + 1)))"
proof -
  have b: "byte_at s i = Some (s ! i)" "0 \<le> s ! i" "s ! i < 256" using byte_at_next [OF t i] by auto
  have "\<not> U8_IS_LEAD (s ! i) \<Longrightarrow> U8_COUNT_TRAIL_BYTES (s ! i) = 0"
    using b is_lead_iff [of "s ! i"] count_trail_cases [of "s ! i"] by auto
  moreover have "nat (int (length s) - int (i + 1)) = length s - (i + 1)" by simp
  ultimately show ?thesis using b i by (auto simp: U8_FWD_1_def Let_def min_def)
qed

lemma snd_error: "map_option snd (do { j \<leftarrow> m; Some (f j, j) }) = m"
  by (cases m) simp_all

lemma FWD_1_NEXT:
  assumes t: "u8_text s" and i: "i < length s"
  shows "U8_FWD_1 s i (int (length s)) = map_option snd (U8_NEXT s i (int (length s)))"
proof -
  have st: "(- 1 :: int) \<in> {- 1, - 3}" by simp
  have b: "0 \<le> s ! i" "s ! i < 256" using byte_at_next [OF t i] by auto
  note cnt = count_trail_cases [OF b]
  note nxt = U8_NEXT_body [OF t i st]
  have ar: "i + 1 + 1 = i + 2" "i + 1 + 2 = i + 3" "i + 1 + 3 = i + 4" by simp_all
  consider (ascii) "s ! i < 0x80" | (enc) c where "0x80 \<le> s ! i" "encoded_at s i c" | (bad) "0x80 \<le> s ! i" "\<forall>c. \<not> encoded_at s i c"
    by (meson not_le)
  then show ?thesis
  proof cases
    case ascii
    then show ?thesis unfolding FWD_1_skip [OF t i] U8_NEXT_def nxt using cnt by simp
  next
    case enc
    from enc(2) have "U8_FWD_1 s i (int (length s)) = Some (i + length (utf8_encode c))"
    proof (cases rule: encoded_cases)
      case one
      then show ?thesis using enc by simp
    next
      case (two x z)
      then show ?thesis unfolding FWD_1_skip [OF t i] using skip_all_trails [of 1 "i + 1" s] cnt is_trail_iff [of "0x80 + z"]
        by (simp add: min_def)
    next
      case (three x y z)
      then have "\<forall>k<2. i + 1 + k < length s \<and> U8_IS_TRAIL (s ! (i + 1 + k))"
        using is_trail_iff [of "0x80 + z"] is_trail_iff [of "0x80 + y"] by (auto simp: less_Suc_eq numeral_2_eq_2)
      moreover have "min (U8_COUNT_TRAIL_BYTES (s ! i)) (length s - (i + 1)) = 2" using three cnt by simp
      ultimately show ?thesis unfolding FWD_1_skip [OF t i] using skip_all_trails [of 2 "i + 1" s] three by simp
    next
      case (four w x y z)
      then have "\<forall>k<3. i + 1 + k < length s \<and> U8_IS_TRAIL (s ! (i + 1 + k))"
        using is_trail_iff [of "0x80 + z"] is_trail_iff [of "0x80 + y"] is_trail_iff [of "0x80 + x"]
        by (auto simp: less_Suc_eq numeral_3_eq_3 numeral_2_eq_2)
      moreover have "min (U8_COUNT_TRAIL_BYTES (s ! i)) (length s - (i + 1)) = 3" using four cnt by simp
      ultimately show ?thesis unfolding FWD_1_skip [OF t i] using skip_all_trails [of 3 "i + 1" s] four by simp
    qed
    then show ?thesis using next_complete [OF t enc(2) st] by (simp add: U8_NEXT_def)
  next
    case bad
    let ?body = "utf8_nextCharSafeBody s (i + 1) (int (length s)) (s ! i) (- 1)"
    let ?err = "\<lambda>n. do { j \<leftarrow> skip_trails s (i + 1) n; Some (errorValue (j - (i + 1)) (- 1), j) }"
    have no: "?body \<noteq> Some (c, k)" if "c \<noteq> - 1" for c k
      using next_total [OF t i st] nxt bad that by (auto simp: next_ok_def errorValue_neg)
    have if_no: "?body = r" if "?body = (if P then Some (c, k) else r)" "P \<Longrightarrow> c \<noteq> - 1" for P c k r
      using that no by (cases P) auto
    have "?body = ?err (min (U8_COUNT_TRAIL_BYTES (s ! i)) (length s - (i + 1)))"
    proof (cases "i + 1 + U8_COUNT_TRAIL_BYTES (s ! i) \<le> length s \<and> U8_COUNT_TRAIL_BYTES (s ! i) \<in> {1, 2, 3}")
      case False
      let ?n = "U8_COUNT_TRAIL_BYTES (s ! i)"
      have fit: "(int (i + 1) + int ?n \<le> int (length s) \<or> int (length s) < 0) = (i + 1 + ?n \<le> length s)" by linarith
      have rest: "nat (int (length s) - int (i + 1)) = length s - (i + 1)" by simp
      have min: "min ?n (length s - (i + 1)) = (if i + 1 + ?n \<le> length s then ?n else length s - (i + 1))" using i by auto
      show ?thesis
        unfolding utf8_nextCharSafeBody_def Let_def fit rest min using False
        by (cases "i + 1 + ?n \<le> length s") auto
    next
      case True
      then have min: "min (U8_COUNT_TRAIL_BYTES (s ! i)) (length s - (i + 1)) = U8_COUNT_TRAIL_BYTES (s ! i)" by auto
      from True consider "0xc0 \<le> s ! i" "s ! i < 0xe0" "U8_COUNT_TRAIL_BYTES (s ! i) = 1" | "0xe0 \<le> s ! i" "s ! i < 0xf0" "U8_COUNT_TRAIL_BYTES (s ! i) = 2"
        | "0xf0 \<le> s ! i" "s ! i < 0xf8" "U8_COUNT_TRAIL_BYTES (s ! i) = 3"
        using cnt by (auto split: if_splits)
      then show ?thesis
      proof cases
        case 1
        then show ?thesis
          unfolding min using True if_no [OF body2_eq [OF t _ 1(1,2) st, of "i + 1", unfolded Let_def ar]]
          by (simp del: skip_trails.simps)
      next
        case 2
        then show ?thesis
          unfolding min using True if_no [OF body3_eq [OF t _ 2(1,2) st, of "i + 1", unfolded Let_def ar]]
          by (simp del: skip_trails.simps)
      next
        case 3
        then show ?thesis
          unfolding min using True if_no [OF body4_eq [OF t _ 3(1,2) st, of "i + 1", unfolded Let_def ar]]
          by (simp del: skip_trails.simps)
      qed
    qed
    then have "map_option snd ?body = skip_trails s (i + 1) (min (U8_COUNT_TRAIL_BYTES (s ! i)) (length s - (i + 1)))"
      by (simp only: snd_error)
    then show ?thesis unfolding FWD_1_skip [OF t i] U8_NEXT_def nxt using bad(1) by simp
  qed
qed


lemma back1_prev_loop:
  assumes t: "u8_text s" and Z: "Z = (if start + 5 < pi then pi - 5 else start)" and pi: "pi < length s"
  shows "start \<le> i \<Longrightarrow> 1 \<le> count \<Longrightarrow> count \<le> 5 \<Longrightarrow> pi + 1 = i + count \<Longrightarrow>
    map_option snd (prev_loop s start pi i c count shift strict) =
    (if Z < i then back1_loop s Z pi (i - 1) else Some pi)"
proof (induction i arbitrary: count c shift)
  case 0
  then show ?case using Z by (subst prev_loop.simps) simp
next
  case (Suc j)
  show ?case
  proof (cases "start < Suc j")
    case False
    then show ?thesis using Suc.prems Z by (subst prev_loop.simps) auto
  next
    case True
    let ?b = "s ! j"
    have b: "byte_at s j = Some ?b" "0 \<le> ?b" "?b < 256" using byte_at_next [OF t, of j] Suc.prems pi by auto
    have Zi: "Z < Suc j" using Suc.prems True Z by auto
    have lead: "(?b AND 64 = 0) = (?b < 0xc0)" if "0x80 \<le> ?b" using prev_lead_byte(2) [OF b(2,3) that] by linarith
    have d: "pi - j = count" using Suc.prems by simp
    note range = prev_lead_byte(1) [OF b(2,3)]
    consider (bad) "?b < 0x80 \<or> 0xfe \<le> ?b" | (lead) "0xc0 \<le> ?b" "?b < 0xfe" | (trail) "trail ?b" by linarith
    then show ?thesis
    proof cases
      case bad
      then show ?thesis using True Zi b range by (subst prev_loop.simps, subst back1_loop.simps) auto
    next
      case lead
      then show ?thesis using True Zi b range \<open>0x80 \<le> ?b \<Longrightarrow> _\<close> d
        by (subst prev_loop.simps, subst back1_loop.simps) (auto simp: Let_def not_less)
    next
      case trail
      have back1: "back1_loop s Z pi j = (if Z < j then back1_loop s Z pi (j - 1) else Some pi)"
        using trail b range by (subst back1_loop.simps) auto
      show ?thesis
      proof (cases "count < 5")
        case True
        have "map_option snd (prev_loop s start pi j c' (count + 1) sh' strict) =
            (if Z < j then back1_loop s Z pi (j - 1) else Some pi)" for c' sh'
          using Suc.prems \<open>start < Suc j\<close> True by (intro Suc.IH) auto
        then show ?thesis using trail b range \<open>start < Suc j\<close> Zi True lead back1 
          by (subst prev_loop.simps) (auto simp: Let_def)
      next
        case False
        then have "\<not> Z < j" using Suc.prems Z by (auto split: if_splits)
        then show ?thesis using trail b range \<open>start < Suc j\<close> Zi False lead back1 
          by (subst prev_loop.simps) (auto simp: Let_def)
      qed
    qed
  qed
qed

lemma BACK_1_PREV:
  assumes t: "u8_text s" and i: "start \<le> i" "i < length s"
  shows "U8_BACK_1 s start (i + 1) = map_option snd (U8_PREV s start (i + 1))"
proof (cases "U8_IS_TRAIL (s ! i)")
  case True
  have b: "byte_at s i = Some (s ! i)" "0 \<le> s ! i" "s ! i < 256" using byte_at_next [OF t i(2)] by auto
  have tr: "trail (s ! i)" using is_trail_iff True b by blast
  define Z where "Z = (if start + 5 < i then i - 5 else start)"
  have "back1_loop s Z i i = (if Z < i then back1_loop s Z i (i - 1) else Some i)"
    using tr b prev_lead_byte(1) [OF b(2,3)] by (subst back1_loop.simps) auto
  also have "\<dots> = map_option snd (prev_loop s start i i (s ! i AND 0x3f) 1 6 (- 1))"
    using back1_prev_loop [OF t Z_def, of i 1 "s ! i AND 0x3f" 6 "- 1"] i by simp
  finally show ?thesis
    using tr True b unfolding Z_def
    by (simp add: U8_BACK_1_def U8_SET_CP_START_def utf8_back1SafeBody_def U8_PREV_def U8_PREV_strict_def
        utf8_prevCharSafeBody_def)
next
  case False
  then show ?thesis using byte_at_next [OF t i(2)]
    by (simp add: U8_BACK_1_def U8_SET_CP_START_def U8_PREV_def U8_PREV_strict_def utf8_prevCharSafeBody_def)
qed

section \<open>Writing\<close>

lemma or_c0: "0 \<le> x \<Longrightarrow> x < 64 \<Longrightarrow> x OR 0xc0 = 0xc0 + x" for x :: int
  using or_disjoint [of x 6 3] by (simp add: push_bit_eq_mult)

lemma or_80: "0 \<le> x \<Longrightarrow> x < 128 \<Longrightarrow> x OR 0x80 = 0x80 + x" for x :: int
  using or_disjoint [of x 7 1] by (simp add: push_bit_eq_mult)

lemma or_e0: "0 \<le> x \<Longrightarrow> x < 32 \<Longrightarrow> x OR 0xe0 = 0xe0 + x" for x :: int
  using or_disjoint [of x 5 7] by (simp add: push_bit_eq_mult)

lemma or_f0: "0 \<le> x \<Longrightarrow> x < 16 \<Longrightarrow> x OR 0xf0 = 0xf0 + x" for x :: int
  using or_disjoint [of x 4 15] by (simp add: push_bit_eq_mult)

lemma or_80_digit: "(c mod 64) OR 0x80 = 0x80 + c mod 64" for c :: int
  by (rule or_80) (auto intro: order_less_trans [of _ 64])

lemma bytes_encode:
  shows "0x80 \<le> c \<Longrightarrow> c < 0x800 \<Longrightarrow> bytes2 c = utf8_encode c"
    and "0x800 \<le> c \<Longrightarrow> c < 0x10000 \<Longrightarrow> bytes3 c = utf8_encode c"
    and "0x10000 \<le> c \<Longrightarrow> c < 0x110000 \<Longrightarrow> bytes4 c = utf8_encode c"
proof -
  have small: "(0x80 + c mod 64) mod 256 = 0x80 + c mod 64" for c :: int
    by (rule mod_pos_pos_trivial) (auto intro: order_less_trans [of _ 64])
  note bits = drop_bit_eq_div and_3f or_80_digit small
  show "bytes2 c = utf8_encode c" if "0x80 \<le> c" "c < 0x800"
  proof -
    have d: "0 \<le> c div 64" "c div 64 < 32" using that by auto
    then have "(c div 64 OR 0xc0) mod 256 = 0xc0 + c div 64" using or_c0 [of "c div 64"] by simp
    then show ?thesis using that by (simp add: bytes2_def utf8_encode_def bits)
  qed
  show "bytes3 c = utf8_encode c" if "0x800 \<le> c" "c < 0x10000"
  proof -
    have d: "0 \<le> c div 4096" "c div 4096 < 16" using that by auto
    then have "(c div 4096 OR 0xe0) mod 256 = 0xe0 + c div 4096" using or_e0 [of "c div 4096"] by simp
    then show ?thesis using that by (simp add: bytes3_def utf8_encode_def bits)
  qed
  show "bytes4 c = utf8_encode c" if "0x10000 \<le> c" "c < 0x110000"
  proof -
    have d: "0 \<le> c div 262144" "c div 262144 < 8" using that by auto
    then have "(c div 262144 OR 0xf0) mod 256 = 0xf0 + c div 262144" using or_f0 [of "c div 262144"] by simp
    then show ?thesis using that by (simp add: bytes4_def utf8_encode_def bits)
  qed
qed

lemma length_store [simp]: "length (store_bytes s i bs) = length s"
  by (induction s i bs rule: store_bytes.induct) simp_all

lemma store_nth:
  "i + length bs \<le> length s \<Longrightarrow> store_bytes s i bs ! k = (if i \<le> k \<and> k < i + length bs then bs ! (k - i) else s ! k)"
proof (induction s i bs rule: store_bytes.induct)
  case (2 s i b bs)
  then show ?case by (cases "k = i") (auto simp: nth_Cons' not_le Suc_le_eq)
qed auto

lemma store_text: "u8_text s \<Longrightarrow> u8_text bs \<Longrightarrow> u8_text (store_bytes s i bs)"
proof (induction s i bs rule: store_bytes.induct)
  case (2 s i b bs)
  have "u8_text (s[i := b])"
    using 2(2,3) set_update_subset_insert [of s i b] unfolding u8_text_def by auto
  moreover have "u8_text bs" using 2(3) unfolding u8_text_def by simp
  ultimately show ?case using 2(1) by simp
qed simp

lemma encode_text: "scalar c \<Longrightarrow> u8_text (utf8_encode c)"
proof -
  assume sc: "scalar c"
  have d: "0 \<le> c mod 64 \<and> c mod 64 < 64" for c :: int by simp
  then have "0 \<le> 0x80 + c mod 64 \<and> 0x80 + c mod 64 < (256::int)" for c :: int by (smt (verit))
  with sc show ?thesis by (auto simp: u8_text_def utf8_encode_def scalar_def)
qed

lemma length_encode: "scalar c \<Longrightarrow> length (utf8_encode c) = U8_LENGTH c"
  by (auto simp: utf8_encode_def scalar_def U8_LENGTH_def Let_def)

lemma store_encoded:
  assumes "scalar c" and "i + length (utf8_encode c) \<le> length s"
  shows "encoded_at (store_bytes s i (utf8_encode c)) i c"
  using assms by (intro encoded_atI) (auto simp: store_nth)

lemma APPEND_ok:
  assumes sc: "scalar c" and fit: "i + U8_LENGTH c \<le> n"
  shows "U8_APPEND s i n c e = (store_bytes s i (utf8_encode c), i + U8_LENGTH c, e)"
proof -
  have u: "c mod 2 ^ 32 = c" using sc by (auto simp: scalar_def)
  have sur: "U_IS_SURROGATE c = False" using sc surrogate_range [of c] by (auto simp: scalar_def)
  consider "c < 0x80" | "0x80 \<le> c" "c < 0x800" | "0x800 \<le> c" "c < 0xd800" | "0xe000 \<le> c" "c < 0x10000" | "0x10000 \<le> c" "c < 0x110000"
    using sc by (fastforce simp: scalar_def)
  then show ?thesis
  proof cases
    case 1
    then show ?thesis using sc by (auto simp: U8_APPEND_def Let_def u utf8_encode_def U8_LENGTH_def scalar_def)
  next
    case 2
    then show ?thesis using fit bytes_encode(1) by (simp add: U8_APPEND_def Let_def u U8_LENGTH_def)
  next
    case 3
    then show ?thesis using fit bytes_encode(2) by (simp add: U8_APPEND_def Let_def u U8_LENGTH_def)
  next
    case 4
    then show ?thesis
      using fit bytes_encode(2) sur by (simp add: U8_APPEND_def utf8_appendCharSafeBody_def Let_def u U8_LENGTH_def)
  next
    case 5
    then show ?thesis
      using fit bytes_encode(3) by (simp add: U8_APPEND_def utf8_appendCharSafeBody_def Let_def u U8_LENGTH_def)
  qed
qed

lemma APPEND_fails:
  assumes c: "- (2 ^ 31) \<le> c" "c < 2 ^ 31" and bad: "\<not> scalar c \<or> i + U8_LENGTH c > n" and i: "i < n"
  shows "U8_APPEND s i n c e = (s, i, True)"
proof -
  have "c mod 2 ^ 32 > 0x10ffff" if "c < 0"
  proof -
    have "c mod 2 ^ 32 = (c + 2 ^ 32) mod 2 ^ 32" by simp
    also have "\<dots> = c + 2 ^ 32" using that c by (intro mod_pos_pos_trivial) simp_all
    finally show ?thesis using c by simp
  qed
  moreover have "c mod 2 ^ 32 = c" if "0 \<le> c" using that c by (intro mod_pos_pos_trivial) simp_all
  ultimately have u: "c mod 2 ^ 32 > 0x10ffff" if "c < 0 \<or> 0x10ffff < c"
    using that by (cases "c < 0") simp_all
  consider "c < 0 \<or> 0x10ffff < c" | "0xd800 \<le> c" "c \<le> 0xdfff" | "scalar c" "i + U8_LENGTH c > n"
    using bad by (cases "scalar c") (auto simp: scalar_def not_le)
  then show ?thesis
  proof cases
    case 1
    from u [OF 1] show ?thesis by (simp add: U8_APPEND_def utf8_appendCharSafeBody_def Let_def)
  next
    case 2
    then show ?thesis using surrogate_range [of c] by (simp add: U8_APPEND_def utf8_appendCharSafeBody_def Let_def)
  next
    case 3
    then have "0 \<le> c" by (simp add: scalar_def)
    then have u: "c mod 2 ^ 32 = c" using c by (intro mod_pos_pos_trivial) simp_all
    show ?thesis using 3 i unfolding U8_LENGTH_def U8_APPEND_def utf8_appendCharSafeBody_def Let_def u scalar_def
      by (simp split: if_splits)
  qed
qed


section \<open>Properties\<close>

lemma NEXT_spec:
  assumes t: "u8_text s" and i: "i < length s"
  shows "\<exists>c i'. U8_NEXT s i (int (length s)) = Some (c, i') \<and> i < i' \<and> i' \<le> length s \<and>
    (encoded_at s i c \<and> i' = i + length (utf8_encode c) \<or> c = - 1 \<and> (\<forall>d. \<not> encoded_at s i d))"
proof -
  have st: "(- 1 :: int) \<in> {- 1, - 3}" by simp
  note comp = next_complete [OF t _ st]
  show ?thesis
  proof (cases "\<exists>d. encoded_at s i d")
    case True
    then obtain d where d: "encoded_at s i d" ..
    show ?thesis using next_total [OF t i st] d comp [OF d] by (auto simp: next_ok_def U8_NEXT_def)
  next
    case False
    then show ?thesis using next_total [OF t i st] by (auto simp: next_ok_def U8_NEXT_def errorValue_neg)
  qed
qed

text \<open>
  C29. Iterating over UTF-8 text is safe and exact.  On every byte string, well formed or not, and at every
  position inside it, \<open>U8_NEXT\<close> reads no byte outside the string, returns, moves forward and stays within the
  string; it returns a code point exactly when the bytes at the position are the shortest encoding of that Unicode
  scalar value, moving behind it, and the error value otherwise.  \<open>U8_FWD_1\<close> skips to where \<open>U8_NEXT\<close>
  stops.  \<open>U8_PREV\<close> in the same way never reads before \<open>start\<close>, moves backward, and returns a code point
  exactly when one ends at the position, so that it undoes \<open>U8_NEXT\<close>; \<open>U8_BACK_1\<close> goes where
  \<open>U8_PREV\<close> goes.
\<close>

theorem utf8_iteration:
  assumes "u8_text s" and "start \<le> i" and "i < length s"
  shows "\<exists>c i'. U8_NEXT s i (int (length s)) = Some (c, i') \<and> U8_FWD_1 s i (int (length s)) = Some i' \<and>
      i < i' \<and> i' \<le> length s \<and>
      (if \<exists>d. encoded_at s i d
       then encoded_at s i c \<and> i' = i + length (utf8_encode c) \<and> U8_PREV s start i' = Some (c, i)
       else c = - 1) \<and>
    (\<exists>c j. U8_PREV s start (i + 1) = Some (c, j) \<and> U8_BACK_1 s start (i + 1) = Some j \<and> start \<le> j \<and> j \<le> i \<and>
      (encoded_at s j c \<and> j + length (utf8_encode c) = i + 1 \<or>
       c = - 1 \<and> (\<forall>j d. start \<le> j \<longrightarrow> encoded_at s j d \<longrightarrow> j + length (utf8_encode d) \<noteq> i + 1)))"
proof -
  have st: "(- 1 :: int) \<in> {- 1, - 3}" by simp
  obtain c i' where n: "U8_NEXT s i (int (length s)) = Some (c, i')" "i < i'" "i' \<le> length s"
    and e: "encoded_at s i c \<and> i' = i + length (utf8_encode c) \<or> c = - 1 \<and> (\<forall>d. \<not> encoded_at s i d)"
    using NEXT_spec [OF assms(1,3)] by blast
  have fwd: "U8_FWD_1 s i (int (length s)) = Some i'" using FWD_1_NEXT [OF assms(1,3)] n by simp
  have undo: "U8_PREV s start i' = Some (c, i)" if "encoded_at s i c \<and> i' = i + length (utf8_encode c)"
    using prev_complete [OF assms(1) _ assms(2) st] that by (auto simp: U8_PREV_def)
  obtain d j where p: "U8_PREV s start (i + 1) = Some (d, j)" "start \<le> j" "j < i + 1"
    and pe: "encoded_at s j d \<and> j + length (utf8_encode d) = i + 1 \<or> d = - 1"
    using prev_total [OF assms(1) _ _ st, of start "i + 1"] assms(2,3) by (auto simp: prev_ok_def U8_PREV_def errorValue_neg)
  have bk: "U8_BACK_1 s start (i + 1) = Some j" using BACK_1_PREV [OF assms(1-3)] p(1) by simp
  have only: "U8_PREV s start (i + 1) = Some (b, k)" if "start \<le> k" "encoded_at s k b" "k + length (utf8_encode b) = i + 1" for k b
    using prev_complete [OF assms(1) that(2,1) st] that(3) by (simp add: U8_PREV_def)
  have pos: "encoded_at s k (- 1) \<Longrightarrow> False" for k by (simp add: encoded_at_def scalar_def)
  have "encoded_at s j d \<and> j + length (utf8_encode d) = i + 1 \<or>
       d = - 1 \<and> (\<forall>j d. start \<le> j \<longrightarrow> encoded_at s j d \<longrightarrow> j + length (utf8_encode d) \<noteq> i + 1)"
    using pe only p(1) pos by auto
  then show ?thesis using n fwd e undo p bk by (intro exI conjI) auto
qed

theorem utf8_iteration_witness:
  "U8_NEXT [0xe4, 0xb8, 0xad, 0xc0] 0 4 = Some (0x4e2d, 3) \<and> U8_PREV [0xe4, 0xb8, 0xad, 0xc0] 0 3 = Some (0x4e2d, 0) \<and>
   encoded_at [0xe4, 0xb8, 0xad, 0xc0] 0 0x4e2d"
proof -
  have e: "encoded_at [0xe4, 0xb8, 0xad, 0xc0] 0 0x4e2d"
    by (simp add: encoded_at_def scalar_def utf8_encode_def)
  then have ex: "\<exists>d. encoded_at [0xe4, 0xb8, 0xad, 0xc0] 0 d" ..
  have t: "u8_text [0xe4, 0xb8, 0xad, 0xc0]" by (simp add: u8_text_def)
  have n: "U8_NEXT [0xe4, 0xb8, 0xad, 0xc0] 0 4 = Some (0x4e2d, 3)" by code_simp
  show ?thesis
    using utf8_iteration [OF t, of 0 0] ex e n by auto
qed

text \<open>
  C30. Writing and reading back.  \<open>U8_APPEND\<close> of a Unicode scalar value that fits before the capacity writes
  the value's encoding and nothing else, and reading forward from its beginning or backward from its end with
  \<open>U8_NEXT\<close> and \<open>U8_PREV\<close> gives the value back; every other 32-bit value and every value that does not fit
  leaves the buffer and the index as they were and sets the error flag.
\<close>

theorem utf8_roundtrip:
  assumes "u8_text s" and "i < length s" and "- (2 ^ 31) \<le> c" and "c < 2 ^ 31"
  shows "case U8_APPEND s i (length s) c e of (s', i', e') \<Rightarrow>
    if scalar c \<and> i + U8_LENGTH c \<le> length s
    then e' = e \<and> i' = i + U8_LENGTH c \<and> length s' = length s \<and> u8_text s' \<and>
      (\<forall>k. k < i \<or> i' \<le> k \<longrightarrow> s' ! k = s ! k) \<and>
      U8_NEXT s' i (int (length s')) = Some (c, i') \<and> U8_PREV s' i i' = Some (c, i) \<and> U8_PREV s' 0 i' = Some (c, i)
    else s' = s \<and> i' = i \<and> e'"
proof (cases "scalar c \<and> i + U8_LENGTH c \<le> length s")
  case True
  let ?s = "store_bytes s i (utf8_encode c)"
  have st: "(- 1 :: int) \<in> {- 1, - 3}" by simp
  note len = length_encode [of c]
  have t: "u8_text ?s" using store_text [OF assms(1) encode_text] True by blast
  have en: "encoded_at ?s i c" using store_encoded [of c i s] True len by simp
  have "U8_NEXT ?s i (int (length ?s)) = Some (c, i + U8_LENGTH c)"
    using next_complete [OF t en st] len True by (simp add: U8_NEXT_def)
  moreover have "U8_PREV ?s k (i + U8_LENGTH c) = Some (c, i)" if "k \<le> i" for k
    using prev_complete [OF t en that st] len True by (simp add: U8_PREV_def)
  moreover have "?s ! k = s ! k" if "k < i \<or> i + U8_LENGTH c \<le> k" for k
    using store_nth [of i "utf8_encode c" s k] that len True by auto
  ultimately show ?thesis unfolding APPEND_ok [OF conjunct1 [OF True] conjunct2 [OF True]] using True t by simp
next
  case False
  then have "U8_APPEND s i (length s) c e = (s, i, True)" using assms by (intro APPEND_fails) auto
  then show ?thesis using False by auto
qed

theorem utf8_roundtrip_witness:
  "U8_APPEND [0x61, 0, 0, 0, 0] 1 5 0x1f600 False = ([0x61, 0xf0, 0x9f, 0x98, 0x80], 5, False) \<and>
   U8_PREV [0x61, 0xf0, 0x9f, 0x98, 0x80] 0 5 = Some (0x1f600, 1)"
proof -
  have t: "u8_text [0x61, 0, 0, 0, 0]" by (simp add: u8_text_def)
  have a: "U8_APPEND [0x61, 0, 0, 0, 0] 1 5 0x1f600 False = ([0x61, 0xf0, 0x9f, 0x98, 0x80], 5, False)" by code_simp
  have l: "U8_LENGTH 0x1f600 = 4" by code_simp
  have n: "length [0x61, 0, 0, 0, 0 :: int] = 5" by simp
  show ?thesis
    using utf8_roundtrip [OF t, of 1 "0x1f600" False, unfolded n a l scalar_def] a by simp
qed

end
