(* ===== verification/Double.thy ===== *)
theory Double
  imports Complex_Main Prelude "HOL-Library.Monad_Syntax" "HOL-Library.Signed_Division" "HOL-Library.Log_Nat"
begin

text \<open>
  Numbers of C: checked 32-bit integers, and floating-point numbers of 53 significant bits with rounding to nearest,
  as the code of \<open>i18n/gregoimp.cpp\<close> computes with them.  The lemmas say when the rounding does not matter: an
  integer of magnitude up to \<open>2 ^ 53\<close>, scaled by a power of two, is exact, and the floor of a rounded quotient of
  integers below \<open>2 ^ 53\<close> is the floor of the quotient.
\<close>

section \<open>Machine numbers\<close>

text \<open>
  A value of type \<open>int32_t\<close> is an integer; the result of an operation outside the type is undefined behaviour,
  \<open>None\<close>.
\<close>

definition i32 :: "int \<Rightarrow> int option" where
  "i32 x = (if - (2 ^ 31) \<le> x \<and> x < 2 ^ 31 then Some x else None)"

definition at_index :: "'a list \<Rightarrow> int \<Rightarrow> 'a option" where
  "at_index xs i = (if 0 \<le> i \<and> i < int (length xs) then Some (xs ! nat i) else None)"

text \<open>
  A value of type \<open>double\<close> is a rational number, and every operation rounds its exact result to 53 significant
  bits, ties to even.  The exponent is unbounded: the numbers of this component are 0 or between \<open>2 ^ -50\<close> and
  \<open>2 ^ 100\<close> in magnitude, far from the ends of the exponent range.
\<close>

type_synonym double = rat

definition round_half_even :: "rat \<Rightarrow> int" where
  "round_half_even x =
     (let n = \<lfloor>x\<rfloor>; f = x - of_int n in
      if f < 1 / 2 then n else if f > 1 / 2 then n + 1 else if even n then n else n + 1)"

text \<open>The exponent of the unit in the last place of \<open>x\<close>.\<close>

definition ulp_exp :: "rat \<Rightarrow> int" where
  "ulp_exp x =
     (case quotient_of \<bar>x\<bar> of (a, b) \<Rightarrow>
        let k = bitlen a - bitlen b in if \<bar>x\<bar> < 2 powi k then k - 53 else k - 52)"

definition fl :: "rat \<Rightarrow> double" where
  "fl x = (if x = 0 then 0 else of_int (round_half_even (x / 2 powi ulp_exp x)) * 2 powi ulp_exp x)"

definition uprv_floor :: "double \<Rightarrow> double" where
  "uprv_floor x = of_int \<lfloor>x\<rfloor>"

text \<open>The cast to \<open>int32_t\<close> drops the fraction; a value outside the type is undefined behaviour.\<close>

definition to_int32 :: "double \<Rightarrow> int option" where
  "to_int32 x = i32 (if 0 \<le> x then \<lfloor>x\<rfloor> else \<lceil>x\<rceil>)"

text \<open>\<open>fmod\<close> is exact: the remainder of the division that drops the fraction.\<close>

definition uprv_fmod :: "double \<Rightarrow> double \<Rightarrow> double" where
  "uprv_fmod x y = (let q = x / y in x - y * of_int (if 0 \<le> q then \<lfloor>q\<rfloor> else \<lceil>q\<rceil>))"

section \<open>When rounding is exact\<close>

lemma half_even_error: "\<bar>of_int (round_half_even y) - y\<bar> \<le> 1 / 2"
proof -
  define n where "n = \<lfloor>y\<rfloor>"
  have "of_int n \<le> y" "y < of_int n + 1" unfolding n_def by linarith+
  then show ?thesis unfolding round_half_even_def Let_def n_def [symmetric] by (auto simp: abs_if field_simps)
qed

lemma half_even_int: "round_half_even (of_int n) = n"
  by (simp add: round_half_even_def)

lemma ulp_bounds:
  assumes "x \<noteq> 0"
  shows "2 powi (ulp_exp x + 52) \<le> \<bar>x\<bar>" and "\<bar>x\<bar> < 2 powi (ulp_exp x + 53)"
proof -
  obtain a b where q: "quotient_of \<bar>x\<bar> = (a, b)" by (cases "quotient_of \<bar>x\<bar>")
  have b: "0 < b" using quotient_of_denom_pos [OF q] .
  have x: "\<bar>x\<bar> = of_int a / of_int b" using quotient_of_div [OF q] .
  have a: "0 < a" using x b assms by (simp add: zero_less_abs_iff [symmetric] zero_less_divide_iff del: zero_less_abs_iff)
  define k where "k = bitlen a - bitlen b"
  have pw: "2 powi (bitlen c - 1) \<le> (of_int c :: rat)" "(of_int c :: rat) < 2 powi bitlen c" if "0 < c" for c
  proof -
    have "1 \<le> bitlen c" using that bitlen_eq_zero_iff [of c] bitlen_nonneg [of c] by linarith
    moreover have "(2::rat) ^ nat (bitlen c - 1) \<le> of_int c" "of_int c < (2::rat) ^ nat (bitlen c)"
      using bitlen_bounds [OF that] by (metis of_int_le_iff of_int_less_iff of_int_numeral of_int_power)+
    ultimately show "2 powi (bitlen c - 1) \<le> (of_int c :: rat)" "(of_int c :: rat) < 2 powi bitlen c"
      by (simp_all add: power_int_def)
  qed
  have "\<bar>x\<bar> < 2 powi (bitlen a) / 2 powi (bitlen b - 1)"
    unfolding x using pw [OF a] pw [OF b] a b by (intro frac_less) auto
  then have up: "\<bar>x\<bar> < 2 powi (k + 1)"
    by (simp add: k_def power_int_diff power_int_add algebra_simps)
  have "2 powi (bitlen a - 1) / 2 powi (bitlen b) < \<bar>x\<bar>"
    unfolding x using pw [OF a] pw [OF b] a b by (intro frac_less2) auto
  then have lo: "2 powi (k - 1) < \<bar>x\<bar>"
    by (simp add: k_def power_int_diff power_int_add algebra_simps)
  show "2 powi (ulp_exp x + 52) \<le> \<bar>x\<bar>" "\<bar>x\<bar> < 2 powi (ulp_exp x + 53)"
    using up lo by (auto simp: ulp_exp_def q Let_def k_def [symmetric] add.commute)
qed

lemma fl_error: "\<bar>fl x - x\<bar> \<le> \<bar>x\<bar> / 2 ^ 53"
proof (cases "x = 0")
  case False
  define u :: rat where "u = 2 powi ulp_exp x"
  have u: "0 < u" by (simp add: u_def)
  have "fl x - x = (of_int (round_half_even (x / u)) - x / u) * u"
    using False u by (simp add: fl_def u_def [symmetric] left_diff_distrib)
  then have "\<bar>fl x - x\<bar> \<le> (1 / 2) * u"
    using half_even_error [of "x / u"] u by (simp add: abs_mult mult_right_mono)
  moreover have "u * 2 ^ 52 \<le> \<bar>x\<bar>"
    using ulp_bounds(1) [OF False] by (simp add: u_def power_int_add)
  ultimately show ?thesis by (simp add: field_simps)
qed (simp add: fl_def)

lemma fl_scaled:
  assumes "\<bar>n\<bar> \<le> 2 ^ 53"
  shows "fl (of_int n * 2 powi k) = of_int n * 2 powi k"
proof (cases "n = 0")
  case False
  let ?x = "of_int n * 2 powi k :: rat"
  define e where "e = ulp_exp ?x"
  have nz: "?x \<noteq> 0" using False by simp
  note b = ulp_bounds [OF nz, folded e_def]
  have x: "?x / 2 powi e = of_int n * 2 powi (k - e)" by (simp add: power_int_diff)
  obtain m :: int where m: "?x / 2 powi e = of_int m"
  proof (cases "e \<le> k")
    case True
    then have "?x / 2 powi e = of_int (n * 2 ^ nat (k - e))" unfolding x by (simp add: power_int_def)
    then show ?thesis using that by blast
  next
    case False
    have "2 powi (e + 52) \<le> \<bar>?x\<bar>" using b(1) .
    then have le: "2 powi (e - k + 52) \<le> (of_int \<bar>n\<bar> :: rat)"
      by (simp add: abs_mult power_int_diff power_int_add field_simps)
    also have "\<dots> \<le> of_int (2 ^ 53)" using assms by (simp only: of_int_le_iff)
    finally have "(2 :: rat) powi (e - k + 52) \<le> 2 powi 53" by simp
    then have "e - k + 52 \<le> 53" by (rule power_int_le_imp_le_exp [rotated]) simp_all
    then have e: "e = k + 1" using False by simp
    then have "(of_int (2 ^ 53) :: rat) \<le> of_int \<bar>n\<bar>" using le by simp
    then have "2 ^ 53 \<le> \<bar>n\<bar>" by (simp only: of_int_le_iff)
    then have "\<bar>n\<bar> = 2 ^ 53" using assms by simp
    then have "even n" by (metis dvd_abs_iff dvd_refl even_power zero_less_numeral)
    then show ?thesis using that [of "n div 2"] e unfolding x by (auto elim!: evenE)
  qed
  then have "fl ?x = of_int m * 2 powi e" unfolding fl_def using nz by (simp add: e_def [symmetric] m half_even_int)
  also have "\<dots> = ?x" unfolding m [symmetric] by simp
  finally show ?thesis .
qed (simp add: fl_def)

lemma fl_int: "\<bar>n\<bar> \<le> 2 ^ 53 \<Longrightarrow> fl (of_int n) = of_int n"
  using fl_scaled [of n 0] by simp

lemma floor_fl:
  assumes "\<bar>a\<bar> < 2 ^ 53" and "0 < b"
  shows "\<lfloor>fl (of_int a / of_int b)\<rfloor> = a div b"
proof -
  define q r where "q = a div b" and "r = a mod b"
  have a: "a = b * q + r" "0 \<le> r" "r < b" using assms(2) by (simp_all add: q_def r_def)
  let ?x = "of_int a / of_int b :: rat"
  have bp: "(0::rat) < of_int b" using assms(2) by simp
  have err: "of_int b * \<bar>fl ?x - ?x\<bar> < 1"
  proof -
    have "of_int b * \<bar>fl ?x - ?x\<bar> \<le> of_int b * (\<bar>?x\<bar> / 2 ^ 53)" using fl_error [of ?x] bp by (intro mult_left_mono) auto
    also have "\<dots> = of_int \<bar>a\<bar> / 2 ^ 53" using bp by (simp add: abs_divide)
    also have "\<dots> < 1"
    proof -
      have "(of_int \<bar>a\<bar> :: rat) < of_int (2 ^ 53)" using assms(1) by (simp only: of_int_less_iff)
      then show ?thesis by simp
    qed
    finally show ?thesis .
  qed
  have bx: "of_int b * ?x = of_int b * of_int q + of_int r" using bp a(1) by (metis nonzero_mult_div_cancel_left of_int_add of_int_mult less_irrefl times_divide_eq_right)
  have up: "fl ?x < of_int q + 1"
  proof -
    have "of_int b * fl ?x < of_int b * ?x + 1" 
    proof -
      have "of_int b * (fl ?x - ?x) \<le> of_int b * \<bar>fl ?x - ?x\<bar>" using bp by (intro mult_left_mono) auto
      then show ?thesis using err by (simp add: right_diff_distrib)
    qed
    also have "\<dots> \<le> of_int b * (of_int q + 1)"
    proof -
      have "r + 1 \<le> b" using a(3) by simp
      then have "of_int r + 1 \<le> (of_int b :: rat)" by (metis of_int_1 of_int_add of_int_le_iff)
      then show ?thesis unfolding bx by (simp add: distrib_left)
    qed
    finally show ?thesis using bp by simp
  qed
  have lo: "of_int q \<le> fl ?x"
  proof (cases "r = 0")
    case True
    then have "?x = of_int q" using bx bp by simp
    moreover have "\<bar>q\<bar> \<le> 2 ^ 53"
    proof -
      have "\<bar>q\<bar> \<le> b * \<bar>q\<bar>" using assms(2) mult_right_mono [of 1 b "\<bar>q\<bar>"] by simp
      also have "\<dots> = \<bar>a\<bar>" using a(1) True assms(2) by (simp add: abs_mult)
      finally show ?thesis using assms(1) by simp
    qed
    ultimately show ?thesis using fl_int [of q] by simp
  next
    case False
    then have "1 \<le> r" using a(2) by simp
    then have "(1::rat) \<le> of_int r" by (metis of_int_1 of_int_le_iff)
    then have "of_int b * of_int q + 1 \<le> of_int b * ?x" unfolding bx by simp
    moreover have "of_int b * ?x - 1 < of_int b * fl ?x"
    proof -
      have "of_int b * (?x - fl ?x) \<le> of_int b * \<bar>fl ?x - ?x\<bar>" using bp by (intro mult_left_mono) auto
      then show ?thesis using err by (simp add: right_diff_distrib)
    qed
    ultimately have "of_int b * of_int q < of_int b * fl ?x" by linarith
    then show ?thesis using bp by simp
  qed
  show ?thesis using up lo unfolding q_def [symmetric] by linarith
qed


lemma i32_Some [simp]: "- (2 ^ 31) \<le> x \<Longrightarrow> x < 2 ^ 31 \<Longrightarrow> i32 x = Some x"
  by (simp add: i32_def)

lemma to_int32_int [simp]: "to_int32 (of_int n) = i32 n"
  by (simp add: to_int32_def)

lemma sdiv_pos: "0 \<le> n \<Longrightarrow> 0 < d \<Longrightarrow> n sdiv d = n div d" for n d :: int
  by (cases "n = 0") (simp_all add: signed_divide_int_def)

lemma sdiv_floor: "n < 0 \<Longrightarrow> 0 < d \<Longrightarrow> (n + 1) sdiv d - 1 = n div d" for n d :: int
proof -
  assume n: "n < 0" and d: "0 < d"
  have "(- n - 1) div d = - (n div d) - 1"
    using d minus_mod_eq_mult_div [of n d] pos_mod_bound [OF d, of n] pos_mod_sign [OF d, of n]
    by (intro int_div_pos_eq [where r = "d - 1 - n mod d"]) (auto simp: algebra_simps)
  moreover have "(n + 1) sdiv d = - ((- n - 1) div d)"
    using n d by (cases "n = - 1") (simp_all add: signed_divide_int_def)
  ultimately show ?thesis by simp
qed

lemma div_range: "- k \<le> n \<Longrightarrow> n < k \<Longrightarrow> 0 < d \<Longrightarrow> - k \<le> n div d \<and> n div d < k" for n d k :: int
proof -
  assume k: "- k \<le> n" "n < k" and d: "0 < d"
  have "n div d \<le> max n 0"
  proof (cases "0 \<le> n")
    case True
    then show ?thesis using d zdiv_mono2 [of n 1 d] by simp
  next
    case False
    then have "n div d < 0" using d by (simp add: pos_imp_zdiv_neg_iff)
    then show ?thesis by simp
  qed
  moreover have "- k \<le> n div d"
  proof -
    have "0 \<le> k" using k by simp
    then have "- k * d \<le> - k" using d mult_left_mono [of 1 d k] by simp
    then have "- k * d \<le> n" using k(1) by (rule order_trans)
    then show ?thesis using d by (metis zdiv_mono1 nonzero_mult_div_cancel_right less_irrefl)
  qed
  ultimately show ?thesis using k by linarith
qed

end
