(* ===== verification/Grego.thy ===== *)
theory Grego
  imports Double
begin

unbundle bit_operations_syntax

text \<open>
  The proleptic Gregorian calendar of \<open>i18n/gregoimp.cpp\<close> and \<open>i18n/gregoimp.h\<close>: the divisions of
  \<open>ClockMath\<close> and the conversions of \<open>Grego\<close> between day numbers, dates, times and Julian days.  A result
  \<open>None\<close> is an overflow, a division by zero or an access outside a table.
\<close>

section \<open>ClockMath\<close>

definition floorDivide_int :: "int \<Rightarrow> int \<Rightarrow> int option" where
  "floorDivide_int numerator denominator =
     (if denominator = 0 then None
      else if numerator \<ge> 0 then i32 (numerator sdiv denominator)
      else do {
        n \<leftarrow> i32 (numerator + 1);
        q \<leftarrow> i32 (n sdiv denominator);
        i32 (q - 1)
      })"

definition floorDivide_double :: "double \<Rightarrow> double \<Rightarrow> double" where
  "floorDivide_double numerator denominator = uprv_floor (fl (numerator / denominator))"

text \<open>The overloads with an output parameter return the quotient and the remainder.\<close>

definition floorDivide_rem :: "double \<Rightarrow> int \<Rightarrow> (int \<times> int) option" where
  "floorDivide_rem numerator denominator =
     (if denominator = 0 then None
      else do {
        let quotient = uprv_floor (fl (numerator / of_int denominator));
        remainder \<leftarrow> to_int32 (fl (numerator - fl (quotient * of_int denominator)));
        q \<leftarrow> to_int32 quotient;
        Some (q, remainder)
      })"

definition floorDivide_double_rem :: "double \<Rightarrow> double \<Rightarrow> double \<times> double" where
  "floorDivide_double_rem dividend divisor =
     (let quotient = floorDivide_double dividend divisor;
          remainder = fl (dividend - fl (quotient * divisor)) in
      if remainder < 0 \<or> remainder \<ge> divisor then
        let q = quotient;
            quotient = fl (quotient + (if remainder < 0 then - 1 else 1)) in
        if q = quotient then (quotient, 0)
        else (quotient, fl (dividend - fl (quotient * divisor)))
      else (quotient, remainder))"

section \<open>Grego\<close>

definition JULIAN_1_CE :: int where "JULIAN_1_CE = 1721426"
definition JULIAN_1970_CE :: int where "JULIAN_1970_CE = 2440588"
definition kOneDay :: double where "kOneDay = 86400000"

definition DAYS_BEFORE :: "int list" where
  "DAYS_BEFORE =
     [0, 31, 59, 90, 120, 151, 181, 212, 243, 273, 304, 334,
      0, 31, 60, 91, 121, 152, 182, 213, 244, 274, 305, 335]"

definition MONTH_LENGTH :: "int list" where
  "MONTH_LENGTH =
     [31, 28, 31, 30, 31, 30, 31, 31, 30, 31, 30, 31,
      31, 29, 31, 30, 31, 30, 31, 31, 30, 31, 30, 31]"

definition isLeapYear :: "int \<Rightarrow> bool" where
  "isLeapYear year \<longleftrightarrow> year AND 3 = 0 \<and> (year smod 100 \<noteq> 0 \<or> year smod 400 = 0)"

definition monthLength :: "int \<Rightarrow> int \<Rightarrow> int option" where
  "monthLength year month = do {
     i \<leftarrow> i32 (month + (if isLeapYear year then 12 else 0));
     at_index MONTH_LENGTH i
   }"

definition previousMonthLength :: "int \<Rightarrow> int \<Rightarrow> int option" where
  "previousMonthLength y m = (if m > 0 then monthLength y (m - 1) else Some 31)"

definition fieldsToDay :: "int \<Rightarrow> int \<Rightarrow> int \<Rightarrow> double option" where
  "fieldsToDay year month dm = do {
     y \<leftarrow> i32 (year - 1);
     d \<leftarrow> i32 (365 * y);
     f4 \<leftarrow> floorDivide_int y 4;
     d \<leftarrow> i32 (d + f4);
     d \<leftarrow> i32 (d + (JULIAN_1_CE - 3));
     f400 \<leftarrow> floorDivide_int y 400;
     d \<leftarrow> i32 (d + f400);
     f100 \<leftarrow> floorDivide_int y 100;
     d \<leftarrow> i32 (d - f100);
     d \<leftarrow> i32 (d + 2);
     i \<leftarrow> i32 (month + (if isLeapYear year then 12 else 0));
     b \<leftarrow> at_index DAYS_BEFORE i;
     d \<leftarrow> i32 (d + b);
     julian \<leftarrow> i32 (d + dm);
     Some (fl (of_int julian - of_int JULIAN_1970_CE))
   }"

text \<open>The output parameters of \<open>dayToFields\<close>.\<close>

record fields =
  f_year :: int
  f_month :: int
  f_dom :: int
  f_dow :: int
  f_doy :: int

definition dayToFields :: "double \<Rightarrow> fields option" where
  "dayToFields day = do {
     let day = fl (day + of_int (JULIAN_1970_CE - JULIAN_1_CE));
     (n400, doy) \<leftarrow> floorDivide_rem day 146097;
     (n100, doy) \<leftarrow> floorDivide_rem (of_int doy) 36524;
     (n4, doy) \<leftarrow> floorDivide_rem (of_int doy) 1461;
     (n1, doy) \<leftarrow> floorDivide_rem (of_int doy) 365;
     y400 \<leftarrow> i32 (400 * n400);
     y100 \<leftarrow> i32 (100 * n100);
     year \<leftarrow> i32 (y400 + y100);
     y4 \<leftarrow> i32 (4 * n4);
     year \<leftarrow> i32 (year + y4);
     year \<leftarrow> i32 (year + n1);
     (year, doy) \<leftarrow> (if n100 = 4 \<or> n1 = 4 then Some (year, 365)
                    else do { year \<leftarrow> i32 (year + 1); Some (year, doy) });
     let isLeap = isLeapYear year;
     dow \<leftarrow> to_int32 (uprv_fmod (fl (day + 1)) 7);
     let dow = dow + (if dow < 0 then 1 + 7 else 1);
     let march1 = (if isLeap then 60 else 59);
     let correction = (if doy \<ge> march1 then if isLeap then 1 else 2 else 0);
     m \<leftarrow> i32 (12 * (doy + correction) + 6);
     let month = m sdiv 367;
     b \<leftarrow> at_index DAYS_BEFORE (month + (if isLeap then 12 else 0));
     dm \<leftarrow> i32 (doy - b + 1);
     doy \<leftarrow> i32 (doy + 1);
     Some \<lparr>f_year = year, f_month = month, f_dom = dm, f_dow = dow, f_doy = doy\<rparr>
   }"

definition timeToFields :: "double \<Rightarrow> (fields \<times> int) option" where
  "timeToFields time = do {
     let (day, millisInDay) = floorDivide_double_rem time kOneDay;
     mid \<leftarrow> to_int32 millisInDay;
     f \<leftarrow> dayToFields day;
     Some (f, mid)
   }"

definition dayOfWeek :: "double \<Rightarrow> int option" where
  "dayOfWeek day = do {
     (q, dow) \<leftarrow> floorDivide_rem (fl (day + 5)) 7;
     Some (if dow = 0 then 7 else dow)
   }"

definition dayOfWeekInMonth :: "int \<Rightarrow> int \<Rightarrow> int \<Rightarrow> int option" where
  "dayOfWeekInMonth year month dm = do {
     d \<leftarrow> i32 (dm + 6);
     let weekInMonth = d sdiv 7;
     if weekInMonth = 4 then do {
       len \<leftarrow> monthLength year month;
       e \<leftarrow> i32 (dm + 7);
       Some (if e > len then - 1 else weekInMonth)
     }
     else if weekInMonth = 5 then Some (- 1)
     else Some weekInMonth
   }"

definition julianDayToMillis :: "int \<Rightarrow> double option" where
  "julianDayToMillis julian = do { d \<leftarrow> i32 (julian - JULIAN_1970_CE); Some (fl (of_int d * kOneDay)) }"

definition millisToJulianDay :: "double \<Rightarrow> int option" where
  "millisToJulianDay millis = to_int32 (fl (of_int JULIAN_1970_CE + floorDivide_double millis kOneDay))"

definition gregorianShift :: "int \<Rightarrow> int option" where
  "gregorianShift eyear = do {
     y \<leftarrow> i32 (eyear - 1);
     f400 \<leftarrow> floorDivide_int y 400;
     f100 \<leftarrow> floorDivide_int y 100;
     d \<leftarrow> i32 (f400 - f100);
     i32 (d + 2)
   }"

end
