(* ===== verification/GregoProps.thy ===== *)
theory GregoProps
  imports Grego
begin

unbundle bit_operations_syntax

text \<open>
  The conversions of \<open>Grego\<close> against the rules of the Gregorian calendar: dates are numbered one by one, the
  conversions are inverse to each other, and none of them overflows in the supported range.
\<close>

section \<open>The divisions\<close>

lemma floorDivide_int_eq:
  assumes "- (2 ^ 31) \<le> n" and "n < 2 ^ 31" and "0 < d"
  shows "floorDivide_int n d = Some (n div d)"
proof (cases "0 \<le> n")
  case True
  then show ?thesis using assms div_range [of "2 ^ 31" n d] sdiv_pos [OF True assms(3)] by (simp add: floorDivide_int_def)
next
  case False
  then have s: "(n + 1) sdiv d = n div d + 1" using sdiv_floor [of n d] assms(3) by simp
  have "n div d < 0" using False assms(3) by (simp add: pos_imp_zdiv_neg_iff)
  then show ?thesis using assms False div_range [of "2 ^ 31" n d] s by (simp add: floorDivide_int_def)
qed

lemma floor_quotient:
  assumes "\<bar>n\<bar> < 2 ^ 53" and "0 < d"
  shows "uprv_floor (fl (of_int n / of_int d)) = of_int (n div d)"
  using floor_fl [OF assms] by (simp add: uprv_floor_def)

lemma exact_remainder:
  assumes "\<bar>n\<bar> + d \<le> 2 ^ 53" and "0 < d"
  shows "fl (of_int n - fl (of_int (n div d) * of_int d)) = of_int (n mod d)"
proof -
  have m: "n div d * d = n - n mod d" by (simp add: minus_mod_eq_div_mult)
  have "\<bar>n div d * d\<bar> \<le> 2 ^ 53"
    unfolding m using assms pos_mod_sign [OF assms(2), of n] pos_mod_bound [OF assms(2), of n] by linarith
  then have "fl (of_int (n div d) * of_int d) = of_int (n - n mod d)" using fl_int [of "n div d * d"] unfolding m [symmetric] by simp
  moreover have "\<bar>n mod d\<bar> \<le> 2 ^ 53"
    using assms pos_mod_sign [OF assms(2), of n] pos_mod_bound [OF assms(2), of n] by linarith
  ultimately show ?thesis using fl_int [of "n mod d"] by simp
qed

lemma floorDivide_rem_eq:
  assumes n: "\<bar>n\<bar> + d \<le> 2 ^ 53" and d: "0 < d" "d < 2 ^ 31" and q: "- (2 ^ 31) \<le> n div d" "n div d < 2 ^ 31"
  shows "floorDivide_rem (of_int n) d = Some (n div d, n mod d)"
proof -
  have "\<bar>n\<bar> < 2 ^ 53" using n d by linarith
  moreover have "i32 (n mod d) = Some (n mod d)"
    using d pos_mod_sign [OF d(1), of n] pos_mod_bound [OF d(1), of n] by (intro i32_Some) linarith+
  ultimately show ?thesis
    using d q floor_quotient [of n d] exact_remainder [OF n d(1)] by (simp add: floorDivide_rem_def)
qed

lemma floorDivide_rem_digits:
  assumes "n = d * q + r \<and> 0 \<le> r \<and> r < d" and "\<bar>n\<bar> + d \<le> 2 ^ 53" and "d < 2 ^ 31"
    and "- (2 ^ 31) \<le> q" and "q < 2 ^ 31"
  shows "floorDivide_rem (of_int n) d = Some (q, r)"
proof -
  have "n div d = q" "n mod d = r" using assms by (auto intro!: int_div_pos_eq int_mod_pos_eq)
  then show ?thesis using floorDivide_rem_eq [of n d] assms by simp
qed

lemma floorDivide_double_rem_eq:
  assumes n: "\<bar>n\<bar> + d \<le> 2 ^ 53" and d: "0 < d"
  shows "floorDivide_double_rem (of_int n) (of_int d) = (of_int (n div d), of_int (n mod d))"
proof -
  have "\<bar>n\<bar> < 2 ^ 53" using n d by linarith
  then show ?thesis
    using d floor_quotient [of n d] exact_remainder [OF n d] pos_mod_sign [OF d, of n] pos_mod_bound [OF d, of n]
    by (simp add: floorDivide_double_rem_def floorDivide_double_def Let_def not_less not_le)
qed


section \<open>The Gregorian calendar\<close>

definition leap :: "int \<Rightarrow> bool" where
  "leap y \<longleftrightarrow> 4 dvd y \<and> (\<not> 100 dvd y \<or> 400 dvd y)"

definition month_days :: "int \<Rightarrow> int \<Rightarrow> int" where
  "month_days y m = (if m = 1 then if leap y then 29 else 28 else if m \<in> {3, 5, 8, 10} then 30 else 31)"

definition valid_date :: "int \<Rightarrow> int \<Rightarrow> int \<Rightarrow> bool" where
  "valid_date y m d \<longleftrightarrow> 0 \<le> m \<and> m < 12 \<and> 1 \<le> d \<and> d \<le> month_days y m"

definition next_date :: "int \<times> int \<times> int \<Rightarrow> int \<times> int \<times> int" where
  "next_date = (\<lambda>(y, m, d). if d < month_days y m then (y, m, d + 1) else if m < 11 then (y, m + 1, 1) else (y + 1, 0, 1))"

text \<open>The days before a year, counted from the first of January of the year 1, and before a month of a year.\<close>

definition year_start :: "int \<Rightarrow> int" where
  "year_start y = 365 * (y - 1) + (y - 1) div 4 - (y - 1) div 100 + (y - 1) div 400"

definition month_start :: "bool \<Rightarrow> int \<Rightarrow> int" where
  "month_start l m = DAYS_BEFORE ! nat (m + (if l then 12 else 0))"

lemma smod_zero: "k smod l = 0 \<longleftrightarrow> l dvd k" for k l :: int
  by (auto simp: signed_modulo_int_def sgn_if mod_eq_0_iff_dvd split: if_splits)

lemma isLeapYear_leap: "isLeapYear y = leap y"
  using and_low_mask [of y 2] by (auto simp: isLeapYear_def leap_def smod_zero dvd_eq_mod_eq_0 mask_eq_exp_minus_1)

lemma DAYS_BEFORE_Some: "0 \<le> m \<Longrightarrow> m < 12 \<Longrightarrow> at_index DAYS_BEFORE (m + (if l then 12 else 0)) = Some (month_start l m)"
  by (simp add: at_index_def month_start_def DAYS_BEFORE_def)

lemma month_cases:
  fixes m :: int
  assumes "0 \<le> m" and "m < 12"
  obtains "m = 0" | "m = 1" | "m = 2" | "m = 3" | "m = 4" | "m = 5" | "m = 6" | "m = 7" | "m = 8" | "m = 9" | "m = 10" | "m = 11"
proof -
  have "m = 0 \<or> m = 1 \<or> m = 2 \<or> m = 3 \<or> m = 4 \<or> m = 5 \<or> m = 6 \<or> m = 7 \<or> m = 8 \<or> m = 9 \<or> m = 10 \<or> m = 11"
    using assms by presburger
  then show thesis using that by blast
qed

lemma monthLength_days: "0 \<le> m \<Longrightarrow> m < 12 \<Longrightarrow> monthLength y m = Some (month_days y m)"
  by (rule month_cases [of m])
    (simp_all add: monthLength_def isLeapYear_leap at_index_def MONTH_LENGTH_def month_days_def eval_nat_numeral)

lemma month_start_step: "0 \<le> m \<Longrightarrow> m < 11 \<Longrightarrow> month_start (leap y) (m + 1) = month_start (leap y) m + month_days y m"
  by (rule month_cases [of m]) 
    (simp_all add: month_start_def DAYS_BEFORE_def month_days_def)

lemma div_step: "0 < k \<Longrightarrow> y div k = (y - 1) div k + of_bool (k dvd y)" for y k :: int
proof (cases "k dvd y")
  case True
  assume k: "0 < k"
  from True obtain c where "y = k * c" ..
  moreover have "(k * c - 1) div k = c - 1" using k by (intro int_div_pos_eq [where r = "k - 1"]) (auto simp: algebra_simps)
  ultimately show ?thesis using k by simp
next
  case False
  assume k: "0 < k"
  have "1 \<le> y mod k" using False pos_mod_sign [OF k, of y] unfolding dvd_eq_mod_eq_0 by linarith
  then have "(y - 1) div k = y div k"
    using k mult_div_mod_eq [of k y] pos_mod_bound [OF k, of y] by (intro int_div_pos_eq [where r = "y mod k - 1"]) linarith+
  then show ?thesis using False by simp
qed

lemma year_length: "year_start (y + 1) = year_start y + (if leap y then 366 else 365)"
proof -
  define a b c where "a = (y - 1) div 4" and "b = (y - 1) div 100" and "c = (y - 1) div 400"
  have d: "400 dvd y \<Longrightarrow> 100 dvd y" "100 dvd y \<Longrightarrow> 4 dvd y" 
    using dvd_trans [of "100::int" 400 y] dvd_trans [of "4::int" 100 y] by simp_all
  have bool: "365 + of_bool A - of_bool B + of_bool C = (if A \<and> (\<not> B \<or> C) then 366 else 365 :: int)"
    if "C \<Longrightarrow> B" "B \<Longrightarrow> A" for A B C using that by (cases A; cases B; cases C) simp_all
  have alg: "365 * y + (a + p) - (b + q) + (c + r) = 365 * (y - 1) + a - b + c + (365 + p - q + r)" for p q r by simp
  have e: "y div 4 = a + of_bool (4 dvd y)" "y div 100 = b + of_bool (100 dvd y)" "y div 400 = c + of_bool (400 dvd y)"
    unfolding a_def b_def c_def by (rule div_step, simp)+
  have "year_start (y + 1) = 365 * y + y div 4 - y div 100 + y div 400" by (simp only: year_start_def add_diff_cancel_right')
  also have "\<dots> = year_start y + (365 + of_bool (4 dvd y) - of_bool (100 dvd y) + of_bool (400 dvd y))"
    unfolding e year_start_def a_def b_def c_def by (rule alg [unfolded a_def b_def c_def])
  also have "365 + of_bool (4 dvd y) - of_bool (100 dvd y) + of_bool (400 dvd y) = (if leap y then 366 else 365 :: int)"
    unfolding leap_def using d by (rule bool)
  finally show ?thesis .
qed

text \<open>The day number of a date: 0 is the first of January 1970.\<close>

definition epoch_day :: "int \<Rightarrow> int \<Rightarrow> int \<Rightarrow> int" where
  "epoch_day y m d = year_start y + month_start (leap y) m + d - 1 - 719162"

lemma epoch_day_next:
  assumes "valid_date y m d" and "next_date (y, m, d) = (y', m', d')"
  shows "epoch_day y' m' d' = epoch_day y m d + 1" and "valid_date y' m' d'"
proof -
  have m: "0 \<le> m" "m < 12" using assms by (auto simp: valid_date_def)
  have dec: "month_start (leap y) 11 + 31 = (if leap y then 366 else 365)" "month_days y 11 = 31"
    by (simp_all add: month_start_def DAYS_BEFORE_def month_days_def)
  have jan: "month_start l 0 = 0" for l by (simp add: month_start_def DAYS_BEFORE_def)
  have pos: "1 \<le> month_days y m" for y m by (simp add: month_days_def)
  show "epoch_day y' m' d' = epoch_day y m d + 1"
    using assms m month_start_step [of m y] year_length [of y] dec jan
    by (cases "m = 11") (auto simp: next_date_def epoch_day_def valid_date_def split: if_splits)
  show "valid_date y' m' d'" using assms m pos by (auto simp: next_date_def valid_date_def split: if_splits)
qed


section \<open>Dates to day numbers\<close>

lemma year_parts:
  fixes y :: int
  assumes "- 5900000 \<le> y" and "y \<le> 5900000"
  shows "- 1475000 \<le> y div 4 \<and> y div 4 \<le> 1475000" "- 59000 \<le> y div 100 \<and> y div 100 \<le> 59000"
    "- 14750 \<le> y div 400 \<and> y div 400 \<le> 14750"
  using zdiv_mono1 [OF assms(1), of 4] zdiv_mono1 [OF assms(1), of 100] zdiv_mono1 [OF assms(1), of 400]
    zdiv_mono1 [OF assms(2), of 4] zdiv_mono1 [OF assms(2), of 100] zdiv_mono1 [OF assms(2), of 400] by simp_all

lemma fieldsToDay_eq:
  assumes y: "- 5850000 \<le> y" "y \<le> 5850000" and v: "valid_date y m d"
  shows "fieldsToDay y m d = Some (of_int (epoch_day y m d))"
proof -
  define a b c where "a = (y - 1) div 4" and "b = (y - 1) div 100" and "c = (y - 1) div 400"
  have parts: "- 1475000 \<le> a \<and> a \<le> 1475000" "- 59000 \<le> b \<and> b \<le> 59000" "- 14750 \<le> c \<and> c \<le> 14750"
    unfolding a_def b_def c_def using y by (intro year_parts; simp)+
  have fd: "floorDivide_int (y - 1) 4 = Some a" "floorDivide_int (y - 1) 100 = Some b" "floorDivide_int (y - 1) 400 = Some c"
    unfolding a_def b_def c_def using y by (intro floorDivide_int_eq; simp)+
  have m: "0 \<le> m" "m < 12" using v by (auto simp: valid_date_def)
  have d: "1 \<le> d" "d \<le> 31" using v by (auto simp: valid_date_def month_days_def split: if_splits)
  define s where "s = month_start (leap y) m"
  have s: "0 \<le> s" "s \<le> 335"
    using m unfolding s_def by (auto intro: month_cases [of m] simp: month_start_def DAYS_BEFORE_def)
  have tab: "at_index DAYS_BEFORE (m + (if isLeapYear y then 12 else 0)) = Some s"
    using DAYS_BEFORE_Some [OF m, of "leap y"] by (simp only: isLeapYear_leap s_def)
  define j where "j = 365 * (y - 1) + a + 1721423 + c - b + 2 + s"
  have e: "epoch_day y m d = j + d - 2440588"
    unfolding epoch_day_def year_start_def a_def b_def c_def s_def j_def by simp
  have j: "i32 (365 * (y - 1)) = Some (365 * (y - 1))" "i32 (365 * (y - 1) + a) = Some (365 * (y - 1) + a)"
    "i32 (365 * (y - 1) + a + 1721423) = Some (365 * (y - 1) + a + 1721423)"
    "i32 (365 * (y - 1) + a + 1721423 + c) = Some (365 * (y - 1) + a + 1721423 + c)"
    "i32 (365 * (y - 1) + a + 1721423 + c - b) = Some (365 * (y - 1) + a + 1721423 + c - b)"
    "i32 (365 * (y - 1) + a + 1721423 + c - b + 2) = Some (365 * (y - 1) + a + 1721423 + c - b + 2)"
    "i32 (365 * (y - 1) + a + 1721423 + c - b + 2 + s) = Some j" "i32 (j + d) = Some (j + d)"
    unfolding j_def using y parts s d by (intro i32_Some; simp)+
  have i: "i32 (y - 1) = Some (y - 1)" "i32 (m + (if isLeapYear y then 12 else 0)) = Some (m + (if isLeapYear y then 12 else 0))"
    using y m by (auto intro!: i32_Some)
  have "\<bar>j + d - 2440588\<bar> \<le> 2 ^ 53" unfolding j_def using y parts s d by auto
  from fl_int [OF this] have f: "fl (of_int (j + d) - of_int 2440588) = of_int (epoch_day y m d)"
    unfolding e by simp
  have jd: "JULIAN_1_CE - 3 = 1721423" by (simp add: JULIAN_1_CE_def)
  show ?thesis
    unfolding fieldsToDay_def JULIAN_1970_CE_def jd i fd j tab Option.bind_eq_Some_conv bind.bind_lunit f ..
qed


section \<open>Day numbers to dates\<close>

lemma year_start_radix:
  assumes "0 \<le> b" "b \<le> 3" "0 \<le> c" "c \<le> 24" "0 \<le> e" "e \<le> 3"
  shows "year_start (400 * a + 100 * b + 4 * c + e + 1) = 146097 * a + 36524 * b + 1461 * c + 365 * e"
proof -
  let ?y = "400 * a + 100 * b + 4 * c + e"
  have "?y div 4 = 100 * a + 25 * b + c" using assms by (intro int_div_pos_eq [where r = e]) auto
  moreover have "?y div 100 = 4 * a + b" using assms by (intro int_div_pos_eq [where r = "4 * c + e"]) auto
  moreover have "?y div 400 = a" using assms by (intro int_div_pos_eq [where r = "100 * b + 4 * c + e"]) auto
  ultimately show ?thesis unfolding year_start_def add_diff_cancel_right' by simp
qed

lemma leap_cycle:
  assumes "0 \<le> c" and "c \<le> 23"
  shows "leap (400 * a + 100 * b + 4 * c + 4)"
proof -
  have "400 * a + 100 * b + 4 * c + 4 = 4 * (100 * a + 25 * b + c + 1)" by simp
  then have "4 dvd 400 * a + 100 * b + 4 * c + 4" by (metis dvd_triv_left)
  moreover have "(400 * a + 100 * b + 4 * c + 4) mod 100 = 4 * c + 4"
    using assms by (intro int_mod_pos_eq [where q = "4 * a + b"]) auto
  ultimately show ?thesis using assms by (auto simp: leap_def dvd_eq_mod_eq_0)
qed

text \<open>The multiple radix representation of a day number gives the year that contains the day.\<close>

lemma year_of_day:
  assumes D: "D = 146097 * a + d1" "0 \<le> d1" "d1 < 146097"
    and d1: "d1 = 36524 * b + d2" "0 \<le> d2" "d2 < 36524"
    and d2: "d2 = 1461 * c + d3" "0 \<le> d3" "d3 < 1461"
    and d3: "d3 = 365 * e + r" "0 \<le> r" "r < 365"
    and y: "(y, doy) = (if b = 4 \<or> e = 4 then (400 * a + 100 * b + 4 * c + e, 365) else (400 * a + 100 * b + 4 * c + e + 1, r))"
  shows "D = year_start y + doy" and "0 \<le> doy" and "doy < (if leap y then 366 else 365)"
    and "0 \<le> b" "b \<le> 4" "0 \<le> c" "c \<le> 24" "0 \<le> e" "e \<le> 4"
proof -
  show b: "0 \<le> b" "b \<le> 4" using D d1 by linarith+
  show c: "0 \<le> c" "c \<le> 24" using d1 d2 by linarith+
  show e: "0 \<le> e" "e \<le> 4" using d2 d3 by linarith+
  consider "b = 4" | "b \<le> 3" "e = 4" | "b \<le> 3" "e \<le> 3" using b e by linarith
  then have *: "D = year_start y + doy \<and> 0 \<le> doy \<and> doy < (if leap y then 366 else 365)"
  proof cases
    case 1
    then have "d2 = 0" using D d1 by linarith
    then have c0: "c = 0" using d2 by linarith
    with \<open>d2 = 0\<close> have z: "c = 0" "d3 = 0" using d2 by simp_all
    moreover have "e = 0" using d3 z by linarith
    ultimately have z: "c = 0" "e = 0" "r = 0" using d3 by simp_all
    have l: "leap (400 * a + 400)" by (simp add: leap_def)
    show ?thesis
      using year_start_radix [of 3 24 3 a] y D d1 d2 d3 1 z l by (simp add: algebra_simps)
  next
    case 2
    then have r: "r = 0" and c: "c \<le> 23" using d1 d2 d3 by linarith+
    show ?thesis
      using year_start_radix [of b c 3 a] leap_cycle [of c a b] y D d1 d2 d3 2 b(1) \<open>0 \<le> c\<close> r c by (simp add: algebra_simps)
  next
    case 3
    then show ?thesis
      using year_start_radix [of b c e a] y D d1 d2 d3 b c e by simp
  qed
  then show "D = year_start y + doy" and "0 \<le> doy" and "doy < (if leap y then 366 else 365)" by auto
qed

abbreviation days_in :: "bool \<Rightarrow> int \<Rightarrow> int" where
  "days_in l m \<equiv> if m = 1 then if l then 29 else 28 else if m \<in> {3, 5, 8, 10} then 30 else 31"

lemma month_starts [simp]:
  "month_start l 0 = 0" "month_start l 1 = 31" "month_start l 2 = 59 + of_bool l" "month_start l 3 = 90 + of_bool l"
  "month_start l 4 = 120 + of_bool l" "month_start l 5 = 151 + of_bool l" "month_start l 6 = 181 + of_bool l"
  "month_start l 7 = 212 + of_bool l" "month_start l 8 = 243 + of_bool l" "month_start l 9 = 273 + of_bool l"
  "month_start l 10 = 304 + of_bool l" "month_start l 11 = 334 + of_bool l"
  by (simp_all add: month_start_def DAYS_BEFORE_def)

lemma month_formula:
  assumes k: "0 \<le> k" "k < 12" and doy: "month_start l k \<le> doy" "doy < month_start l k + days_in l k"
  shows "(12 * (doy + (if doy \<ge> (if l then 60 else 59) then if l then 1 else 2 else 0)) + 6) div 367 = k"
proof -
  let ?x = "12 * (doy + (if doy \<ge> (if l then 60 else 59) then if l then 1 else 2 else 0)) + 6"
  have "367 * k \<le> ?x \<and> ?x < 367 * k + 367"
    using doy by (rule_tac month_cases [OF k]; cases l) auto
  then show ?thesis by (intro int_div_pos_eq [where r = "?x - 367 * k"]) auto
qed

lemma month_exists:
  assumes "0 \<le> doy" and "doy < (if l then 366 else 365)"
  shows "\<exists>k. 0 \<le> k \<and> k < 12 \<and> month_start l k \<le> doy \<and> doy < month_start l k + days_in l k"
proof (rule ccontr)
  assume no: "\<not> ?thesis"
  have step: "month_start l k + days_in l k \<le> doy" if "month_start l k \<le> doy" "0 \<le> k" "k < 12" for k
    using no that by (meson not_le)
  have "doy \<ge> 365 + of_bool l"
    using assms(1) step [of 0] step [of 1] step [of 2] step [of 3] step [of 4] step [of 5] step [of 6] step [of 7]
      step [of 8] step [of 9] step [of 10] step [of 11] by (cases l) simp_all
  then show False using assms(2) by (cases l) auto
qed


lemma fmod_7: "to_int32 (uprv_fmod (of_int n) 7) = Some (if n < 0 \<and> n mod 7 \<noteq> 0 then n mod 7 - 7 else n mod 7)"
proof -
  let ?q = "(if 0 \<le> (of_int n :: rat) / of_int 7 then \<lfloor>(of_int n :: rat) / of_int 7\<rfloor> else \<lceil>(of_int n :: rat) / of_int 7\<rceil>)"
  have s: "0 \<le> (of_int n :: rat) / of_int 7 \<longleftrightarrow> 0 \<le> n" by (simp add: zero_le_divide_iff)
  have "?q = (if 0 \<le> n then n div 7 else - ((- n) div 7))"
    unfolding s floor_divide_of_int_eq ceiling_divide_eq_div ..
  also have "\<dots> = (if n < 0 \<and> n mod 7 \<noteq> 0 then n div 7 + 1 else n div 7)" by (simp add: zdiv_zminus1_eq_if)
  finally have "of_int n - of_int 7 * of_int ?q = (of_int (if n < 0 \<and> n mod 7 \<noteq> 0 then n mod 7 - 7 else n mod 7) :: rat)"
    by (simp add: minus_mult_div_eq_mod [symmetric])
  then have "uprv_fmod (of_int n) 7 = of_int (if n < 0 \<and> n mod 7 \<noteq> 0 then n mod 7 - 7 else n mod 7)"
    unfolding uprv_fmod_def Let_def of_int_numeral .
  moreover have "0 \<le> n mod 7" "n mod 7 < 7" by simp_all
  ultimately show ?thesis by (simp only: to_int32_int) (rule i32_Some; auto)
qed


lemma mod_digits: "0 < k \<Longrightarrow> n = k * (n div k) + n mod k \<and> 0 \<le> n mod k \<and> n mod k < k" for n k :: int
  by simp

lemma dayToFields_ok:
  assumes "\<bar>day + 2440588\<bar> \<le> 0x7F000000"
  obtains y m d where "dayToFields (of_int day) =
      Some \<lparr>f_year = y, f_month = m, f_dom = d, f_dow = (day + 4) mod 7 + 1, f_doy = month_start (leap y) m + d\<rparr>"
    and "valid_date y m d" and "epoch_day y m d = day" and "- 5850000 \<le> y" and "y \<le> 5850000"
proof -
  define D where "D = day + 719162"
  have D: "- 2132500000 \<le> D" "D \<le> 2132500000" using assms unfolding D_def by linarith+
  define a d1 where "a = D div 146097" and "d1 = D mod 146097"
  define b d2 where "b = d1 div 36524" and "d2 = d1 mod 36524"
  define c d3 where "c = d2 div 1461" and "d3 = d2 mod 1461"
  define e r where "e = d3 div 365" and "r = d3 mod 365"
  have d1: "D = 146097 * a + d1 \<and> 0 \<le> d1 \<and> d1 < 146097" unfolding a_def d1_def by (rule mod_digits) simp
  have d2: "d1 = 36524 * b + d2 \<and> 0 \<le> d2 \<and> d2 < 36524" unfolding b_def d2_def by (rule mod_digits) simp
  have d3: "d2 = 1461 * c + d3 \<and> 0 \<le> d3 \<and> d3 < 1461" unfolding c_def d3_def by (rule mod_digits) simp
  have r: "d3 = 365 * e + r \<and> 0 \<le> r \<and> r < 365" unfolding e_def r_def by (rule mod_digits) simp
  obtain y doy where y: "(y, doy) = (if b = 4 \<or> e = 4 then (400 * a + 100 * b + 4 * c + e, 365) else (400 * a + 100 * b + 4 * c + e + 1, r))"
    by (metis surj_pair)
  note yd = year_of_day [OF conjunct1 [OF d1] conjunct1 [OF conjunct2 [OF d1]] conjunct2 [OF conjunct2 [OF d1]]
      conjunct1 [OF d2] conjunct1 [OF conjunct2 [OF d2]] conjunct2 [OF conjunct2 [OF d2]]
      conjunct1 [OF d3] conjunct1 [OF conjunct2 [OF d3]] conjunct2 [OF conjunct2 [OF d3]]
      conjunct1 [OF r] conjunct1 [OF conjunct2 [OF r]] conjunct2 [OF conjunct2 [OF r]] y]
  have a: "- 14600 \<le> a" "a \<le> 14600" using d1 D by linarith+
  obtain m where m: "0 \<le> m" "m < 12" "month_start (leap y) m \<le> doy" "doy < month_start (leap y) m + days_in (leap y) m"
    using month_exists [OF yd(2,3)] by blast
  note mf = month_formula [OF m]
  let ?corr = "if doy \<ge> (if leap y then 60 else 59) then if leap y then 1 else 2 else 0"
  have doy: "doy \<le> 365" using yd(3) by (simp split: if_splits)
  have fD: "fl (of_int day + of_int (JULIAN_1970_CE - JULIAN_1_CE)) = of_int D"
    using fl_int [of D] D by (simp add: D_def JULIAN_1970_CE_def JULIAN_1_CE_def)
  have fD1: "fl (of_int D + 1) = of_int (D + 1)" using fl_int [of "D + 1"] D by simp
  have fd: "floorDivide_rem (of_int D) 146097 = Some (a, d1)" "floorDivide_rem (of_int d1) 36524 = Some (b, d2)"
    "floorDivide_rem (of_int d2) 1461 = Some (c, d3)" "floorDivide_rem (of_int d3) 365 = Some (e, r)"
    using d1 d2 d3 D a yd(4-9)
    by (intro floorDivide_rem_digits [OF d1] floorDivide_rem_digits [OF d2] floorDivide_rem_digits [OF d3]
        floorDivide_rem_digits [OF r]; simp)+
  have yb: "i32 (400 * a) = Some (400 * a)" "i32 (100 * b) = Some (100 * b)" "i32 (400 * a + 100 * b) = Some (400 * a + 100 * b)"
    "i32 (4 * c) = Some (4 * c)" "i32 (400 * a + 100 * b + 4 * c) = Some (400 * a + 100 * b + 4 * c)"
    "i32 (400 * a + 100 * b + 4 * c + e) = Some (400 * a + 100 * b + 4 * c + e)"
    "i32 (400 * a + 100 * b + 4 * c + e + 1) = Some (400 * a + 100 * b + 4 * c + e + 1)"
    using a yd(4-9) by simp_all
  have pair: "(if b = 4 \<or> e = 4 then Some (400 * a + 100 * b + 4 * c + e, 365)
      else Some (400 * a + 100 * b + 4 * c + e + 1, r)) = Some (y, doy)"
    using y by simp
  have dow: "to_int32 (uprv_fmod (of_int (D + 1)) 7) = Some w \<Longrightarrow> w + (if w < 0 then 1 + 7 else 1) = (day + 4) mod 7 + 1" for w
  proof -
    assume "to_int32 (uprv_fmod (of_int (D + 1)) 7) = Some w"
    moreover have "(D + 1) mod 7 = (day + 4) mod 7"
    proof -
      have "D + 1 = day + 4 + 7 * 102737" by (simp add: D_def)
      then show ?thesis by (metis mod_mult_self2)
    qed
    moreover have "0 \<le> (day + 4) mod 7" "(day + 4) mod 7 < 7" by simp_all
    ultimately show ?thesis using fmod_7 [of "D + 1"] by (simp split: if_splits)
  qed
  obtain w where w: "to_int32 (uprv_fmod (of_int (D + 1)) 7) = Some w" using fmod_7 by blast
  have mth: "i32 (12 * (doy + ?corr) + 6) = Some (12 * (doy + ?corr) + 6)" "(12 * (doy + ?corr) + 6) sdiv 367 = m"
    using yd(2) doy by (auto intro!: i32_Some simp: mf [symmetric] sdiv_pos)
  define s where "s = month_start (leap y) m"
  have tab: "at_index DAYS_BEFORE (m + (if leap y then 12 else 0)) = Some s"
    unfolding s_def by (rule DAYS_BEFORE_Some [OF m(1,2)])
  have "days_in (leap y) m \<le> 31" by simp
  then have "doy - month_start (leap y) m < 31" using m(4) by linarith
  then have s: "s \<le> doy" "doy < s + days_in (leap y) m" "i32 (doy - s + 1) = Some (doy - s + 1)" "i32 (doy + 1) = Some (doy + 1)"
    using m(3,4) yd(2) doy unfolding s_def by (auto intro!: i32_Some)
  have de: "month_start (leap y) m + (doy - s + 1) = doy + 1" by (simp add: s_def)
  show thesis
  proof (rule that)
    show "dayToFields (of_int day) = Some \<lparr>f_year = y, f_month = m, f_dom = doy - s + 1, f_dow = (day + 4) mod 7 + 1,
        f_doy = month_start (leap y) m + (doy - s + 1)\<rparr>"
      unfolding dayToFields_def Let_def fD fD1 de
      by (simp only: bind.bind_lunit prod.case fd yb pair w isLeapYear_leap mth tab s dow [OF w])
    show "valid_date y m (doy - s + 1)" using m s by (auto simp: valid_date_def month_days_def)
    show "epoch_day y m (doy - s + 1) = day" using yd(1) by (simp add: epoch_day_def s_def D_def)
    show "- 5850000 \<le> y" "y \<le> 5850000" using y a yd(4-9) by (auto split: if_splits)
  qed
qed


lemma year_start_mono: "year_start y + 365 * int n \<le> year_start (y + int n)"
proof (induction n)
  case (Suc n)
  have "year_start (y + int (Suc n)) = year_start (y + int n) + (if leap (y + int n) then 366 else 365)"
    using year_length [of "y + int n"] by (simp add: ac_simps)
  then show ?case using Suc by (simp split: if_splits)
qed simp

lemma date_in_year:
  assumes "valid_date y m d"
  shows "1 \<le> month_start (leap y) m + d" and "month_start (leap y) m + d \<le> (if leap y then 366 else 365)"
proof -
  have "0 \<le> m" "m < 12" using assms by (auto simp: valid_date_def)
  then show "1 \<le> month_start (leap y) m + d" and "month_start (leap y) m + d \<le> (if leap y then 366 else 365)"
    using assms by (atomize (full), rule_tac month_cases [of m]) (auto simp: valid_date_def month_days_def)
qed

lemma epoch_day_inj:
  assumes v: "valid_date y m d" and v': "valid_date y' m' d'" and e: "epoch_day y m d = epoch_day y' m' d'"
  shows "y = y' \<and> m = m' \<and> d = d'"
proof -
  have less: "epoch_day y m d < epoch_day y' m' d'" if "y < y'" "valid_date y m d" "valid_date y' m' d'" for y m d y' m' d'
  proof -
    have "year_start (y + 1) \<le> year_start y'" using year_start_mono [of "y + 1" "nat (y' - (y + 1))"] that(1) by simp
    then show ?thesis using year_length [of y] date_in_year [OF that(2)] date_in_year [OF that(3)]
      by (simp add: epoch_day_def split: if_splits)
  qed
  have y: "y = y'" using less [OF _ v v'] less [OF _ v' v] e by (metis less_irrefl neqE)
  have m: "0 \<le> m" "m < 12" "0 \<le> m'" "m' < 12" using v v' by (auto simp: valid_date_def)
  have eq: "month_start (leap y) m + d = month_start (leap y) m' + d'" using e y by (simp add: epoch_day_def)
  have dm: "1 \<le> d" "d \<le> days_in (leap y) m" "1 \<le> d'" "d' \<le> days_in (leap y) m'"
    using v v' unfolding valid_date_def month_days_def y by blast+
  have "m = m'"
    using month_formula [OF m(1,2), of "leap y" "month_start (leap y) m + d - 1"]
      month_formula [OF m(3,4), of "leap y" "month_start (leap y) m' + d' - 1"] dm eq by simp
  then show ?thesis using eq y by simp
qed


section \<open>Properties\<close>

lemma epoch: "epoch_day 1970 0 1 = 0"
  by (simp add: epoch_day_def year_start_def)

lemma next_year: "next_date (y, m, d) = (y', m', d') \<Longrightarrow> y \<le> y' \<and> y' \<le> y + 1"
  by (auto simp: next_date_def split: if_splits)

text \<open>
  C32. The day numbers count the days of the Gregorian calendar.  For every valid date of the years from -5840000 to
  5840000, \<open>fieldsToDay\<close> runs without overflow, and the next date of the calendar, by the rules for month lengths
  and leap years, has the next number; the first of January 1970 has the number 0; \<open>monthLength\<close> is the length of
  the month.
\<close>

theorem grego_counts_days:
  assumes "- 5840000 \<le> y" and "y \<le> 5840000" and "valid_date y m d" and "next_date (y, m, d) = (y', m', d')"
  shows "(\<exists>n. fieldsToDay y m d = Some (of_int n) \<and> fieldsToDay y' m' d' = Some (of_int (n + 1))) \<and>
    fieldsToDay 1970 0 1 = Some 0 \<and> monthLength y m = Some (month_days y m)"
proof -
  have y': "- 5850000 \<le> y'" "y' \<le> 5850000" using next_year [OF assms(4)] assms(1,2) by auto
  have y: "- 5850000 \<le> y" "y \<le> 5850000" using assms(1,2) by auto
  note nx = epoch_day_next [OF assms(3,4)]
  have "\<exists>n. fieldsToDay y m d = Some (of_int n) \<and> fieldsToDay y' m' d' = Some (of_int (n + 1))"
    using fieldsToDay_eq [OF y assms(3)] fieldsToDay_eq [OF y' nx(2)] nx(1) by (intro exI [of _ "epoch_day y m d"]) simp
  moreover have "fieldsToDay 1970 0 1 = Some 0"
    using fieldsToDay_eq [of 1970 0 1] epoch by (simp add: valid_date_def month_days_def)
  moreover have "monthLength y m = Some (month_days y m)" using monthLength_days assms(3) by (auto simp: valid_date_def)
  ultimately show ?thesis by blast
qed


theorem grego_counts_days_witness:
  "\<exists>n. fieldsToDay 2000 1 28 = Some (of_int n) \<and> fieldsToDay 2000 1 29 = Some (of_int (n + 1))"
  using grego_counts_days [of 2000 1 28 2000 1 29] by (simp add: valid_date_def month_days_def leap_def next_date_def)

lemma dayOfWeek_eq:
  assumes "\<bar>day\<bar> \<le> 2 ^ 32"
  shows "dayOfWeek (of_int day) = Some ((day + 4) mod 7 + 1)"
proof -
  have f: "fl (of_int day + 5) = of_int (day + 5)" using fl_int [of "day + 5"] assms by simp
  have "- (2 ^ 31) \<le> (day + 5) div 7" "(day + 5) div 7 < 2 ^ 31" using assms by auto
  then have d: "floorDivide_rem (of_int (day + 5)) 7 = Some ((day + 5) div 7, (day + 5) mod 7)"
    using assms by (intro floorDivide_rem_eq) auto
  have "(day + 5) mod 7 = (if (day + 4) mod 7 = 6 then 0 else (day + 4) mod 7 + 1)" by presburger
  then show ?thesis unfolding dayOfWeek_def f d by auto
qed

text \<open>
  C31. Day numbers and dates are in bijection.  For every day number whose Julian day is in the supported range,
  \<open>dayToFields\<close> runs without overflow and gives a valid date, from which \<open>fieldsToDay\<close> gives the day number
  back; no other valid date has this number; the day of the week advances with the day number and is the one
  \<open>dayOfWeek\<close> gives, and the day of the year counts from the first of January.
\<close>

theorem grego_roundtrip:
  assumes "\<bar>day + 2440588\<bar> \<le> 0x7F000000"
  shows "\<exists>f. dayToFields (of_int day) = Some f \<and> valid_date (f_year f) (f_month f) (f_dom f) \<and>
    fieldsToDay (f_year f) (f_month f) (f_dom f) = Some (of_int day) \<and>
    (\<forall>y m d. \<bar>y\<bar> \<le> 5850000 \<longrightarrow> valid_date y m d \<longrightarrow> fieldsToDay y m d = Some (of_int day) \<longrightarrow>
       (y, m, d) = (f_year f, f_month f, f_dom f)) \<and>
    f_dow f = (day + 4) mod 7 + 1 \<and> dayOfWeek (of_int day) = Some (f_dow f) \<and>
    fieldsToDay (f_year f) 0 1 = Some (of_int (day - (f_doy f - 1)))"
proof -
  from assms obtain y m d where f: "dayToFields (of_int day) =
      Some \<lparr>f_year = y, f_month = m, f_dom = d, f_dow = (day + 4) mod 7 + 1, f_doy = month_start (leap y) m + d\<rparr>"
    and v: "valid_date y m d" and e: "epoch_day y m d = day" and y: "- 5850000 \<le> y" "y \<le> 5850000"
    by (rule dayToFields_ok)
  have jan: "valid_date y 0 1" by (simp add: valid_date_def month_days_def)
  have "epoch_day y 0 1 = day - (month_start (leap y) m + d - 1)" using e by (simp add: epoch_day_def)
  then have j: "fieldsToDay y 0 1 = Some (of_int (day - (month_start (leap y) m + d - 1)))"
    using fieldsToDay_eq [OF y jan] by simp
  have inj: "(y', m', d') = (y, m, d)"
    if "\<bar>y'\<bar> \<le> 5850000" "valid_date y' m' d'" "fieldsToDay y' m' d' = Some (of_int day)" for y' m' d'
  proof -
    have "epoch_day y' m' d' = day" using fieldsToDay_eq [of y' m' d'] that by auto
    then show ?thesis using epoch_day_inj [OF that(2) v] e by simp
  qed
  have "\<bar>day\<bar> \<le> 2 ^ 32" using assms by auto
  from dayOfWeek_eq [OF this] show ?thesis
    unfolding f using v fieldsToDay_eq [OF y v] e j inj by auto
qed

theorem grego_roundtrip_witness: "\<exists>f. dayToFields (of_int 11016) = Some f \<and> f_dow f = 3 \<and>
    (f_year f, f_month f, f_dom f) = (2000, 1, 29)"
proof -
  have "fieldsToDay 2000 1 29 = Some (of_int (epoch_day 2000 1 29))"
    by (rule fieldsToDay_eq) (simp_all add: valid_date_def month_days_def leap_def)
  also have "epoch_day 2000 1 29 = 11016" by (simp add: epoch_day_def year_start_def)
  finally have "fieldsToDay 2000 1 29 = Some (of_int 11016)" .
  moreover have "valid_date 2000 1 29" by (simp add: valid_date_def month_days_def leap_def)
  ultimately show ?thesis using grego_roundtrip [of 11016] by fastforce
qed

text \<open>
  C33. Splitting a time in milliseconds into a date and the milliseconds within the day is exact for every integral
  time of magnitude up to \<open>2 ^ 53\<close> less one day, in spite of the rounding of the quotient: nothing overflows,
  the milliseconds are those since midnight, and the day number of the date and the milliseconds add up to the time.
\<close>

theorem grego_time_fields:
  assumes "\<bar>t\<bar> + 86400000 \<le> 2 ^ 53"
  shows "\<exists>f mid day. timeToFields (of_int t) = Some (f, mid) \<and> 0 \<le> mid \<and> mid < 86400000 \<and>
    valid_date (f_year f) (f_month f) (f_dom f) \<and>
    fieldsToDay (f_year f) (f_month f) (f_dom f) = Some (of_int day) \<and> day * 86400000 + mid = t"
proof -
  define day where "day = t div 86400000"
  have day: "\<bar>day\<bar> \<le> 2 ^ 27" unfolding day_def using assms by auto
  have fd: "floorDivide_double_rem (of_int t) kOneDay = (of_int day, of_int (t mod 86400000))"
    using floorDivide_double_rem_eq [of t 86400000] assms by (simp add: kOneDay_def day_def)
  have "\<bar>day + 2440588\<bar> \<le> 0x7F000000" using day by auto
  then obtain y m d where f: "dayToFields (of_int day) =
      Some \<lparr>f_year = y, f_month = m, f_dom = d, f_dow = (day + 4) mod 7 + 1, f_doy = month_start (leap y) m + d\<rparr>"
    and v: "valid_date y m d" and e: "epoch_day y m d = day" and y: "- 5850000 \<le> y" "y \<le> 5850000"
    by (rule dayToFields_ok)
  have m: "0 \<le> t mod 86400000" "t mod 86400000 < 86400000" by simp_all
  then have "i32 (t mod 86400000) = Some (t mod 86400000)" by (intro i32_Some) auto
  then have "timeToFields (of_int t) = Some (the (dayToFields (of_int day)), t mod 86400000)"
    unfolding timeToFields_def fd by (simp add: f)
  moreover have "day * 86400000 + t mod 86400000 = t" unfolding day_def by simp
  ultimately show ?thesis using m v fieldsToDay_eq [OF y v] e by (auto simp: f intro!: exI [of _ day])
qed

theorem grego_time_fields_witness:
  "\<exists>f mid day. timeToFields (of_int (- 1)) = Some (f, mid) \<and> 0 \<le> mid \<and> mid < 86400000 \<and>
    fieldsToDay (f_year f) (f_month f) (f_dom f) = Some (of_int day) \<and> day * 86400000 + mid = - 1"
  using grego_time_fields [of "- 1"] by fastforce

text \<open>
  Julian days and milliseconds convert back and forth exactly over the whole range in which the subtraction of the
  epoch does not overflow, although the milliseconds there exceed \<open>2 ^ 53\<close>; outside it the conversion
  overflows.
\<close>

theorem julian_millis_roundtrip:
  assumes "- (2 ^ 31) \<le> j" and "j < 2 ^ 31"
  shows "if - (2 ^ 31) \<le> j - 2440588
    then \<exists>ms. julianDayToMillis j = Some ms \<and> ms = of_int ((j - 2440588) * 86400000) \<and> millisToJulianDay ms = Some j
    else julianDayToMillis j = None"
proof (cases "- (2 ^ 31) \<le> j - 2440588")
  case True
  let ?d = "j - 2440588"
  have "\<bar>?d * 84375\<bar> \<le> 2 ^ 53" using True assms by auto
  from fl_scaled [OF this, of 10] have f: "fl (of_int ?d * 86400000) = of_int ?d * 86400000" by (simp add: mult.commute)
  have c: "x * 86400000 / 86400000 = x" for x :: rat by simp
  have q: "fl (of_int ?d * 86400000 / 86400000) = of_int ?d" unfolding c using True assms by (intro fl_int) auto
  have s: "fl (of_int 2440588 + of_int ?d) = of_int j" using fl_int [of j] assms by auto
  have "millisToJulianDay (of_int ?d * 86400000) = to_int32 (of_int j)"
    unfolding millisToJulianDay_def floorDivide_double_def uprv_floor_def kOneDay_def JULIAN_1970_CE_def q floor_of_int s ..
  also have "\<dots> = Some j" using assms by simp
  finally have "millisToJulianDay (of_int ?d * 86400000) = Some j" .
  moreover have "julianDayToMillis j = Some (of_int ?d * 86400000)"
    using f True assms unfolding julianDayToMillis_def JULIAN_1970_CE_def kOneDay_def by simp
  ultimately show ?thesis using True by simp
qed (simp add: julianDayToMillis_def i32_def JULIAN_1970_CE_def)

theorem julian_millis_roundtrip_witness:
  "\<exists>ms. julianDayToMillis 0x7F000000 = Some ms \<and> millisToJulianDay ms = Some 0x7F000000"
  using julian_millis_roundtrip [of "0x7F000000"] by auto

end
