(* ===== verification/ArraySort.thy ===== *)
theory ArraySort
  imports Prelude UVector "HOL-Library.Monad_Syntax" "HOL-Library.Multiset"
begin

text \<open>
  Sorting of arrays: \<open>common/uarrsort.c\<close>, the binary search and insertion sort, the quicksort on top of it and
  \<open>uprv_sortArray\<close>, and the methods of \<open>UVector\<close> that hand their array to it.

  An array of items of \<open>itemSize\<close> bytes is a list of items, moved by \<open>memcpy\<close> and \<open>memmove\<close> as wholes; the
  comparator is a function of two items, its context argument applied.  The items are addressed as
  \<open>array+i*itemSize\<close> with 32-bit offsets: every read checks that the product does not overflow and that the item is in the
  array, and the sums \<open>start+limit\<close> and \<open>start+MIN_QSORT\<close> are checked in the same way.  \<open>None\<close> is an undefined
  overflow, an access outside the array, or, for the quicksort, no end of the recursion, which a comparator that is no order can
  cause.
\<close>

section \<open>Comparators\<close>

type_synonym 'a UComparator = "'a \<Rightarrow> 'a \<Rightarrow> int"

definition uprv_uint16Comparator :: "int UComparator" where
  "uprv_uint16Comparator left right = left - right"

definition uprv_int32Comparator :: "int UComparator" where
  "uprv_int32Comparator left right = wrap_int32 (left - right)"

definition uprv_uint32Comparator :: "int UComparator" where
  "uprv_uint32Comparator l r = (if l < r then - 1 else if l = r then 0 else 1)"

section \<open>Binary search and insertion sort\<close>

abbreviation (input) MIN_QSORT :: nat where "MIN_QSORT \<equiv> 9"
abbreviation (input) STACK_ITEM_SIZE :: int where "STACK_ITEM_SIZE \<equiv> 200"

text \<open>\<open>array+i*itemSize\<close>, and \<open>(start+limit)/2\<close>\<close>

definition item_at :: "int \<Rightarrow> 'a list \<Rightarrow> nat \<Rightarrow> 'a option" where
  "item_at itemSize a i = (if int i * itemSize \<le> INT32_MAX \<and> i < length a then Some (a ! i) else None)"

definition middle :: "nat \<Rightarrow> nat \<Rightarrow> nat option" where
  "middle start limit = (if int start + int limit \<le> INT32_MAX then Some ((start + limit) div 2) else None)"

lemma middle_bounds: "middle start limit = Some i \<Longrightarrow> i = (start + limit) div 2"
  by (simp add: middle_def split: if_splits)

function search_binary ::
  "'a UComparator \<Rightarrow> int \<Rightarrow> 'a list \<Rightarrow> 'a \<Rightarrow> nat \<Rightarrow> nat \<Rightarrow> bool \<Rightarrow> (nat \<times> nat \<times> bool) option" where
  "search_binary cmp itemSize a item start limit found =
     (if start + MIN_QSORT \<le> limit then
        case middle start limit of
          None \<Rightarrow> None
        | Some i \<Rightarrow>
            (case item_at itemSize a i of
               None \<Rightarrow> None
             | Some y \<Rightarrow>
                 let diff = cmp item y in
                 if diff = 0 then search_binary cmp itemSize a item (i + 1) limit True
                 else if diff < 0 then search_binary cmp itemSize a item start i found
                 else search_binary cmp itemSize a item i limit found)
      else Some (start, limit, found))"
  by pat_completeness auto
termination
  by (relation "measure (\<lambda>(cmp, itemSize, a, item, start, limit, found). limit - start)") (auto dest!: middle_bounds)

function search_linear :: "'a UComparator \<Rightarrow> int \<Rightarrow> 'a list \<Rightarrow> 'a \<Rightarrow> nat \<Rightarrow> nat \<Rightarrow> bool \<Rightarrow> (nat \<times> bool) option" where
  "search_linear cmp itemSize a item start limit found =
     (if start < limit then
        case item_at itemSize a start of
          None \<Rightarrow> None
        | Some y \<Rightarrow>
            let diff = cmp item y in
            if diff < 0 then Some (start, found)
            else search_linear cmp itemSize a item (start + 1) limit (if diff = 0 then True else found)
      else Some (start, found))"
  by pat_completeness auto
termination
  by (relation "measure (\<lambda>(cmp, itemSize, a, item, start, limit, found). limit - start)") auto

declare search_binary.simps [simp del] search_linear.simps [simp del]

text \<open>The result is the index of the last equal item, or \<open>~start\<close>, which is \<open>-start-1\<close>.\<close>

definition uprv_stableBinarySearch :: "'a UComparator \<Rightarrow> int \<Rightarrow> 'a list \<Rightarrow> nat \<Rightarrow> 'a \<Rightarrow> int option" where
  "uprv_stableBinarySearch cmp itemSize a limit item = do {
     (start, limit, found) \<leftarrow> search_binary cmp itemSize a item 0 limit False;
     (start, found) \<leftarrow> search_linear cmp itemSize a item start limit found;
     Some (if found then int start - 1 else - int start - 1)
   }"

text \<open>
  The body of the loop of \<open>doInsertionSort\<close>: \<open>memmove\<close> shifts the items between the insertion point and \<open>j\<close> by
  one.  Its offset and size are at most \<open>j*itemSize\<close>, which \<open>item_at\<close> has checked.
\<close>

definition insert_item :: "'a UComparator \<Rightarrow> int \<Rightarrow> 'a list \<Rightarrow> nat \<Rightarrow> 'a list option" where
  "insert_item cmp itemSize a j = do {
     item \<leftarrow> item_at itemSize a j;
     p \<leftarrow> uprv_stableBinarySearch cmp itemSize a j item;
     let insertionPoint = nat (if p < 0 then - p - 1 else p + 1);
     Some (if insertionPoint < j
           then take insertionPoint a @ [item] @ drop insertionPoint (take j a) @ drop (j + 1) a
           else a)
   }"

function doInsertionSort_loop :: "'a UComparator \<Rightarrow> int \<Rightarrow> 'a list \<Rightarrow> nat \<Rightarrow> nat \<Rightarrow> 'a list option" where
  "doInsertionSort_loop cmp itemSize a len j =
     (if j < len then case insert_item cmp itemSize a j of None \<Rightarrow> None | Some a \<Rightarrow> doInsertionSort_loop cmp itemSize a len (j + 1)
      else Some a)"
  by pat_completeness auto
termination
  by (relation "measure (\<lambda>(cmp, itemSize, a, len, j). len - j)") auto

declare doInsertionSort_loop.simps [simp del]

definition doInsertionSort :: "'a UComparator \<Rightarrow> int \<Rightarrow> 'a list \<Rightarrow> nat \<Rightarrow> 'a list option" where
  "doInsertionSort cmp itemSize a len = doInsertionSort_loop cmp itemSize a len 1"

section \<open>Quicksort\<close>

text \<open>\<open>while(cmp(context, array+left*itemSize, px)<0) { ++left; }\<close> and its mirror image.\<close>

function scan_left :: "'a UComparator \<Rightarrow> int \<Rightarrow> 'a list \<Rightarrow> 'a \<Rightarrow> nat \<Rightarrow> nat option" where
  "scan_left cmp itemSize a x left =
     (case item_at itemSize a left of
        None \<Rightarrow> None
      | Some y \<Rightarrow> if cmp y x < 0 then scan_left cmp itemSize a x (left + 1) else Some left)"
  by pat_completeness auto
termination
  by (relation "measure (\<lambda>(cmp, itemSize, a, x, left). length a - left)") (auto simp: item_at_def split: if_splits)

fun scan_right :: "'a UComparator \<Rightarrow> int \<Rightarrow> 'a list \<Rightarrow> 'a \<Rightarrow> nat \<Rightarrow> nat option" where
  "scan_right cmp itemSize a x 0 = None"
| "scan_right cmp itemSize a x (Suc right) =
     (case item_at itemSize a right of
        None \<Rightarrow> None
      | Some y \<Rightarrow> if cmp x y < 0 then scan_right cmp itemSize a x right else Some (Suc right))"

declare scan_left.simps [simp del]

lemma scan_left_ge: "scan_left cmp itemSize a x l = Some l' \<Longrightarrow> l \<le> l'"
  by (induction cmp itemSize a x l rule: scan_left.induct) (subst (asm) (2) scan_left.simps, fastforce split: option.splits if_splits)

lemma scan_right_le: "scan_right cmp itemSize a x r = Some r' \<Longrightarrow> r' \<le> r"
  by (induction cmp itemSize a x r rule: scan_right.induct) (auto split: option.splits if_splits)

text \<open>The \<open>do ... while(left<right)\<close> loop that partitions the items around \<open>x\<close>.\<close>

function partition_loop :: "'a UComparator \<Rightarrow> int \<Rightarrow> 'a \<Rightarrow> 'a list \<Rightarrow> nat \<Rightarrow> nat \<Rightarrow> ('a list \<times> nat \<times> nat) option" where
  "partition_loop cmp itemSize x a left right =
     (case scan_left cmp itemSize a x left of
        None \<Rightarrow> None
      | Some left \<Rightarrow>
          (case scan_right cmp itemSize a x right of
             None \<Rightarrow> None
           | Some right \<Rightarrow>
               if left < right then
                 let right = right - 1;
                     a = (if left < right then a[left := a ! right, right := a ! left] else a);
                     left = left + 1 in
                 if left < right then partition_loop cmp itemSize x a left right else Some (a, left, right)
               else Some (a, left, right)))"
  by pat_completeness auto
termination
  by (relation "measure (\<lambda>(cmp, itemSize, x, a, left, right). right - left)")
    (auto dest!: scan_left_ge scan_right_le)

declare partition_loop.simps [simp del]

text \<open>
  \<open>None\<close> is an overflow, an access outside the array or no end of the recursion.  The pointer \<open>array+start*itemSize\<close> is the
  list without its first \<open>start\<close> items.
\<close>

partial_function (option) subQuickSort :: "'a UComparator \<Rightarrow> int \<Rightarrow> 'a list \<Rightarrow> nat \<Rightarrow> nat \<Rightarrow> 'a list option" where
  "subQuickSort cmp itemSize a start limit =
     (if int start + int MIN_QSORT > INT32_MAX then None
      else if start + MIN_QSORT \<ge> limit
      then if int start * itemSize > INT32_MAX then None else map_option ((@) (take start a)) (doInsertionSort cmp itemSize (drop start a) (limit - start))
      else
        Option.bind (Option.bind (middle start limit) (item_at itemSize a)) (\<lambda>x.
        Option.bind (partition_loop cmp itemSize x a start limit) (\<lambda>(a, left, right).
          if int right - int start < int limit - int left then
            Option.bind (if start + 1 < right then subQuickSort cmp itemSize a start right else Some a) (\<lambda>a.
              if left + 1 < limit then subQuickSort cmp itemSize a left limit else Some a)
          else
            Option.bind (if left + 1 < limit then subQuickSort cmp itemSize a left limit else Some a) (\<lambda>a.
              if start + 1 < right then subQuickSort cmp itemSize a start right else Some a))))"

declare subQuickSort.simps [code]

section \<open>The interface\<close>

text \<open>
  \<open>alloc\<close> is the answer of the allocator, asked only for items of more than 200 bytes; \<open>array\<close> is the whole array
  and \<open>len\<close> the number of its first items to be sorted.
\<close>

definition insertionSort ::
  "allocator \<Rightarrow> 'a list \<Rightarrow> nat \<Rightarrow> int \<Rightarrow> 'a UComparator \<Rightarrow> UErrorCode \<Rightarrow> ('a list \<times> UErrorCode) option" where
  "insertionSort alloc a len itemSize cmp ec =
     (if itemSize \<le> STACK_ITEM_SIZE \<or> alloc itemSize
      then map_option (\<lambda>a. (a, ec)) (doInsertionSort cmp itemSize a len)
      else Some (a, U_MEMORY_ALLOCATION_ERROR))"

definition quickSort ::
  "allocator \<Rightarrow> 'a list \<Rightarrow> nat \<Rightarrow> int \<Rightarrow> 'a UComparator \<Rightarrow> UErrorCode \<Rightarrow> ('a list \<times> UErrorCode) option" where
  "quickSort alloc a len itemSize cmp ec =
     (if itemSize > STACK_ITEM_SIZE \<and> 2 * itemSize > INT32_MAX then None
      else if itemSize \<le> STACK_ITEM_SIZE \<or> alloc (2 * itemSize)
      then map_option (\<lambda>a. (a, ec)) (subQuickSort cmp itemSize a 0 len)
      else Some (a, U_MEMORY_ALLOCATION_ERROR))"

text \<open>\<open>None\<close> for the array or the comparator is the null pointer.\<close>

definition uprv_sortArray ::
  "allocator \<Rightarrow> 'a list option \<Rightarrow> int \<Rightarrow> int \<Rightarrow> 'a UComparator option \<Rightarrow> bool \<Rightarrow> UErrorCode \<Rightarrow>
   ('a list option \<times> UErrorCode) option" where
  "uprv_sortArray alloc array len itemSize cmp sortStable ec =
     (if U_FAILURE ec then Some (array, ec)
      else if (len > 0 \<and> array = None) \<or> len < 0 \<or> itemSize \<le> 0 \<or> cmp = None
      then Some (array, U_ILLEGAL_ARGUMENT_ERROR)
      else if len \<le> 1 then Some (array, ec)
      else if len < int MIN_QSORT \<or> sortStable
      then map_option (map_prod Some id) (insertionSort alloc (the array) (nat len) itemSize (the cmp) ec)
      else map_option (map_prod Some id) (quickSort alloc (the array) (nat len) itemSize (the cmp) ec))"


section \<open>Sorting a vector\<close>

definition sortComparator :: "('p UElement \<Rightarrow> 'p UElement \<Rightarrow> int) \<Rightarrow> 'p UElement UComparator" where
  "sortComparator compare left right = compare left right"

definition sortiComparator :: "'p UElement UComparator" where
  "sortiComparator left right =
     (if as_integer left < as_integer right then - 1 else if as_integer left = as_integer right then 0 else 1)"

definition UVector_sort_elements ::
  "allocator \<Rightarrow> 'p UVector \<Rightarrow> 'p UElement UComparator \<Rightarrow> bool \<Rightarrow> UErrorCode \<Rightarrow> ('p UVector \<times> UErrorCode) option" where
  "UVector_sort_elements alloc v cmp sortStable ec = do {
     (a, ec) \<leftarrow> uprv_sortArray alloc (Some (elements v)) (count v) sizeof_UElement (Some cmp) sortStable ec;
     Some (v\<lparr>elements := the a\<rparr>, ec)
   }"

definition UVector_sorti :: "allocator \<Rightarrow> 'p UVector \<Rightarrow> UErrorCode \<Rightarrow> ('p UVector \<times> UErrorCode) option" where
  "UVector_sorti alloc v ec =
     (if U_SUCCESS ec then UVector_sort_elements alloc v sortiComparator False ec else Some (v, ec))"

definition UVector_sort ::
  "allocator \<Rightarrow> 'p UVector \<Rightarrow> ('p UElement \<Rightarrow> 'p UElement \<Rightarrow> int) \<Rightarrow> UErrorCode \<Rightarrow> ('p UVector \<times> UErrorCode) option" where
  "UVector_sort alloc v compare ec =
     (if U_SUCCESS ec then UVector_sort_elements alloc v (sortComparator compare) False ec else Some (v, ec))"

definition UVector_sortWithUComparator ::
  "allocator \<Rightarrow> 'p UVector \<Rightarrow> 'p UElement UComparator \<Rightarrow> UErrorCode \<Rightarrow> ('p UVector \<times> UErrorCode) option" where
  "UVector_sortWithUComparator alloc v compare ec =
     (if U_SUCCESS ec then UVector_sort_elements alloc v compare True ec else Some (v, ec))"

end
