(* ===== verification/ArraySortProps.thy ===== *)
theory ArraySortProps
  imports ArraySort
begin

text \<open>
  The array sort of \<open>common/uarrsort.c\<close> is correct for every comparator that keeps the contract of
  \<open>UComparator\<close>: the contract is the locale \<open>comparator_on\<close>, in which the search, the insertion sort, the
  partition and the quicksort are verified once; the comparators of the code are its interpretations.
\<close>

section \<open>Comparators\<close>

text \<open>What the documentation of \<open>UComparator\<close> asks for, on the items \<open>A\<close> that occur.\<close>

text \<open>
  Arrays of \<open>n\<close> items of \<open>z\<close> bytes that can be addressed with 32-bit offsets and halved without overflow; for items of two
  bytes or more the first condition gives the second.
\<close>

definition fits :: "int \<Rightarrow> nat \<Rightarrow> bool" where
  "fits z n \<longleftrightarrow> 0 < z \<and> int n * z \<le> INT32_MAX \<and> 2 * int n \<le> INT32_MAX"

lemma fits_mono: "fits z n \<Longrightarrow> m \<le> n \<Longrightarrow> fits z m"
proof -
  assume f: "fits z n" and m: "m \<le> n"
  then have "int m * z \<le> int n * z" by (intro mult_right_mono) (auto simp: fits_def)
  then have "int m * z \<le> 0x7fffffff" using f by (elim order_trans) (simp add: fits_def)
  then show ?thesis using f m by (auto simp: fits_def)
qed

lemma fits_item: "fits z n \<Longrightarrow> i < n \<Longrightarrow> i < length a \<Longrightarrow> item_at z a i = Some (a ! i)"
  using fits_mono [of z n i] by (simp add: item_at_def fits_def)

lemma fits_middle: "fits z n \<Longrightarrow> start \<le> n \<Longrightarrow> limit \<le> n \<Longrightarrow> middle start limit = Some ((start + limit) div 2)"
  by (auto simp: middle_def fits_def)

locale comparator_on =
  fixes A :: "'a set" and cmp :: "'a UComparator"
  assumes sym: "x \<in> A \<Longrightarrow> y \<in> A \<Longrightarrow> cmp x y < 0 \<longleftrightarrow> cmp y x > 0"
    and trans: "x \<in> A \<Longrightarrow> y \<in> A \<Longrightarrow> z \<in> A \<Longrightarrow> cmp x y \<le> 0 \<Longrightarrow> cmp y z \<le> 0 \<Longrightarrow> cmp x z \<le> 0"
begin

lemma refl: "x \<in> A \<Longrightarrow> cmp x x = 0"
  using sym [of x x] by linarith

lemma flip: "x \<in> A \<Longrightarrow> y \<in> A \<Longrightarrow> cmp x y \<le> 0 \<longleftrightarrow> cmp y x \<ge> 0"
  using sym [of y x] by linarith

lemma eq_sym: "x \<in> A \<Longrightarrow> y \<in> A \<Longrightarrow> cmp x y = 0 \<longleftrightarrow> cmp y x = 0"
  using sym [of x y] sym [of y x] by linarith

lemma ge_trans: "x \<in> A \<Longrightarrow> y \<in> A \<Longrightarrow> z \<in> A \<Longrightarrow> cmp x y \<ge> 0 \<Longrightarrow> cmp y z \<ge> 0 \<Longrightarrow> cmp x z \<ge> 0"
  using trans [of z y x] flip by blast

lemma less_le_trans: "x \<in> A \<Longrightarrow> y \<in> A \<Longrightarrow> z \<in> A \<Longrightarrow> cmp x y < 0 \<Longrightarrow> cmp y z \<le> 0 \<Longrightarrow> cmp x z < 0"
  using trans [of y z x] flip [of y x] flip [of z x] by (meson not_le)

lemma le_less_trans: "x \<in> A \<Longrightarrow> y \<in> A \<Longrightarrow> z \<in> A \<Longrightarrow> cmp x y \<le> 0 \<Longrightarrow> cmp y z < 0 \<Longrightarrow> cmp x z < 0"
  using trans [of z x y] flip [of z y] flip [of z x] by (meson not_le)

abbreviation le_sorted :: "'a list \<Rightarrow> bool" where
  "le_sorted \<equiv> sorted_wrt (\<lambda>x y. cmp x y \<le> 0)"

text \<open>\<open>item\<close> belongs at position \<open>k\<close> of the first \<open>n\<close> items, behind all equal ones.\<close>

definition point_at :: "'a list \<Rightarrow> nat \<Rightarrow> 'a \<Rightarrow> nat \<Rightarrow> bool" where
  "point_at a n item k \<longleftrightarrow> k \<le> n \<and> (\<forall>i<k. cmp item (a ! i) \<ge> 0) \<and> (\<forall>i. k \<le> i \<longrightarrow> i < n \<longrightarrow> cmp item (a ! i) < 0)"

text \<open>The state of the search: everything before \<open>start\<close> is at most the item, everything from \<open>limit\<close> on is greater.\<close>

definition search_ok :: "'a list \<Rightarrow> nat \<Rightarrow> 'a \<Rightarrow> nat \<Rightarrow> nat \<Rightarrow> bool \<Rightarrow> bool" where
  "search_ok a n item start limit found \<longleftrightarrow> start \<le> limit \<and> limit \<le> n \<and>
     (\<forall>i < start. cmp item (a ! i) \<ge> 0) \<and> (\<forall>i. limit \<le> i \<longrightarrow> i < n \<longrightarrow> cmp item (a ! i) < 0) \<and>
     (if found then 0 < start \<and> cmp item (a ! (start - 1)) = 0 else \<forall>i < start. cmp item (a ! i) > 0)"

lemma sorted_items_le: "le_sorted (take n a) \<Longrightarrow> i \<le> j \<Longrightarrow> j < n \<Longrightarrow> n \<le> length a \<Longrightarrow> \<forall>i<n. a ! i \<in> A \<Longrightarrow> cmp (a ! i) (a ! j) \<le> 0"
  using refl [of "a ! i"] by (cases "i = j") (auto simp: sorted_wrt_iff_nth_less)

lemma search_ok_step:
  assumes s: "le_sorted (take n a)" and n: "n \<le> length a" and A: "\<forall>i<n. a ! i \<in> A" "item \<in> A"
    and ok: "search_ok a n item start limit found" and i: "start \<le> i" "i < limit"
  shows "cmp item (a ! i) = 0 \<Longrightarrow> search_ok a n item (i + 1) limit True"
    and "cmp item (a ! i) < 0 \<Longrightarrow> search_ok a n item start i found"
    and "cmp item (a ! i) > 0 \<Longrightarrow> search_ok a n item i limit found \<and> search_ok a n item (i + 1) limit found"
proof -
  have inA: "a ! k \<in> A" if "k < n" for k using that A by blast
  have le: "cmp (a ! j) (a ! k) \<le> 0" if "j \<le> k" "k < n" for j k using sorted_items_le [OF s that n A(1)] .
  have lim: "limit \<le> n" "i < n" using ok i by (auto simp: search_ok_def)
  have below: "cmp item (a ! j) \<ge> 0" if "cmp item (a ! i) \<ge> 0" "j \<le> i" for j
    using that le [of j i] lim inA A flip [of "a ! j" "a ! i"] ge_trans [of item "a ! i" "a ! j"] by auto
  have above: "cmp item (a ! j) < 0" if "cmp item (a ! i) < 0" "i \<le> j" "j < n" for j
    using that le [of i j] lim inA A less_le_trans [of item "a ! i" "a ! j"] by auto
  have strict: "cmp item (a ! j) > 0" if "cmp item (a ! i) > 0" "j \<le> i" for j
    using that le [of j i] lim inA A sym [of "a ! j" item] sym [of "a ! i" item] le_less_trans [of "a ! j" "a ! i" item] by auto
  show "cmp item (a ! i) = 0 \<Longrightarrow> search_ok a n item (i + 1) limit True"
    using ok i below by (auto simp: search_ok_def less_Suc_eq_le)
  show "cmp item (a ! i) < 0 \<Longrightarrow> search_ok a n item start i found"
    using ok i above lim by (auto simp: search_ok_def)
  show "cmp item (a ! i) > 0 \<Longrightarrow> search_ok a n item i limit found \<and> search_ok a n item (i + 1) limit found"
  proof -
    assume gt: "cmp item (a ! i) > 0"
    have "start - 1 \<le> i" using i by simp
    from strict [OF gt this] have "\<not> found" using ok by (auto simp: search_ok_def)
    then show ?thesis using ok i strict [OF gt] by (auto simp: search_ok_def less_Suc_eq_le less_imp_le)
  qed
qed

lemma search_binary_ok:
  assumes z: "fits z n" and s: "le_sorted (take n a)" and n: "n \<le> length a" and A: "\<forall>i<n. a ! i \<in> A" "item \<in> A"
  shows "search_ok a n item start limit found \<Longrightarrow>
    \<exists>start' limit' found'. search_binary cmp z a item start limit found = Some (start', limit', found') \<and>
      search_ok a n item start' limit' found'"
proof (induction "limit - start" arbitrary: start limit found rule: less_induct)
  case less
  show ?case
  proof (cases "start + 9 \<le> limit")
    case True
    define i where "i = (start + limit) div 2"
    have i: "start \<le> i" "i < limit" using True by (auto simp: i_def)
    have in_n: "i < n" "limit \<le> n" using less.prems i by (auto simp: search_ok_def)
    then have at: "item_at z a i = Some (a ! i)" "middle start limit = Some i"
      using fits_item [OF z, of i a] fits_middle [OF z, of start limit] n i by (auto simp: i_def)
    note step = search_ok_step [OF s n A less.prems i]
    have eq: "search_binary cmp z a item start limit found =
      (if cmp item (a ! i) = 0 then search_binary cmp z a item (i + 1) limit True
       else if cmp item (a ! i) < 0 then search_binary cmp z a item start i found
       else search_binary cmp z a item i limit found)"
      using True at by (subst search_binary.simps) (simp add: Let_def)
    have small: "limit - (i + 1) < limit - start" "i - start < limit - start" "limit - i < limit - start"
      using True by (auto simp: i_def)
    consider "cmp item (a ! i) = 0" | "cmp item (a ! i) < 0" | "cmp item (a ! i) > 0" by linarith
    then show ?thesis
      using less.hyps [OF small(1) step(1)] less.hyps [OF small(2) step(2)] less.hyps [OF small(3) conjunct1 [OF step(3)]]
      unfolding eq by cases auto
  next
    case False
    then have "search_binary cmp z a item start limit found = Some (start, limit, found)" by (subst search_binary.simps) simp
    then show ?thesis using less.prems by simp
  qed
qed

lemma search_linear_ok:
  assumes z: "fits z n" and s: "le_sorted (take n a)" and n: "n \<le> length a" and A: "\<forall>i<n. a ! i \<in> A" "item \<in> A"
  shows "search_ok a n item start limit found \<Longrightarrow>
    \<exists>k found'. search_linear cmp z a item start limit found = Some (k, found') \<and> search_ok a n item k k found'"
proof (induction "limit - start" arbitrary: start found)
  case 0
  then have "start = limit" by (simp add: search_ok_def)
  then show ?case using 0 by (subst search_linear.simps) simp
next
  case (Suc m)
  have i: "start < limit" using Suc.hyps(2) by simp
  have "start < n" using Suc.prems i by (auto simp: search_ok_def)
  then have at: "item_at z a start = Some (a ! start)" using fits_item [OF z, of start a] n by simp
  note step = search_ok_step [OF s n A Suc.prems order_refl i]
  have eq: "search_linear cmp z a item start limit found =
    (if cmp item (a ! start) < 0 then Some (start, found)
     else search_linear cmp z a item (start + 1) limit (if cmp item (a ! start) = 0 then True else found))"
    using i at by (subst search_linear.simps) (simp add: Let_def)
  have m: "m = limit - (start + 1)" using Suc.hyps(2) by simp
  consider "cmp item (a ! start) = 0" | "cmp item (a ! start) < 0" | "cmp item (a ! start) > 0" by linarith
  then show ?case
    using Suc.hyps(1) [OF m step(1)] step(2) Suc.hyps(1) [OF m conjunct2 [OF step(3)]]
    unfolding eq by cases auto
qed

lemma stableBinarySearch_ok:
  assumes "fits z n" and "le_sorted (take n a)" and "n \<le> length a" and "\<forall>i<n. a ! i \<in> A" and "item \<in> A"
  shows "\<exists>k. point_at a n item k \<and> uprv_stableBinarySearch cmp z a n item =
    Some (if 0 < k \<and> cmp item (a ! (k - 1)) = 0 then int k - 1 else - int k - 1)"
proof -
  have init: "search_ok a n item 0 n False" by (simp add: search_ok_def)
  obtain s l f where b: "search_binary cmp z a item 0 n False = Some (s, l, f)" "search_ok a n item s l f"
    using search_binary_ok [OF assms init] by blast
  obtain k g where l: "search_linear cmp z a item s l f = Some (k, g)" "search_ok a n item k k g"
    using search_linear_ok [OF assms b(2)] by blast
  have "g = (0 < k \<and> cmp item (a ! (k - 1)) = 0)"
  proof (cases "g \<or> k = 0")
    case False
    then have "cmp item (a ! (k - 1)) > 0" using l(2) by (simp add: search_ok_def)
    then show ?thesis using False by simp
  qed (use l(2) in \<open>auto simp: search_ok_def\<close>)
  then show ?thesis using b(1) l by (auto simp: uprv_stableBinarySearch_def search_ok_def point_at_def)
qed

text \<open>Insertion keeps the order and puts the item behind the items equal to it.\<close>

definition stable_rearrangement :: "'a list \<Rightarrow> 'a list \<Rightarrow> bool" where
  "stable_rearrangement xs ys \<longleftrightarrow> mset ys = mset xs \<and>
     (\<forall>x\<in>A. filter (\<lambda>y. cmp x y = 0) ys = filter (\<lambda>y. cmp x y = 0) xs)"

lemma stable_trans: "stable_rearrangement xs ys \<Longrightarrow> stable_rearrangement ys zs \<Longrightarrow> stable_rearrangement xs zs"
  by (simp add: stable_rearrangement_def)

lemma insert_sorted:
  assumes s: "le_sorted p" and A: "set p \<subseteq> A" "item \<in> A" and k: "point_at p (length p) item k"
  shows "le_sorted (take k p @ [item] @ drop k p)"
    and "stable_rearrangement (p @ [item]) (take k p @ [item] @ drop k p)"
proof -
  have lo: "cmp item y \<ge> 0" if "y \<in> set (take k p)" for y
    using that k by (auto simp: point_at_def in_set_conv_nth)
  have hi: "cmp item y < 0" if "y \<in> set (drop k p)" for y
    using that k by (auto simp: point_at_def in_set_conv_nth)
  have tA: "set (take k p) \<subseteq> A" "set (drop k p) \<subseteq> A" using A(1) set_take_subset set_drop_subset by (metis order_trans)+
  have parts: "le_sorted (take k p)" "le_sorted (drop k p)" "\<forall>x\<in>set (take k p). \<forall>y\<in>set (drop k p). cmp x y \<le> 0"
    using s sorted_wrt_append [of "\<lambda>x y. cmp x y \<le> 0" "take k p" "drop k p"] by simp_all
  show "le_sorted (take k p @ [item] @ drop k p)"
    using parts lo hi tA A(2) flip by (fastforce simp: sorted_wrt_append less_imp_le)
  have "filter (\<lambda>y. cmp x y = 0) (take k p @ [item] @ drop k p) = filter (\<lambda>y. cmp x y = 0) (p @ [item])" if x: "x \<in> A" for x
  proof (cases "cmp x item = 0")
    case True
    have "cmp x y < 0" if "y \<in> set (drop k p)" for y
      using le_less_trans [of x item y] hi [OF that] True x A(2) tA(2) that by auto
    then have "filter (\<lambda>y. cmp x y = 0) (drop k p) = []" unfolding filter_empty_conv by (metis less_irrefl)
    moreover have "filter (\<lambda>y. cmp x y = 0) p = filter (\<lambda>y. cmp x y = 0) (take k p) @ filter (\<lambda>y. cmp x y = 0) (drop k p)"
      by (metis append_take_drop_id filter_append)
    ultimately show ?thesis using True by simp
  next
    case False
    then show ?thesis by simp (metis append_take_drop_id filter_append)
  qed
  moreover have "mset (take k p @ [item] @ drop k p) = mset (p @ [item])"
    by simp (metis append_take_drop_id mset_append)
  ultimately show "stable_rearrangement (p @ [item]) (take k p @ [item] @ drop k p)"
    by (simp add: stable_rearrangement_def)
qed

lemma insert_item_ok:
  assumes z: "fits z (Suc j)" and s: "le_sorted (take j a)" and j: "j < length a" and A: "\<forall>i<Suc j. a ! i \<in> A"
  shows "\<exists>b. insert_item cmp z a j = Some b \<and> length b = length a \<and> drop (j + 1) b = drop (j + 1) a \<and>
    le_sorted (take (j + 1) b) \<and> stable_rearrangement (take (j + 1) a) (take (j + 1) b)"
proof -
  let ?p = "take j a" let ?item = "a ! j"
  have item: "?item \<in> A" "set ?p \<subseteq> A" using A j by (auto simp: in_set_conv_nth)
  obtain k where k: "point_at a j ?item k" and r: "uprv_stableBinarySearch cmp z a j ?item =
    Some (if 0 < k \<and> cmp ?item (a ! (k - 1)) = 0 then int k - 1 else - int k - 1)"
    using stableBinarySearch_ok [OF fits_mono [OF z] s less_imp_le [OF j] _ item(1)] A by auto
  have at: "item_at z a j = Some ?item" using fits_item [OF z, of j a] j by simp
  have kj: "k \<le> j" using k by (simp add: point_at_def)
  have kp: "point_at ?p (length ?p) ?item k" using k j by (auto simp: point_at_def)
  define b where "b = take k ?p @ [?item] @ drop k ?p @ drop (j + 1) a"
  have split: "a = ?p @ [?item] @ drop (j + 1) a" using j by (simp add: id_take_nth_drop [symmetric] Cons_nth_drop_Suc)
  have "insert_item cmp z a j = Some b"
  proof (cases "k < j")
    case True
    then show ?thesis using r at by (auto simp: insert_item_def b_def min_def)
  next
    case False
    then have "k = j" using kj by simp
    then have "b = a" unfolding b_def by (subst (4) split) simp
    then show ?thesis using r at \<open>k = j\<close> by (auto simp: insert_item_def)
  qed
  moreover have "take (j + 1) b = take k ?p @ [?item] @ drop k ?p" "drop (j + 1) b = drop (j + 1) a" "length b = length a"
  proof -
    have e: "b = (take k ?p @ [?item] @ drop k ?p) @ drop (j + 1) a" by (simp add: b_def)
    have cut: "length x = n \<Longrightarrow> take n (x @ y) = x \<and> drop n (x @ y) = y" for x y :: "'a list" and n by auto
    have l: "length (take k ?p @ [?item] @ drop k ?p) = j + 1" using j kj by simp
    show "take (j + 1) b = take k ?p @ [?item] @ drop k ?p" "drop (j + 1) b = drop (j + 1) a"
      unfolding e using cut [OF l] by blast+
    show "length b = length a" using j kj by (simp add: b_def)
  qed
  moreover have "take (j + 1) a = ?p @ [?item]" using j by (simp add: take_Suc_conv_app_nth)
  ultimately show ?thesis using insert_sorted [OF s item(2,1) kp] by auto
qed

lemma stable_append: "stable_rearrangement xs ys \<Longrightarrow> stable_rearrangement (xs @ zs) (ys @ zs)"
  by (simp add: stable_rearrangement_def)

lemma stable_set: "stable_rearrangement xs ys \<Longrightarrow> set ys = set xs"
  by (metis set_mset_mset stable_rearrangement_def)

lemma doInsertionSort_loop_ok:
  assumes z: "fits z len" and len: "len \<le> length a" and A: "\<forall>i<len. a ! i \<in> A"
  shows "1 \<le> j \<Longrightarrow> j \<le> len \<Longrightarrow> le_sorted (take j a) \<Longrightarrow>
    \<exists>b. doInsertionSort_loop cmp z a len j = Some b \<and> length b = length a \<and> drop len b = drop len a \<and>
      le_sorted (take len b) \<and> stable_rearrangement (take len a) (take len b)"
  using len A
proof (induction "len - j" arbitrary: j a)
  case 0
  then have "j = len" by simp
  then show ?case using 0 by (subst doInsertionSort_loop.simps) (simp add: stable_rearrangement_def)
next
  case (Suc m)
  have j: "j < len" "j < length a" "m = len - (j + 1)" using Suc.hyps(2) Suc.prems by auto
  obtain b where b: "insert_item cmp z a j = Some b" "length b = length a" "drop (j + 1) b = drop (j + 1) a"
    "le_sorted (take (j + 1) b)" "stable_rearrangement (take (j + 1) a) (take (j + 1) b)"
    using insert_item_ok [OF fits_mono [OF z] Suc.prems(3) j(2)] Suc.prems(5) j(1) by auto
  have split: "take len c = take (j + 1) c @ take (len - (j + 1)) (drop (j + 1) c)" for c :: "'a list"
    using j by (metis Suc_eq_plus1 Suc_leI le_add_diff_inverse take_add)
  have st: "stable_rearrangement (take len a) (take len b)"
    unfolding split [of a] split [of b] b(3) by (rule stable_append [OF b(5)])
  have "set (take len b) = set (take len a)" using stable_set [OF st] .
  then have A: "\<forall>i<len. b ! i \<in> A"
  proof (intro allI impI)
    fix i assume "i < len"
    then have "b ! i \<in> set (take len b)" using b(2) Suc.prems(4) by (metis length_take min.absorb2 nth_mem nth_take)
    then show "b ! i \<in> A" unfolding \<open>set (take len b) = _\<close> using Suc.prems(4,5) by (auto simp: in_set_conv_nth)
  qed
  obtain c where c: "doInsertionSort_loop cmp z b len (j + 1) = Some c" "length c = length b" "drop len c = drop len b"
    "le_sorted (take len c)" "stable_rearrangement (take len b) (take len c)"
    using Suc.hyps(1) [OF j(3) _ _ b(4) _ A] j b(2) Suc.prems(4) by auto
  have "drop len b = drop len a" using b(3) j by (metis Suc_eq_plus1 Suc_leI drop_drop le_add_diff_inverse2)
  moreover have "doInsertionSort_loop cmp z a len j = Some c" using j b(1) c(1) by (subst doInsertionSort_loop.simps) simp
  ultimately show ?case using c b(2) stable_trans [OF st c(5)] by auto
qed

lemma doInsertionSort_ok:
  assumes z: "fits z len" and len: "len \<le> length a" and A: "\<forall>i<len. a ! i \<in> A"
  shows "\<exists>b. doInsertionSort cmp z a len = Some b \<and> length b = length a \<and> drop len b = drop len a \<and>
    le_sorted (take len b) \<and> stable_rearrangement (take len a) (take len b)"
proof (cases "len = 0")
  case True
  then show ?thesis
    unfolding doInsertionSort_def by (subst doInsertionSort_loop.simps) (simp add: stable_rearrangement_def)
next
  case False
  have "le_sorted (take 1 a)" by (cases a) auto
  then show ?thesis using doInsertionSort_loop_ok [OF assms, of 1] False by (simp add: doInsertionSort_def)
qed


section \<open>Partition\<close>

text \<open>\<open>b\<close> is \<open>a\<close> with the items from \<open>start\<close> to \<open>limit\<close> in another order.\<close>

definition rearranged :: "nat \<Rightarrow> nat \<Rightarrow> 'a list \<Rightarrow> 'a list \<Rightarrow> bool" where
  "rearranged start limit a b \<longleftrightarrow> mset b = mset a \<and> (\<forall>i<length a. i < start \<or> limit \<le> i \<longrightarrow> b ! i = a ! i)"

lemma rearranged_refl: "rearranged s l a a"
  by (simp add: rearranged_def)

lemma rearranged_length: "rearranged s l a b \<Longrightarrow> length b = length a"
  by (metis rearranged_def size_mset)

lemma rearranged_set: "rearranged s l a b \<Longrightarrow> set b = set a"
  by (metis rearranged_def set_mset_mset)

lemma rearranged_trans: "rearranged s l a b \<Longrightarrow> rearranged s l b c \<Longrightarrow> rearranged s l a c"
  using rearranged_length [of s l a b] by (auto simp: rearranged_def)

lemma rearranged_mono: "rearranged s l a b \<Longrightarrow> s' \<le> s \<Longrightarrow> l \<le> l' \<Longrightarrow> rearranged s' l' a b"
  by (auto simp: rearranged_def)

lemma rearranged_swap:
  assumes "s \<le> i" "i < l" "s \<le> j" "j < l" "l \<le> length a"
  shows "rearranged s l a (a[i := a ! j, j := a ! i])"
proof -
  have "mset (a[j := a ! i, i := a ! j]) = mset a" using assms by (simp add: mset_swap)
  moreover have "a[i := a ! j, j := a ! i] = a[j := a ! i, i := a ! j]" by (cases "i = j") (simp_all add: list_update_swap)
  ultimately show ?thesis using assms by (auto simp: rearranged_def nth_list_update)
qed

lemma rearranged_slice:
  assumes r: "rearranged s l a b" and l: "s \<le> l" "l \<le> length a"
  shows "mset (take (l - s) (drop s b)) = mset (take (l - s) (drop s a))"
proof -
  have len: "length b = length a" using rearranged_length [OF r] .
  have "take s b = take s a" using r l len by (intro nth_equalityI) (auto simp: rearranged_def)
  moreover have "drop l b = drop l a" using r l len by (intro nth_equalityI) (auto simp: rearranged_def)
  moreover have split: "c = take s c @ take (l - s) (drop s c) @ drop l c" for c :: "'a list"
    using l by (metis append.assoc append_take_drop_id le_add_diff_inverse take_add)
  moreover have "mset a = mset b" using r by (simp add: rearranged_def)
  ultimately show ?thesis by (metis add_left_cancel add_right_cancel mset_append)
qed

lemma rearranged_all:
  assumes r: "rearranged s l a b" and l: "s \<le> l" "l \<le> length a" and P: "\<forall>i. s \<le> i \<longrightarrow> i < l \<longrightarrow> P (a ! i)"
  shows "\<forall>i. s \<le> i \<longrightarrow> i < l \<longrightarrow> P (b ! i)"
proof (intro allI impI)
  fix i assume i: "s \<le> i" "i < l"
  have len: "length b = length a" using rearranged_length [OF r] .
  have slice: "set (take (l - s) (drop s b)) = set (take (l - s) (drop s a))"
    using rearranged_slice [OF r l] by (metis set_mset_mset)
  have "b ! i = take (l - s) (drop s b) ! (i - s)" using i l len by simp
  also have "\<dots> \<in> set (take (l - s) (drop s b))" using i l len by (intro nth_mem) simp
  finally obtain k where "k < l - s" "b ! i = a ! (s + k)" using l unfolding slice by (auto simp: in_set_conv_nth)
  then show "P (b ! i)" using P by simp
qed

lemma rearranged_items:
  assumes "rearranged s l a b" and "s \<le> l" and "l \<le> n" and "n \<le> length a" and "\<forall>i<n. a ! i \<in> A"
  shows "\<forall>i<n. b ! i \<in> A"
  using rearranged_all [OF rearranged_mono [OF assms(1) _ assms(3), of 0] _ assms(4), of "\<lambda>y. y \<in> A"] assms(5) by simp

lemma scan_left_ok:
  assumes z: "fits z n" and n: "n \<le> length a" and ex: "\<exists>i. left \<le> i \<and> i < n \<and> cmp (a ! i) x \<ge> 0"
  shows "\<exists>l. scan_left cmp z a x left = Some l \<and> left \<le> l \<and> l < n \<and> cmp (a ! l) x \<ge> 0 \<and>
    (\<forall>i. left \<le> i \<longrightarrow> i < l \<longrightarrow> cmp (a ! i) x < 0)"
  using ex
proof (induction "n - left" arbitrary: left)
  case (Suc m)
  have l: "left < n" "m = n - (left + 1)" using Suc.hyps(2) by auto
  then have at: "item_at z a left = Some (a ! left)" using fits_item [OF z, of left a] n by simp
  show ?case
  proof (cases "cmp (a ! left) x < 0")
    case True
    have "\<exists>i. left + 1 \<le> i \<and> i < n \<and> cmp (a ! i) x \<ge> 0"
      using Suc.prems True by (metis Suc_eq_plus1 Suc_leI le_neq_implies_less linorder_not_le)
    from Suc.hyps(1) [OF l(2) this] obtain l' where l': "scan_left cmp z a x (left + 1) = Some l'" "left + 1 \<le> l'" "l' < n"
      "cmp (a ! l') x \<ge> 0" "\<forall>i. left + 1 \<le> i \<longrightarrow> i < l' \<longrightarrow> cmp (a ! i) x < 0" by blast
    have "scan_left cmp z a x left = Some l'" using at True l'(1) by (subst scan_left.simps) simp
    moreover have "cmp (a ! i) x < 0" if "left \<le> i" "i < l'" for i using that l'(5) True by (cases "i = left") auto
    ultimately show ?thesis using l' by auto
  next
    case False
    then have "scan_left cmp z a x left = Some left" using at by (subst scan_left.simps) simp
    then show ?thesis using False l by auto
  qed
qed auto

lemma scan_right_ok:
  assumes z: "fits z n" and n: "n \<le> length a" and "\<exists>i < right. cmp x (a ! i) \<ge> 0" and "right \<le> n"
  shows "\<exists>r. scan_right cmp z a x right = Some r \<and> 0 < r \<and> r \<le> right \<and> cmp x (a ! (r - 1)) \<ge> 0 \<and>
    (\<forall>i. r \<le> i \<longrightarrow> i < right \<longrightarrow> cmp x (a ! i) < 0)"
  using assms(3,4)
proof (induction right)
  case (Suc right)
  have at: "item_at z a right = Some (a ! right)" using fits_item [OF z, of right a] n Suc.prems(2) by simp
  show ?case
  proof (cases "cmp x (a ! right) < 0")
    case True
    have "\<exists>i < right. cmp x (a ! i) \<ge> 0" using Suc.prems True by (auto simp: less_Suc_eq)
    from Suc.IH [OF this] obtain r where r: "scan_right cmp z a x right = Some r" "0 < r" "r \<le> right" "cmp x (a ! (r - 1)) \<ge> 0"
      "\<forall>i. r \<le> i \<longrightarrow> i < right \<longrightarrow> cmp x (a ! i) < 0" using Suc.prems by auto
    then show ?thesis using True at by (auto simp: less_Suc_eq)
  qed (use at in auto)
qed simp

text \<open>
  The state of the partition: everything before \<open>left\<close> is at most \<open>x\<close>, everything from \<open>right\<close> on at least \<open>x\<close>,
  and each scan meets an item that stops it.
\<close>

definition part_ok :: "'a \<Rightarrow> nat \<Rightarrow> nat \<Rightarrow> 'a list \<Rightarrow> nat \<Rightarrow> nat \<Rightarrow> bool" where
  "part_ok x start limit a left right \<longleftrightarrow> start \<le> left \<and> left \<le> limit \<and> start \<le> right \<and> right \<le> limit \<and>
     (\<forall>i. start \<le> i \<longrightarrow> i < left \<longrightarrow> cmp (a ! i) x \<le> 0) \<and> (\<forall>i. right \<le> i \<longrightarrow> i < limit \<longrightarrow> cmp x (a ! i) \<le> 0)"

definition part_stops :: "'a \<Rightarrow> nat \<Rightarrow> nat \<Rightarrow> 'a list \<Rightarrow> nat \<Rightarrow> nat \<Rightarrow> bool" where
  "part_stops x start limit a left right \<longleftrightarrow> (\<exists>i. left \<le> i \<and> i < limit \<and> cmp (a ! i) x \<ge> 0) \<and>
     (\<exists>i. start \<le> i \<and> i < right \<and> cmp x (a ! i) \<ge> 0)"

lemma part_scan:
  assumes ok: "part_ok x start limit a left right" and st: "part_stops x start limit a left right"
    and lim: "limit \<le> length a" and z: "fits z limit"
  shows "\<exists>l r. scan_left cmp z a x left = Some l \<and> scan_right cmp z a x right = Some r \<and> part_ok x start limit a l r \<and>
    left \<le> l \<and> r \<le> right \<and> l < limit \<and> start < r \<and> cmp (a ! l) x \<ge> 0 \<and> cmp x (a ! (r - 1)) \<ge> 0 \<and>
    (\<forall>m. left \<le> m \<and> m < right \<and> cmp (a ! m) x = 0 \<and> cmp x (a ! m) = 0 \<longrightarrow> l < r)"
proof -
  obtain i where i: "left \<le> i" "i < limit" "cmp (a ! i) x \<ge> 0" using st by (auto simp: part_stops_def)
  obtain j where j: "start \<le> j" "j < right" "cmp x (a ! j) \<ge> 0" using st by (auto simp: part_stops_def)
  have b: "start \<le> left" "right \<le> limit" using ok by (auto simp: part_ok_def)
  obtain l where l: "scan_left cmp z a x left = Some l" "left \<le> l" "l < limit" "cmp (a ! l) x \<ge> 0"
    "\<forall>i. left \<le> i \<longrightarrow> i < l \<longrightarrow> cmp (a ! i) x < 0"
    using scan_left_ok [OF z lim] i by blast
  obtain r where r: "scan_right cmp z a x right = Some r" "0 < r" "r \<le> right" "cmp x (a ! (r - 1)) \<ge> 0"
    "\<forall>i. r \<le> i \<longrightarrow> i < right \<longrightarrow> cmp x (a ! i) < 0"
    using scan_right_ok [OF z lim] j b by blast
  have li: "l \<le> i" using i l(5) by (meson not_le)
  have rj: "j < r" using j r(5) by (meson not_le)
  have lo: "cmp (a ! k) x \<le> 0" if "start \<le> k" "k < l" for k
    using that ok l(5) by (cases "k < left") (auto simp: part_ok_def less_imp_le)
  have hi: "cmp x (a ! k) \<le> 0" if "r \<le> k" "k < limit" for k
    using that ok r(5) by (cases "k < right") (auto simp: part_ok_def less_imp_le)
  have "part_ok x start limit a l r"
    using lo hi l(2) r(3) li rj i j b by (auto simp: part_ok_def)
  moreover have "l < r" if "left \<le> m" "m < right" "cmp (a ! m) x = 0" "cmp x (a ! m) = 0" for m
  proof -
    have "l \<le> m" using that l(5) by (metis less_irrefl not_le)
    moreover have "m < r" using that r(5) by (metis less_irrefl not_le)
    ultimately show ?thesis by simp
  qed
  ultimately show ?thesis using l r li rj i j by fastforce
qed

lemma part_swap:
  assumes ok: "part_ok x start limit a l r" and lim: "limit \<le> length a" and A: "\<forall>i<limit. a ! i \<in> A" "x \<in> A"
    and l: "cmp (a ! l) x \<ge> 0" and r: "cmp x (a ! (r - 1)) \<ge> 0" and lr: "l < r - 1"
  defines "b \<equiv> a[l := a ! (r - 1), r - 1 := a ! l]"
  shows "part_ok x start limit b (l + 1) (r - 1)" and "part_stops x start limit b (l + 1) (r - 1)"
    and "rearranged start limit a b"
proof -
  have bd: "start \<le> l" "r \<le> limit" using ok by (auto simp: part_ok_def)
  have inA: "a ! i \<in> A" if "i < limit" for i using that A(1) by blast
  have e: "b ! l = a ! (r - 1)" "b ! (r - 1) = a ! l" "\<And>i. i \<noteq> l \<Longrightarrow> i \<noteq> r - 1 \<Longrightarrow> b ! i = a ! i"
    using lr bd lim by (auto simp: b_def nth_list_update)
  have le: "cmp (b ! l) x \<le> 0" "cmp x (b ! (r - 1)) \<le> 0"
    using e l r flip [of "a ! (r - 1)" x] flip [of x "a ! l"] inA A(2) lr bd by auto
  show "rearranged start limit a b" unfolding b_def using bd lr lim by (intro rearranged_swap) auto
  have lo: "cmp (b ! i) x \<le> 0" if "start \<le> i" "i < l + 1" for i
    using that le(1) e(3) [of i] ok lr by (cases "i = l") (auto simp: part_ok_def)
  have hi: "cmp x (b ! i) \<le> 0" if "r - 1 \<le> i" "i < limit" for i
    using that le(2) e(3) [of i] ok lr by (cases "i = r - 1") (auto simp: part_ok_def)
  show "part_ok x start limit b (l + 1) (r - 1)" using lo hi bd lr by (auto simp: part_ok_def)
  have "l + 1 \<le> r - 1 \<and> r - 1 < limit \<and> cmp (b ! (r - 1)) x \<ge> 0" using lr bd l e by auto
  moreover have "start \<le> l \<and> l < r - 1 \<and> cmp x (b ! l) \<ge> 0" using lr bd r e by auto
  ultimately show "part_stops x start limit b (l + 1) (r - 1)" unfolding part_stops_def by blast
qed

lemma partition_ok:
  assumes "part_ok x start limit a left right" and "part_stops x start limit a left right"
    and "limit \<le> length a" and "\<forall>i<limit. a ! i \<in> A" and "x \<in> A" and z: "fits z limit"
  shows "\<exists>b l r. partition_loop cmp z x a left right = Some (b, l, r) \<and> rearranged start limit a b \<and>
    part_ok x start limit b l r \<and> r \<le> l \<and> left \<le> l \<and> r \<le> right \<and>
    (\<forall>m. left \<le> m \<and> m < right \<and> cmp (a ! m) x = 0 \<and> cmp x (a ! m) = 0 \<longrightarrow> left < l \<and> r < right)"
  using assms(1-5)
proof (induction "right - left" arbitrary: left right a rule: less_induct)
  case less
  obtain l r where s: "scan_left cmp z a x left = Some l" "scan_right cmp z a x right = Some r" "part_ok x start limit a l r"
    "left \<le> l" "r \<le> right" "l < limit" "start < r" "cmp (a ! l) x \<ge> 0" "cmp x (a ! (r - 1)) \<ge> 0"
    and meet: "\<forall>m. left \<le> m \<and> m < right \<and> cmp (a ! m) x = 0 \<and> cmp x (a ! m) = 0 \<longrightarrow> l < r"
    using part_scan [OF less.prems(1-3) z] by blast
  consider "r \<le> l" | "l = r - 1" | "l < r - 1" by linarith
  then show ?case
  proof cases
    case 1
    then have "partition_loop cmp z x a left right = Some (a, l, r)" using s(1,2) by (subst partition_loop.simps) simp
    then show ?thesis using s(3-5) meet 1 rearranged_refl by fastforce
  next
    case 2
    then have p: "partition_loop cmp z x a left right = Some (a, l + 1, r - 1)" using s(1,2,7) by (subst partition_loop.simps) (auto simp: Let_def)
    have "a ! l \<in> A" using s(6) less.prems(4) by blast
    then have le: "cmp (a ! l) x \<le> 0" "cmp x (a ! l) \<le> 0"
      using s(8,9) 2 flip [of "a ! l" x] flip [of x "a ! l"] less.prems(5) by auto
    have "cmp (a ! i) x \<le> 0" if "start \<le> i" "i < l + 1" for i
      using that le(1) s(3) by (cases "i = l") (auto simp: part_ok_def)
    moreover have "cmp x (a ! i) \<le> 0" if "r - 1 \<le> i" "i < limit" for i
      using that le(2) s(3) 2 by (cases "i = l") (auto simp: part_ok_def)
    ultimately have "part_ok x start limit a (l + 1) (r - 1)" using s(3,6,7) by (auto simp: part_ok_def)
    then show ?thesis using p s(4,5,7) 2 rearranged_refl by fastforce
  next
    case 3
    define b where "b = a[l := a ! (r - 1), r - 1 := a ! l]"
    note sw = part_swap [OF s(3) less.prems(3-5) s(8,9) 3, folded b_def]
    have eq: "partition_loop cmp z x a left right =
      (if l + 1 < r - 1 then partition_loop cmp z x b (l + 1) (r - 1) else Some (b, l + 1, r - 1))"
      using s(1,2) 3 by (subst partition_loop.simps) (simp add: Let_def b_def)
    show ?thesis
    proof (cases "l + 1 < r - 1")
      case True
      have lim: "limit \<le> length b" "\<forall>i<limit. b ! i \<in> A"
        using less.prems(3) rearranged_length [OF sw(3)] rearranged_items [OF sw(3) _ order_refl less.prems(3,4)] less.prems(1)
        by (auto simp: part_ok_def)
      have "r - 1 - (l + 1) < right - left" using s(4,5) True by auto
      from less.hyps [OF this sw(1,2) lim less.prems(5)]
      obtain c l' r' where c: "partition_loop cmp z x b (l + 1) (r - 1) = Some (c, l', r')" "rearranged start limit b c"
        "part_ok x start limit c l' r'" "r' \<le> l'" "l + 1 \<le> l'" "r' \<le> r - 1" by blast
      have "left < l'" "r' < right" using c(5,6) s(4,5,7) by auto
      then show ?thesis unfolding eq using True c rearranged_trans [OF sw(3) c(2)] by fastforce
    next
      case False
      then show ?thesis unfolding eq using 3 sw s(4,5) by fastforce
    qed
  qed
qed

section \<open>Quicksort\<close>

definition sorted_between :: "nat \<Rightarrow> nat \<Rightarrow> 'a list \<Rightarrow> bool" where
  "sorted_between s l a \<longleftrightarrow> (\<forall>i j. s \<le> i \<longrightarrow> i < j \<longrightarrow> j < l \<longrightarrow> cmp (a ! i) (a ! j) \<le> 0)"

definition sorts :: "nat \<Rightarrow> nat \<Rightarrow> 'a list \<Rightarrow> 'a list option \<Rightarrow> bool" where
  "sorts s l a r \<longleftrightarrow> (\<exists>b. r = Some b \<and> rearranged s l a b \<and> sorted_between s l b)"

lemma insertion_sorts:
  assumes z: "fits z l" and "s \<le> l" and "l \<le> length a" and "\<forall>i<l. a ! i \<in> A"
  shows "sorts s l a (map_option ((@) (take s a)) (doInsertionSort cmp z (drop s a) (l - s)))"
proof -
  have "l - s \<le> length (drop s a)" "\<forall>i<l - s. drop s a ! i \<in> A" using assms by auto
  from doInsertionSort_ok [OF fits_mono [OF z diff_le_self] this] obtain c where c: "doInsertionSort cmp z (drop s a) (l - s) = Some c"
    "length c = length (drop s a)" "drop (l - s) c = drop (l - s) (drop s a)" "le_sorted (take (l - s) c)"
    "stable_rearrangement (take (l - s) (drop s a)) (take (l - s) c)" by blast
  let ?b = "take s a @ c"
  have "mset c = mset (drop s a)"
    using c(3,5) by (metis append_take_drop_id mset_append stable_rearrangement_def)
  then have "mset ?b = mset a" by (metis append_take_drop_id mset_append)
  moreover have "?b ! i = a ! i" if "i < length a" "i < s \<or> l \<le> i" for i
  proof (cases "i < s")
    case True
    then show ?thesis using that by (simp add: nth_append)
  next
    case False
    then have i: "l \<le> i" "s \<le> i" using that assms(1) by auto
    have "?b ! i = drop (l - s) c ! (i - l)" using i that assms c(2) by (simp add: nth_append)
    also have "\<dots> = a ! i" unfolding c(3) using i that assms by simp
    finally show ?thesis .
  qed
  moreover have "sorted_between s l ?b"
    unfolding sorted_between_def
  proof (intro allI impI)
    fix i j assume "s \<le> i" "i < j" "j < l"
    then show "cmp (?b ! i) (?b ! j) \<le> 0"
      using sorted_wrt_nth_less [OF c(4), of "i - s" "j - s"] assms c(2) by (simp add: nth_append)
  qed
  ultimately show ?thesis using c(1) by (simp add: sorts_def rearranged_def)
qed

lemma sorted_between_frame:
  assumes "rearranged s l a b" and "u \<le> s \<or> l \<le> t" and "u \<le> length a" and "sorted_between t u a"
  shows "sorted_between t u b"
  using assms unfolding sorted_between_def rearranged_def by (auto simp: le_less_trans)

lemma sorts_two:
  assumes disj: "u \<le> s \<or> l \<le> t" and lim: "s \<le> l" "l \<le> length a" "t \<le> u" "u \<le> length a" and A: "\<forall>i<n. a ! i \<in> A"
    and n: "l \<le> n" "u \<le> n" "n \<le> length a"
    and f: "\<And>a'. \<forall>i<n. a' ! i \<in> A \<Longrightarrow> length a' = length a \<Longrightarrow> sorts s l a' (f a')"
    and g: "\<And>a'. \<forall>i<n. a' ! i \<in> A \<Longrightarrow> length a' = length a \<Longrightarrow> sorts t u a' (g a')"
  shows "\<exists>b c. Option.bind (f a) g = Some c \<and> rearranged s l a b \<and> rearranged t u b c \<and>
    sorted_between s l c \<and> sorted_between t u c"
proof -
  obtain b where b: "f a = Some b" "rearranged s l a b" "sorted_between s l b" using f [OF A] by (auto simp: sorts_def)
  have "\<forall>i<n. b ! i \<in> A" "length b = length a"
    using rearranged_items [OF b(2) lim(1) n(1,3) A] rearranged_length [OF b(2)] by auto
  from g [OF this] obtain c where c: "g b = Some c" "rearranged t u b c" "sorted_between t u c" by (auto simp: sorts_def)
  have "sorted_between s l c"
    using sorted_between_frame [OF c(2) _ _ b(3)] disj lim rearranged_length [OF b(2)] by auto
  then show ?thesis using b c by auto
qed

lemma two_parts:
  assumes b: "rearranged s l a b" and c: "rearranged t u b c" and disj: "u \<le> s \<or> l \<le> t"
    and lim: "s \<le> l" "l \<le> length a" "t \<le> u" "u \<le> length a"
  shows "\<forall>i. s \<le> i \<longrightarrow> i < l \<longrightarrow> P (a ! i) \<Longrightarrow> \<forall>i. s \<le> i \<longrightarrow> i < l \<longrightarrow> P (c ! i)"
    and "\<forall>i. t \<le> i \<longrightarrow> i < u \<longrightarrow> P (a ! i) \<Longrightarrow> \<forall>i. t \<le> i \<longrightarrow> i < u \<longrightarrow> P (c ! i)"
    and "i < length a \<Longrightarrow> i < s \<or> l \<le> i \<Longrightarrow> i < t \<or> u \<le> i \<Longrightarrow> c ! i = a ! i"
proof -
  have len: "length b = length a" using rearranged_length [OF b] .
  have fb: "b ! i = a ! i" if "i < length a" "i < s \<or> l \<le> i" for i using b that by (auto simp: rearranged_def)
  have fc: "c ! i = b ! i" if "i < length a" "i < t \<or> u \<le> i" for i using c that len by (auto simp: rearranged_def)
  show "\<forall>i. s \<le> i \<longrightarrow> i < l \<longrightarrow> P (c ! i)" if "\<forall>i. s \<le> i \<longrightarrow> i < l \<longrightarrow> P (a ! i)"
    using rearranged_all [OF b lim(1,2) that] fc disj lim by auto
  show "\<forall>i. t \<le> i \<longrightarrow> i < u \<longrightarrow> P (c ! i)" if "\<forall>i. t \<le> i \<longrightarrow> i < u \<longrightarrow> P (a ! i)"
    using that fb disj lim len by (intro rearranged_all [OF c]) auto
  show "i < length a \<Longrightarrow> i < s \<or> l \<le> i \<Longrightarrow> i < t \<or> u \<le> i \<Longrightarrow> c ! i = a ! i" using fb fc by simp
qed

text \<open>Two sorted parts on either side of a partition make a sorted whole.\<close>

lemma sorted_join:
  assumes p: "part_ok x start limit a l r" and r: "r \<le> l" and lim: "limit \<le> length a" and A: "\<forall>i<limit. a ! i \<in> A" "x \<in> A"
    and re: "rearranged start r a b \<and> rearranged l limit b c \<or> rearranged l limit a b \<and> rearranged start r b c"
    and s: "sorted_between start r c" "sorted_between l limit c"
  shows "rearranged start limit a c \<and> sorted_between start limit c"
proof -
  have bd: "start \<le> r" "l \<le> limit" "start \<le> l" "r \<le> limit" using p by (auto simp: part_ok_def)
  have ac: "rearranged start limit a c"
    using re rearranged_trans [OF rearranged_mono rearranged_mono] bd by blast
  have inA: "c ! i \<in> A" if "i < limit" for i
    using that rearranged_items [OF ac _ order_refl lim A(1)] bd by auto
  have parts: "(\<forall>i. start \<le> i \<longrightarrow> i < r \<longrightarrow> cmp (c ! i) x \<le> 0) \<and> (\<forall>i. l \<le> i \<longrightarrow> i < limit \<longrightarrow> cmp x (c ! i) \<le> 0) \<and>
    (\<forall>i. r \<le> i \<longrightarrow> i < l \<longrightarrow> c ! i = a ! i)"
  proof -
    have lo: "\<forall>i. start \<le> i \<longrightarrow> i < r \<longrightarrow> cmp (a ! i) x \<le> 0" and hi: "\<forall>i. l \<le> i \<longrightarrow> i < limit \<longrightarrow> cmp x (a ! i) \<le> 0"
      using p r by (auto simp: part_ok_def)
    from re show ?thesis
    proof
      assume h: "rearranged start r a b \<and> rearranged l limit b c"
      note tp = two_parts [OF conjunct1 [OF h] conjunct2 [OF h] disjI2 [OF r]]
      show ?thesis using tp(1) [OF _ _ _ _ lo] tp(2) [OF _ _ _ _ hi] tp(3) bd lim by auto
    next
      assume h: "rearranged l limit a b \<and> rearranged start r b c"
      note tp = two_parts [OF conjunct1 [OF h] conjunct2 [OF h] disjI1 [OF r]]
      show ?thesis using tp(2) [OF _ _ _ _ lo] tp(1) [OF _ _ _ _ hi] tp(3) bd lim by auto
    qed
  qed
  have lo: "cmp (c ! i) x \<le> 0" if "start \<le> i" "i < l" for i
    using that parts p by (cases "i < r") (auto simp: part_ok_def)
  have hi: "cmp x (c ! i) \<le> 0" if "r \<le> i" "i < limit" for i
    using that parts p r by (cases "i < l") (auto simp: part_ok_def)
  have "cmp (c ! i) (c ! j) \<le> 0" if ij: "start \<le> i" "i < j" "j < limit" for i j
  proof -
    consider "j < r" | "l \<le> i" | "i < l" "r \<le> j" by linarith
    then show ?thesis
    proof cases
      case 1
      then show ?thesis using s(1) ij by (auto simp: sorted_between_def)
    next
      case 2
      then show ?thesis using s(2) ij by (auto simp: sorted_between_def)
    next
      case 3
      then show ?thesis using trans [of "c ! i" x "c ! j"] lo [of i] hi [of j] inA [of i] inA [of j] A(2) ij by auto
    qed
  qed
  then show ?thesis using ac by (auto simp: sorted_between_def)
qed

lemma sorts_small: "l \<le> s + 1 \<Longrightarrow> sorts s l a (Some a)"
  by (auto simp: sorts_def rearranged_refl sorted_between_def)

lemma subQuickSort_sorts:
  assumes "fits z limit" and "start \<le> limit" and "limit \<le> length a" and "\<forall>i<limit. a ! i \<in> A"
  shows "sorts start limit a (subQuickSort cmp z a start limit)"
  using assms
proof (induction "limit - start" arbitrary: start limit a rule: less_induct)
  case less
  have ov: "int start + 9 \<le> 0x7fffffff" using less.prems(1,2) by (simp add: fits_def)
  show ?case
  proof (cases "start + 9 \<ge> limit")
    case True
    have "int start * z \<le> 0x7fffffff" using fits_mono [OF less.prems(1,2)] by (simp add: fits_def)
    then show ?thesis using insertion_sorts [OF less.prems] ov True by (subst subQuickSort.simps) simp
  next
    case False
    define m where "m = (start + limit) div 2"
    have m: "start \<le> m" "m < limit" using False by (auto simp: m_def)
    define x where "x = a ! m"
    have at: "item_at z a m = Some x" "middle start limit = Some m"
      using fits_item [OF less.prems(1) m(2), of a] fits_middle [OF less.prems(1,2) order_refl] m less.prems(3) by (auto simp: x_def m_def)
    have xA: "x \<in> A" using m less.prems by (auto simp: x_def)
    have eq: "cmp (a ! m) x = 0" "cmp x (a ! m) = 0" using refl [OF xA] by (simp_all add: x_def)
    have ok: "part_ok x start limit a start limit" "part_stops x start limit a start limit"
      using less.prems m eq by (auto simp: part_ok_def part_stops_def)
    obtain b l r where p: "partition_loop cmp z x a start limit = Some (b, l, r)" "rearranged start limit a b"
      "part_ok x start limit b l r" "r \<le> l" "start < l" "r < limit"
      using partition_ok [OF ok less.prems(3,4) xA less.prems(1)] m eq by blast
    have bd: "start \<le> r" "l \<le> limit" using p(3) by (auto simp: part_ok_def)
    have b: "length b = length a" "\<forall>i<limit. b ! i \<in> A"
      using rearranged_length [OF p(2)] rearranged_items [OF p(2) less.prems(2) order_refl less.prems(3,4)] by auto
    let ?f = "\<lambda>a. if start + 1 < r then subQuickSort cmp z a start r else Some a"
    let ?g = "\<lambda>a. if l + 1 < limit then subQuickSort cmp z a l limit else Some a"
    have f: "sorts start r a' (?f a')" if "\<forall>i<limit. a' ! i \<in> A" "length a' = length b" for a'
      using less.hyps [of r start a'] fits_mono [OF less.prems(1), of r] that bd p b less.prems by (auto intro: sorts_small)
    have g: "sorts l limit a' (?g a')" if "\<forall>i<limit. a' ! i \<in> A" "length a' = length b" for a'
      using less.hyps [of limit l a'] that bd p b less.prems by (auto intro: sorts_small)
    have rec: "subQuickSort cmp z a start limit =
      (if int r - int start < int limit - int l then Option.bind (?f b) ?g else Option.bind (?g b) ?f)"
      using False at p(1) ov by (subst subQuickSort.simps) simp
    have lim: "limit \<le> length b" "r \<le> length b" using less.prems p b by auto
    obtain c d where c: "Option.bind (?f b) ?g = Some d" "rearranged start r b c" "rearranged l limit c d"
      "sorted_between start r d" "sorted_between l limit d"
      using sorts_two [OF disjI2 [OF p(4)] bd(1) lim(2) bd(2) lim(1) b(2) less_imp_le [OF p(6)] order_refl lim(1) f g] by blast
    obtain c' d' where c': "Option.bind (?g b) ?f = Some d'" "rearranged l limit b c'" "rearranged start r c' d'"
      "sorted_between l limit d'" "sorted_between start r d'"
      using sorts_two [OF disjI1 [OF p(4)] bd(2) lim(1) bd(1) lim(2) b(2) order_refl less_imp_le [OF p(6)] lim(1) g f] by blast
    have "rearranged start limit b d \<and> sorted_between start limit d"
      using sorted_join [OF p(3,4) lim(1) b(2) xA disjI1 [OF conjI [OF c(2,3)]] c(4,5)] .
    moreover have "rearranged start limit b d' \<and> sorted_between start limit d'"
      using sorted_join [OF p(3,4) lim(1) b(2) xA disjI2 [OF conjI [OF c'(2,3)]] c'(5,4)] .
    ultimately show ?thesis
      unfolding rec c(1) c'(1) sorts_def using rearranged_trans [OF p(2)] by auto
  qed
qed

lemma sorted_between_take: "l \<le> length a \<Longrightarrow> sorted_between 0 l a = le_sorted (take l a)"
  by (auto simp: sorted_between_def sorted_wrt_iff_nth_less)

text \<open>What \<open>uprv_sortArray\<close> makes of the first \<open>n\<close> items of \<open>a\<close>.\<close>

definition sorted_result :: "bool \<Rightarrow> 'a list \<Rightarrow> nat \<Rightarrow> 'a list \<Rightarrow> bool" where
  "sorted_result keep a n b \<longleftrightarrow> le_sorted (take n b) \<and> mset (take n b) = mset (take n a) \<and>
     drop n b = drop n a \<and> (keep \<longrightarrow> stable_rearrangement (take n a) (take n b))"

lemma insertionSort_result:
  assumes "fits z n" and "n \<le> length a" and "\<forall>i<n. a ! i \<in> A"
  shows "\<exists>b. doInsertionSort cmp z a n = Some b \<and> sorted_result True a n b"
  using doInsertionSort_ok [OF assms] by (auto simp: sorted_result_def stable_rearrangement_def)

lemma quickSort_result:
  assumes "fits z n" and "n \<le> length a" and "\<forall>i<n. a ! i \<in> A"
  shows "\<exists>b. subQuickSort cmp z a 0 n = Some b \<and> sorted_result False a n b"
proof -
  obtain b where b: "subQuickSort cmp z a 0 n = Some b" "rearranged 0 n a b" "sorted_between 0 n b"
    using subQuickSort_sorts [OF assms(1) _ assms(2,3)] by (auto simp: sorts_def)
  have len: "length b = length a" using rearranged_length [OF b(2)] .
  have "drop n b = drop n a" using b(2) len by (intro nth_equalityI) (auto simp: rearranged_def)
  then show ?thesis using b rearranged_slice [OF b(2)] sorted_between_take assms len by (auto simp: sorted_result_def)
qed

lemma sortArray_result:
  assumes z: "fits itemSize n" and n: "n \<le> length a" and A: "\<forall>i<n. a ! i \<in> A" and ec: "U_SUCCESS ec"
  shows "\<exists>b ec'. uprv_sortArray alloc (Some a) (int n) itemSize (Some cmp) sortStable ec = Some (Some b, ec') \<and>
    (if itemSize \<le> 200 \<or> (alloc itemSize \<and> alloc (2 * itemSize))
     then ec' = ec \<and> sorted_result (sortStable \<or> n < 9) a n b
     else (ec' = ec \<and> sorted_result (sortStable \<or> n < 9) a n b \<or> ec' = U_MEMORY_ALLOCATION_ERROR \<and> b = a))"
proof (cases "n \<le> 1")
  have size: "0 < itemSize" using z by (simp add: fits_def)
  case True
  then have "sorted_result True a n a"
    by (cases a; cases n) (auto simp: sorted_result_def stable_rearrangement_def)
  then have "sorted_result s a n a" for s by (auto simp: sorted_result_def)
  then show ?thesis using True size ec by (simp add: uprv_sortArray_def)
next
  case False
  have size: "0 < itemSize" using z by (simp add: fits_def)
  have two: "2 * itemSize \<le> 0x7fffffff" using fits_mono [OF z, of 2] False by (simp add: fits_def)
  obtain b where b: "doInsertionSort cmp itemSize a n = Some b" "sorted_result True a n b" using insertionSort_result [OF z n A] by blast
  obtain c where c: "subQuickSort cmp itemSize a 0 n = Some c" "sorted_result False a n c" using quickSort_result [OF z n A] by blast
  have b': "sorted_result s a n b" for s using b(2) by (auto simp: sorted_result_def)
  show ?thesis using False size two ec b(1) b' c by (auto simp: uprv_sortArray_def insertionSort_def quickSort_def)
qed

end

section \<open>The comparators of the code\<close>

lemma comparator_on_subset: "comparator_on A cmp \<Longrightarrow> B \<subseteq> A \<Longrightarrow> comparator_on B cmp"
  unfolding comparator_on_def by (meson subsetD)

interpretation uint16: comparator_on UNIV uprv_uint16Comparator
  by unfold_locales (auto simp: uprv_uint16Comparator_def)

interpretation uint32: comparator_on UNIV uprv_uint32Comparator
  by unfold_locales (auto simp: uprv_uint32Comparator_def split: if_splits)

interpretation sorti: comparator_on UNIV sortiComparator
  by unfold_locales (auto simp: sortiComparator_def split: if_splits)

interpretation int32: comparator_on "{- (2 ^ 30)..<2 ^ 30}" uprv_int32Comparator
  by unfold_locales (auto simp: uprv_int32Comparator_def wrap_int32_small)

section \<open>Properties\<close>

text \<open>
  C34. \<open>uprv_sortArray\<close> sorts.  For a comparator that orders the items and an array whose byte offsets fit in 32 bits
  (\<open>n*itemSize\<close> and \<open>2*n\<close> are at most \<open>INT32_MAX\<close>), the sort of the first \<open>n\<close> items returns, without an overflow or
  an access outside the array: the items are in order and a permutation of what they were, the rest of the array is
  untouched, and with \<open>sortStable\<close>, or for fewer than nine items, equal items keep their order.  The only failure is a
  refused allocation for items of more than 200 bytes, and then the array is as it was.
\<close>

theorem sortArray_sorts:
  assumes "comparator_on (set (take n a)) cmp" and "n \<le> length a" and "U_SUCCESS ec"
    and "0 < itemSize" and "int n * itemSize \<le> INT32_MAX" and "2 * int n \<le> INT32_MAX"
  shows "\<exists>b ec'. uprv_sortArray alloc (Some a) (int n) itemSize (Some cmp) sortStable ec = Some (Some b, ec') \<and>
    (ec' = ec \<and> sorted_wrt (\<lambda>x y. cmp x y \<le> 0) (take n b) \<and> mset (take n b) = mset (take n a) \<and>
       drop n b = drop n a \<and>
       (sortStable \<or> n < 9 \<longrightarrow> (\<forall>x\<in>set (take n a).
          filter (\<lambda>y. cmp x y = 0) (take n b) = filter (\<lambda>y. cmp x y = 0) (take n a))) \<or>
     ec' = U_MEMORY_ALLOCATION_ERROR \<and> b = a \<and> 200 < itemSize \<and> \<not> (alloc itemSize \<and> alloc (2 * itemSize)))"
proof -
  have "\<forall>i<n. a ! i \<in> set (take n a)" using assms(2) by (metis length_take min.absorb2 nth_mem nth_take)
  moreover have "fits itemSize n" using assms(4-6) by (simp add: fits_def)
  ultimately show ?thesis
    using comparator_on.sortArray_result [OF assms(1) _ assms(2) _ assms(3), of itemSize alloc sortStable]
    unfolding comparator_on.sorted_result_def [OF assms(1)] comparator_on.stable_rearrangement_def [OF assms(1)]
    by (auto simp: not_le split: if_splits)
qed

theorem sortArray_sorts_witness:
  "\<exists>b. uprv_sortArray (\<lambda>_. False) (Some [5, 3, 8, 1, 9, 2, 7, 3, 3, 12, 0, 4]) 12 4 (Some uprv_uint32Comparator) False
      U_ZERO_ERROR = Some (Some b, U_ZERO_ERROR) \<and>
    sorted_wrt (\<lambda>x y. uprv_uint32Comparator x y \<le> 0) (take 12 b) \<and>
    mset (take 12 b) = mset (take 12 [5, 3, 8, 1, 9, 2, 7, 3, 3, 12, 0, 4])"
  using sortArray_sorts [OF comparator_on_subset [OF uint32.comparator_on_axioms subset_UNIV], of 12
      "[5, 3, 8, 1, 9, 2, 7, 3, 3, 12, 0, 4]" U_ZERO_ERROR 4 "\<lambda>_. False" False] by auto

text \<open>
  C35. \<open>uprv_stableBinarySearch\<close> in a sorted array of \<open>n\<close> items whose byte offsets fit in 32 bits (\<open>n*itemSize\<close> and
  \<open>2*n\<close> are at most \<open>INT32_MAX\<close>) computes no overflowing index and returns the index of the last item equal to the given
  one, if there is one, and otherwise the complement of the position before which the given item belongs.
\<close>

theorem stableBinarySearch_spec:
  assumes "comparator_on (insert item (set (take n a))) cmp" and "n \<le> length a"
    and "sorted_wrt (\<lambda>x y. cmp x y \<le> 0) (take n a)"
    and "0 < itemSize" and "int n * itemSize \<le> INT32_MAX" and "2 * int n \<le> INT32_MAX"
  shows "\<exists>k\<le>n. (\<forall>i<k. cmp item (a ! i) \<ge> 0) \<and> (\<forall>i. k \<le> i \<longrightarrow> i < n \<longrightarrow> cmp item (a ! i) < 0) \<and>
    uprv_stableBinarySearch cmp itemSize a n item =
      Some (if \<exists>i<n. cmp item (a ! i) = 0 then int k - 1 else - int k - 1)"
proof -
  let ?A = "insert item (set (take n a))"
  have A: "\<forall>i<n. a ! i \<in> ?A" using assms(2) by (metis insertCI length_take min.absorb2 nth_mem nth_take)
  have z: "fits itemSize n" using assms(4-6) by (simp add: fits_def)
  obtain k where k: "comparator_on.point_at cmp a n item k" and r: "uprv_stableBinarySearch cmp itemSize a n item =
    Some (if 0 < k \<and> cmp item (a ! (k - 1)) = 0 then int k - 1 else - int k - 1)"
    using comparator_on.stableBinarySearch_ok [OF assms(1) z assms(3,2) A] by blast
  have p: "k \<le> n" "\<forall>i<k. cmp item (a ! i) \<ge> 0" "\<forall>i. k \<le> i \<longrightarrow> i < n \<longrightarrow> cmp item (a ! i) < 0"
    using k unfolding comparator_on.point_at_def [OF assms(1)] by auto
  have "(0 < k \<and> cmp item (a ! (k - 1)) = 0) = (\<exists>i<n. cmp item (a ! i) = 0)"
  proof
    assume "0 < k \<and> cmp item (a ! (k - 1)) = 0"
    then show "\<exists>i<n. cmp item (a ! i) = 0" using p(1) by (intro exI [of _ "k - 1"]) auto
  next
    assume "\<exists>i<n. cmp item (a ! i) = 0"
    then obtain i where i: "i < n" "cmp item (a ! i) = 0" by blast
    have ik: "i < k" using i p(3) by (metis less_irrefl not_le)
    have "cmp (a ! i) (a ! (k - 1)) \<le> 0"
      using comparator_on.sorted_items_le [OF assms(1,3) _ _ assms(2) A, of i "k - 1"] ik p(1) by auto
    then have "cmp item (a ! (k - 1)) \<le> 0"
      using comparator_on.trans [OF assms(1), of item "a ! i" "a ! (k - 1)"] i A ik p(1) by auto
    moreover have "cmp item (a ! (k - 1)) \<ge> 0" using p(2) ik by auto
    ultimately show "0 < k \<and> cmp item (a ! (k - 1)) = 0" using ik by auto
  qed
  then show ?thesis using p r by auto
qed

theorem stableBinarySearch_spec_witness:
  "\<exists>k\<le>4. (\<forall>i<k. uprv_uint32Comparator 3 ([1, 3, 3, 7] ! i) \<ge> 0) \<and>
    uprv_stableBinarySearch uprv_uint32Comparator 4 [1, 3, 3, 7] 4 3 = Some (int k - 1)"
proof -
  have n: "4 \<le> length [1, 3, 3, 7 :: int]" by simp
  have s: "sorted_wrt (\<lambda>x y. uprv_uint32Comparator x y \<le> 0) (take 4 [1, 3, 3, 7])"
    by (simp add: uprv_uint32Comparator_def)
  have "uprv_uint32Comparator 3 ([1, 3, 3, 7] ! 1) = 0" by (simp add: uprv_uint32Comparator_def)
  then have ex: "\<exists>i<4. uprv_uint32Comparator 3 ([1, 3, 3, 7] ! i) = 0" by (intro exI [of _ 1]) simp
  have z: "(0::int) < 4" "int 4 * 4 \<le> INT32_MAX" "2 * int 4 \<le> INT32_MAX" by simp_all
  show ?thesis
    using stableBinarySearch_spec [OF comparator_on_subset [OF uint32.comparator_on_axioms subset_UNIV] n s z, of 3]
    unfolding if_P [OF ex] by blast
qed

text \<open>
  The midpoint is computed as \<open>(start+limit)/2\<close>: in an array of more than two thirds of \<open>INT32_MAX\<close> single bytes, all smaller
  than the item, the second sum overflows.
\<close>

theorem stableBinarySearch_overflows:
  assumes "length a = n" and "1431655766 \<le> int n" and "int n \<le> INT32_MAX" and "\<forall>y\<in>set a. cmp item y > 0"
  shows "uprv_stableBinarySearch cmp 1 a n item = None"
proof -
  let ?i = "n div 2"
  have i: "?i < n" "?i + 9 \<le> n" using assms(2) by auto
  have m: "middle 0 n = Some ?i" using assms(3) by (simp add: middle_def)
  have "int ?i + int n > 0x7fffffff" using assms(2) by linarith
  then have o: "middle ?i n = None" by (simp add: middle_def)
  have at: "item_at 1 a ?i = Some (a ! ?i)" using assms(1,3) i by (simp add: item_at_def)
  have gt: "cmp item (a ! ?i) > 0" using assms(1,4) i by simp
  have "search_binary cmp 1 a item 0 n False = search_binary cmp 1 a item ?i n False"
    using m at gt i by (subst search_binary.simps) simp
  also have "\<dots> = None" using o i by (subst search_binary.simps) simp
  finally show ?thesis by (simp add: uprv_stableBinarySearch_def)
qed

lemma sort_elements_ok:
  assumes v: "vec_ok v" and c: "comparator_on (set (vec_contents v)) cmp"
  shows "\<exists>w. UVector_sort_elements alloc v cmp st U_ZERO_ERROR = Some (w, U_ZERO_ERROR) \<and> vec_ok w \<and>
    sorted_wrt (\<lambda>x y. cmp x y \<le> 0) (vec_contents w) \<and> mset (vec_contents w) = mset (vec_contents v) \<and>
    (st \<longrightarrow> (\<forall>x\<in>set (vec_contents v).
       filter (\<lambda>y. cmp x y = 0) (vec_contents w) = filter (\<lambda>y. cmp x y = 0) (vec_contents v)))"
proof -
  define n where "n = nat (count v)"
  have n: "n \<le> length (elements v)" "int n = count v" using v by (auto simp: vec_ok_def n_def)
  have A: "\<forall>i<n. elements v ! i \<in> set (vec_contents v)"
    using n(1) unfolding vec_contents_def n_def [symmetric] by (metis length_take min.absorb2 nth_mem nth_take)
  have "n \<le> 0xfffffff" using v n by (auto simp: vec_ok_def)
  then have z: "fits 8 n" by (simp add: fits_def)
  obtain b where b: "uprv_sortArray alloc (Some (elements v)) (int n) 8 (Some cmp) st U_ZERO_ERROR = Some (Some b, U_ZERO_ERROR)"
    and r: "comparator_on.sorted_result (set (vec_contents v)) cmp (st \<or> n < 9) (elements v) n b"
    using comparator_on.sortArray_result [OF c z n(1) A, of U_ZERO_ERROR alloc st] by auto
  note r = r [unfolded comparator_on.sorted_result_def [OF c] comparator_on.stable_rearrangement_def [OF c]]
  let ?w = "v\<lparr>elements := b\<rparr>"
  have w: "vec_contents ?w = take n b" "vec_contents v = take n (elements v)" by (simp_all add: vec_contents_def n_def)
  have "length b = length (elements v)"
    using r n(1) by (metis append_take_drop_id length_append mset_eq_length)
  moreover have "set (take n b) = set (take n (elements v))" using r by (metis mset_eq_setD)
  ultimately have "vec_ok ?w" using v w by (simp add: vec_ok_def)
  then show ?thesis using b r w n(2) by (auto simp: UVector_sort_elements_def)
qed

text \<open>
  C36. Sorting a vector.  On a well-formed vector \<open>sort\<close> and \<open>sortWithUComparator\<close> with a comparator that orders
  the elements, and \<open>sorti\<close>, always succeed, keep the vector well formed and leave the same elements in order;
  \<open>sortWithUComparator\<close> keeps equal elements in the order they had.
\<close>

theorem UVector_sorts:
  assumes "vec_ok v" and "comparator_on (set (vec_contents v)) compare"
  shows "(\<exists>w. UVector_sort alloc v compare U_ZERO_ERROR = Some (w, U_ZERO_ERROR) \<and> vec_ok w \<and>
      sorted_wrt (\<lambda>x y. compare x y \<le> 0) (vec_contents w) \<and> mset (vec_contents w) = mset (vec_contents v)) \<and>
    (\<exists>w. UVector_sortWithUComparator alloc v compare U_ZERO_ERROR = Some (w, U_ZERO_ERROR) \<and> vec_ok w \<and>
      sorted_wrt (\<lambda>x y. compare x y \<le> 0) (vec_contents w) \<and> mset (vec_contents w) = mset (vec_contents v) \<and>
      (\<forall>x\<in>set (vec_contents v). filter (\<lambda>y. compare x y = 0) (vec_contents w) =
         filter (\<lambda>y. compare x y = 0) (vec_contents v))) \<and>
    (\<exists>w. UVector_sorti alloc v U_ZERO_ERROR = Some (w, U_ZERO_ERROR) \<and> vec_ok w \<and>
      sorted (map as_integer (vec_contents w)) \<and> mset (vec_contents w) = mset (vec_contents v))"
proof -
  have "sortComparator compare = compare" by (intro ext) (simp add: sortComparator_def)
  then have "\<exists>w. UVector_sort alloc v compare U_ZERO_ERROR = Some (w, U_ZERO_ERROR) \<and> vec_ok w \<and>
      sorted_wrt (\<lambda>x y. compare x y \<le> 0) (vec_contents w) \<and> mset (vec_contents w) = mset (vec_contents v)"
    using sort_elements_ok [OF assms, of alloc False] by (auto simp: UVector_sort_def)
  moreover have "sorted (map as_integer xs) = sorted_wrt (\<lambda>x y. sortiComparator x y \<le> 0) xs" for xs :: "'a UElement list"
  proof -
    have "sortiComparator x y \<le> 0 \<longleftrightarrow> as_integer x \<le> as_integer y" for x y :: "'a UElement"
      by (auto simp: sortiComparator_def)
    then show ?thesis by (simp add: sorted_wrt_map)
  qed
  then have "\<exists>w. UVector_sorti alloc v U_ZERO_ERROR = Some (w, U_ZERO_ERROR) \<and> vec_ok w \<and>
      sorted (map as_integer (vec_contents w)) \<and> mset (vec_contents w) = mset (vec_contents v)"
    using sort_elements_ok [OF assms(1) comparator_on_subset [OF sorti.comparator_on_axioms subset_UNIV], of alloc False]
    by (auto simp: UVector_sorti_def)
  ultimately show ?thesis
    using sort_elements_ok [OF assms, of alloc True] by (auto simp: UVector_sortWithUComparator_def)
qed

definition three_numbers :: "nat UVector" where
  "three_numbers = \<lparr>count = 3, capacity = 4, elements = [Integer 5, Integer 1, Integer 3, Uninit], deleter = False,
     comparer = None, freed = []\<rparr>"

theorem UVector_sorts_witness:
  "\<exists>w. UVector_sorti (\<lambda>_. True) three_numbers U_ZERO_ERROR = Some (w, U_ZERO_ERROR) \<and>
    sorted (map as_integer (vec_contents w)) \<and> mset (vec_contents w) = {#Integer 5, Integer 1, Integer 3#}"
proof -
  have "vec_ok three_numbers" by (simp add: three_numbers_def vec_ok_def vec_contents_def)
  moreover have "vec_contents three_numbers = [Integer 5, Integer 1, Integer 3]"
    by (simp add: three_numbers_def vec_contents_def)
  ultimately show ?thesis
    using UVector_sorts [of three_numbers sortiComparator "\<lambda>_. True"]
      comparator_on_subset [OF sorti.comparator_on_axioms subset_UNIV] by auto
qed

text \<open>
  \<open>uprv_int32Comparator\<close> subtracts, and the difference of two 32-bit integers need not fit: with it
  \<open>uprv_sortArray\<close> swaps two numbers that are in order.
\<close>

theorem int32Comparator_overflows:
  "uprv_sortArray alloc (Some [- 2, 0x7fffffff]) 2 4 (Some uprv_int32Comparator) sortStable U_ZERO_ERROR =
   Some (Some [0x7fffffff, - 2], U_ZERO_ERROR)"
proof -
  have "doInsertionSort uprv_int32Comparator 4 [- 2, 0x7fffffff] 2 = Some [0x7fffffff, - 2]" by code_simp
  then show ?thesis by (simp add: uprv_sortArray_def insertionSort_def)
qed

end
