(* ===== verification/Punycode.thy ===== *)
theory Punycode
  imports Utf16 "HOL-Library.Signed_Division"
begin

text \<open>
  The Punycode codec of \<open>common/punycode.cpp\<close>: the Bootstring encoding of RFC 3492 that IDNA uses to write
  any Unicode label in ASCII.

  Code units, code points and the \<open>int32_t\<close> variables are integers; the overflow checks of the code are written out,
  with the truncating division of C (\<open>sdiv\<close>) where a sign could matter.  A destination is the whole array behind
  the pointer, its capacity a separate number, as in the code: a store beyond the capacity is skipped and the length
  keeps counting, which is how the functions preflight.  A read outside an array makes an operation return \<open>None\<close>;
  an error is \<open>Inl\<close> with the status and the destination as it is at that point.
\<close>

section \<open>Bootstring parameters and digits\<close>

abbreviation (input) BASE :: int where "BASE \<equiv> 36"
abbreviation (input) TMIN :: int where "TMIN \<equiv> 1"
abbreviation (input) TMAX :: int where "TMAX \<equiv> 26"
abbreviation (input) SKEW :: int where "SKEW \<equiv> 38"
abbreviation (input) DAMP :: int where "DAMP \<equiv> 700"
abbreviation (input) INITIAL_BIAS :: int where "INITIAL_BIAS \<equiv> 72"
abbreviation (input) INITIAL_N :: int where "INITIAL_N \<equiv> 0x80"
abbreviation (input) DELIMITER :: int where "DELIMITER \<equiv> 0x2d"
abbreviation (input) MAX_CP_COUNT :: nat where "MAX_CP_COUNT \<equiv> 200"

definition IS_BASIC :: "int \<Rightarrow> bool" where
  "IS_BASIC c = (c < 0x80)"

definition IS_BASIC_UPPERCASE :: "int \<Rightarrow> bool" where
  "IS_BASIC_UPPERCASE c = (0x41 \<le> c \<and> c \<le> 0x5a)"

definition digitToBasic :: "int \<Rightarrow> bool \<Rightarrow> int" where
  "digitToBasic digit uppercase =
     (if digit < 26 then if uppercase then 0x41 + digit else 0x61 + digit else 0x30 - 26 + digit)"

definition basicToDigit :: "int list" where
  "basicToDigit = replicate 48 (- 1) @ map (\<lambda>i. i + 26) [0..9] @ replicate 7 (- 1) @ [0..25] @ replicate 6 (- 1) @ [0..25] @
     replicate 133 (- 1)"

definition asciiCaseMap :: "int \<Rightarrow> bool \<Rightarrow> int" where
  "asciiCaseMap b uppercase =
     (if uppercase then if 0x61 \<le> b \<and> b \<le> 0x7a then b - (0x61 - 0x41) else b
      else if 0x41 \<le> b \<and> b \<le> 0x5a then b + (0x61 - 0x41) else b)"

text \<open>\<open>for(count=0; delta>((BASE-TMIN)*TMAX)/2; count+=BASE) { delta/=(BASE-TMIN); }\<close>\<close>

function adapt_loop :: "int \<Rightarrow> int \<Rightarrow> int \<times> int" where
  "adapt_loop delta count =
     (if delta > ((BASE - TMIN) * TMAX) div 2 then adapt_loop (delta div (BASE - TMIN)) (count + BASE) else (delta, count))"
  by pat_completeness auto
termination
  by (relation "measure (\<lambda>(delta, count). nat delta)") auto

declare adapt_loop.simps [simp del]

definition adaptBias :: "int \<Rightarrow> int \<Rightarrow> bool \<Rightarrow> int" where
  "adaptBias delta len firstTime =
     (let delta = (if firstTime then delta div DAMP else delta div 2);
          delta = delta + delta div len;
          (delta, count) = adapt_loop delta 0 in
      count + ((BASE - TMIN + 1) * delta) div (delta + SKEW))"

text \<open>The threshold \<open>t\<close> of the digit at \<open>k\<close>.\<close>

definition threshold :: "int \<Rightarrow> int \<Rightarrow> int" where
  "threshold k bias = (if k - bias < TMIN then TMIN else if k \<ge> bias + TMAX then TMAX else k - bias)"

section \<open>Encoding\<close>

text \<open>\<open>if(destLength<destCapacity) { dest[destLength]=c; }\<close>\<close>

definition put :: "int list \<Rightarrow> nat \<Rightarrow> nat \<Rightarrow> int \<Rightarrow> int list" where
  "put dest capacity i c = (if i < capacity then dest[i := c] else dest)"

definition unit_at :: "UChar list \<Rightarrow> nat \<Rightarrow> UChar option" where
  "unit_at s i = (if i < length s then Some (s ! i) else None)"

text \<open>The condition of the two input loops: a NUL ends the text when \<open>srcLength\<close> is -1.\<close>

definition more_input :: "UChar list \<Rightarrow> int \<Rightarrow> nat \<Rightarrow> bool option" where
  "more_input src srcLength j =
     (if srcLength = - 1 then map_option (\<lambda>c. c \<noteq> 0) (unit_at src j) else Some (int j < srcLength))"

text \<open>
  The input loops: the code points are collected in \<open>cpBuffer\<close>, 0 for a basic one and the case flag in the sign
  bit, and the basic ones are copied.
\<close>

function read_input ::
  "UChar list \<Rightarrow> int \<Rightarrow> bool list option \<Rightarrow> nat \<Rightarrow> nat \<Rightarrow> int list \<Rightarrow> int list \<Rightarrow> nat \<Rightarrow>
   ((UErrorCode \<times> int list) + int list \<times> int list \<times> nat) option" where
  "read_input src srcLength caseFlags capacity j cpBuffer dest destLength =
     (case more_input src srcLength j of
        None \<Rightarrow> None
      | Some False \<Rightarrow> Some (Inr (cpBuffer, dest, destLength))
      | Some True \<Rightarrow>
          if length cpBuffer = MAX_CP_COUNT then Some (Inl (U_INDEX_OUTOFBOUNDS_ERROR, dest))
          else if \<not> j < length src \<or> (case caseFlags of None \<Rightarrow> False | Some f \<Rightarrow> \<not> j < length f) then None
          else
            let c = src ! j;
                flag = (case caseFlags of None \<Rightarrow> False | Some f \<Rightarrow> f ! j) in
            if IS_BASIC c then
              read_input src srcLength caseFlags capacity (j + 1) (cpBuffer @ [0])
                (put dest capacity destLength (case caseFlags of None \<Rightarrow> c | Some f \<Rightarrow> asciiCaseMap c flag)) (destLength + 1)
            else
              let n = (if flag then - (2 ^ 31) else 0) in
              if \<not> U_IS_SURROGATE c then
                read_input src srcLength caseFlags capacity (j + 1) (cpBuffer @ [n + c]) dest destLength
              else if U16_IS_LEAD c \<and> (srcLength = - 1 \<or> int j + 1 < srcLength) then
                if \<not> j + 1 < length src then None
                else if U16_IS_TRAIL (src ! (j + 1)) then
                  read_input src srcLength caseFlags capacity (j + 2)
                    (cpBuffer @ [n + U16_GET_SUPPLEMENTARY c (src ! (j + 1))]) dest destLength
                else Some (Inl (U_INVALID_CHAR_FOUND, dest))
              else Some (Inl (U_INVALID_CHAR_FOUND, dest)))"
  by pat_completeness auto
termination
  by (relation "measure (\<lambda>(src, srcLength, caseFlags, capacity, j, cpBuffer, dest, destLength). length src - j)") auto

declare read_input.simps [simp del]

lemma threshold_range: "1 \<le> threshold k bias" "threshold k bias \<le> 26"
  by (auto simp: threshold_def)

lemma varint_smaller: "t \<le> q \<Longrightarrow> 1 \<le> t \<Longrightarrow> t \<le> 26 \<Longrightarrow> (q - t) div (36 - t) < q" for q t :: int
proof -
  assume t: "t \<le> q" "1 \<le> t" "t \<le> 26"
  have "(q - t) div (36 - t) \<le> (q - t) div 1" using t by (intro zdiv_mono2) auto
  then show ?thesis using t by simp
qed

text \<open>The loop that writes \<open>delta\<close> as a generalized variable-length integer.\<close>

function write_delta :: "int \<Rightarrow> int \<Rightarrow> int \<Rightarrow> bool \<Rightarrow> int list \<Rightarrow> nat \<Rightarrow> nat \<Rightarrow> int list \<times> nat" where
  "write_delta q k bias uppercase dest capacity destLength =
     (let t = threshold k bias in
      if q < t then (put dest capacity destLength (digitToBasic q uppercase), destLength + 1)
      else write_delta ((q - t) div (BASE - t)) (k + BASE) bias uppercase
             (put dest capacity destLength (digitToBasic (t + (q - t) mod (BASE - t)) False)) capacity (destLength + 1))"
  by pat_completeness auto
termination
proof (relation "measure (\<lambda>(q, k, bias, uppercase, dest, capacity, destLength). nat q)")
  fix q k bias :: int and uppercase :: bool and dest :: "int list" and capacity destLength :: nat and t :: int
  assume t: "t = threshold k bias" and q: "\<not> q < t"
  have "(q - t) div (36 - t) < q" using varint_smaller [of t q] threshold_range [of k bias] t q by simp
  moreover have "0 < q" using threshold_range [of k bias] t q by simp
  ultimately show "(((q - t) div (36 - t), k + 36, bias, uppercase, put dest capacity destLength
      (digitToBasic (t + (q - t) mod (36 - t)) False), capacity, destLength + 1), q, k, bias, uppercase, dest, capacity, destLength)
    \<in> measure (\<lambda>(q, k, bias, uppercase, dest, capacity, destLength). nat q)" by simp
qed simp

declare write_delta.simps [simp del]

text \<open>The variables of the main encoding loop.\<close>

record enc_state =
  e_delta :: int
  e_bias :: int
  e_handled :: nat
  e_dest :: "int list"
  e_len :: nat

definition next_n :: "int list \<Rightarrow> int \<Rightarrow> int" where
  "next_n cpBuffer n = foldl (\<lambda>m e. let q = e AND 0x7fffffff in if n \<le> q \<and> q < m then q else m) 0x7fffffff cpBuffer"

text \<open>\<open>for(j=0; j<srcCPCount; ++j)\<close>: the occurrences of \<open>n\<close> are encoded.\<close>

fun encode_pass :: "int list \<Rightarrow> int \<Rightarrow> nat \<Rightarrow> nat \<Rightarrow> enc_state \<Rightarrow> enc_state" where
  "encode_pass [] n basicLength capacity st = st"
| "encode_pass (e # es) n basicLength capacity st =
     (let q = e AND 0x7fffffff in
      encode_pass es n basicLength capacity
        (if q < n then st\<lparr>e_delta := e_delta st + 1\<rparr>
         else if q = n then
           (case write_delta (e_delta st) BASE (e_bias st) (e < 0) (e_dest st) capacity (e_len st) of
              (dest, len) \<Rightarrow>
                \<lparr>e_delta = 0,
                 e_bias = adaptBias (e_delta st) (int (e_handled st) + 1) (e_handled st = basicLength),
                 e_handled = e_handled st + 1, e_dest = dest, e_len = len\<rparr>)
         else st))"

lemma next_n_ge: "next_n es n = 0x7fffffff \<or> n \<le> next_n es n"
proof -
  have "m = 0x7fffffff \<or> n \<le> m \<Longrightarrow> foldl (\<lambda>m e. let q = e AND 0x7fffffff in if n \<le> q \<and> q < m then q else m) m es = 0x7fffffff \<or>
      n \<le> foldl (\<lambda>m e. let q = e AND 0x7fffffff in if n \<le> q \<and> q < m then q else m) m es" for m
    by (induction es arbitrary: m) (auto simp: Let_def)
  then show ?thesis unfolding next_n_def by blast
qed

lemma next_n_le: "next_n es n \<le> 0x7fffffff"
proof -
  have "m \<le> 0x7fffffff \<Longrightarrow> foldl (\<lambda>m e. let q = e AND 0x7fffffff in if n \<le> q \<and> q < m then q else m) m es \<le> 0x7fffffff" for m
    by (induction es arbitrary: m) (auto simp: Let_def)
  then show ?thesis unfolding next_n_def by simp
qed

text \<open>\<open>None\<close> is an overflow of \<open>++n\<close>.\<close>

function encode_loop :: "int list \<Rightarrow> nat \<Rightarrow> nat \<Rightarrow> int \<Rightarrow> enc_state \<Rightarrow> ((UErrorCode \<times> int list) + enc_state) option" where
  "encode_loop cpBuffer basicLength capacity n st =
     (if e_handled st < length cpBuffer then
        let m = next_n cpBuffer n in
        if m - n > (0x7fffffff - int MAX_CP_COUNT - e_delta st) sdiv (int (e_handled st) + 1)
        then Some (Inl (U_INTERNAL_PROGRAM_ERROR, e_dest st))
        else if m = 0x7fffffff then None
        else
          let st = st\<lparr>e_delta := e_delta st + (m - n) * (int (e_handled st) + 1)\<rparr>;
              st = encode_pass cpBuffer m basicLength capacity st in
          encode_loop cpBuffer basicLength capacity (m + 1) (st\<lparr>e_delta := e_delta st + 1\<rparr>)
      else Some (Inr st))"
  by pat_completeness auto
termination
proof (relation "measure (\<lambda>(cpBuffer, basicLength, capacity, n, st). nat (0x80000000 - n))")
  fix cpBuffer :: "int list" and n m :: int
  assume "m = next_n cpBuffer n" "m \<noteq> 0x7fffffff"
  then have "n \<le> m" "m < 0x7fffffff" using next_n_ge [of cpBuffer n] next_n_le [of cpBuffer n] by auto
  then have "nat (0x80000000 - (m + 1)) < nat (0x80000000 - n)" by simp
  then show "((cpBuffer, basicLength, capacity, m + 1, st'), cpBuffer, basicLength, capacity, n, st)
      \<in> measure (\<lambda>(cpBuffer, basicLength, capacity, n, st). nat (0x80000000 - n))"
    for basicLength capacity :: nat and st st' :: enc_state by simp
qed simp

declare encode_loop.simps [simp del]

text \<open>
  \<open>u_terminateUChars\<close> for a length that is not negative; the capacity is the caller's argument as it is, and any length is
  greater than a negative one.
\<close>

definition u_terminateUChars :: "int list \<Rightarrow> int \<Rightarrow> nat \<Rightarrow> UErrorCode \<Rightarrow> int list \<times> UErrorCode" where
  "u_terminateUChars dest capacity len ec =
     (if U_SUCCESS ec then
        if int len < capacity
        then (dest[len := 0], if ec = U_STRING_NOT_TERMINATED_WARNING then U_ZERO_ERROR else ec)
        else if int len = capacity then (dest, U_STRING_NOT_TERMINATED_WARNING)
        else (dest, U_BUFFER_OVERFLOW_ERROR)
      else (dest, ec))"

text \<open>
  \<open>dest\<close> is the whole destination array, \<open>None\<close> the null pointer; the result is the returned length, the array
  and the status.
\<close>

definition u_strToPunycode ::
  "UChar list option \<Rightarrow> int \<Rightarrow> int list option \<Rightarrow> int \<Rightarrow> bool list option \<Rightarrow> UErrorCode \<Rightarrow>
   (nat \<times> int list option \<times> UErrorCode) option" where
  "u_strToPunycode src srcLength dest destCapacity caseFlags ec =
     (if U_FAILURE ec then Some (0, dest, ec)
      else if src = None \<or> srcLength < - 1 \<or> (dest = None \<and> destCapacity \<noteq> 0)
      then Some (0, dest, U_ILLEGAL_ARGUMENT_ERROR)
      else
        let d = (case dest of None \<Rightarrow> [] | Some d \<Rightarrow> d);
            capacity = nat destCapacity;
            result = (\<lambda>d'. map_option (\<lambda>_. d') dest) in
        case read_input (the src) srcLength caseFlags capacity 0 [] d 0 of
          None \<Rightarrow> None
        | Some (Inl (e, d)) \<Rightarrow> Some (0, result d, e)
        | Some (Inr (cpBuffer, d, destLength)) \<Rightarrow>
            let basicLength = destLength;
                (d, destLength) = (if basicLength > 0 then (put d capacity destLength DELIMITER, destLength + 1)
                                   else (d, destLength)) in
            (case encode_loop cpBuffer basicLength capacity INITIAL_N
                   \<lparr>e_delta = 0, e_bias = INITIAL_BIAS, e_handled = basicLength, e_dest = d, e_len = destLength\<rparr> of
              None \<Rightarrow> None
            | Some (Inl (e, d)) \<Rightarrow> Some (0, result d, e)
            | Some (Inr st) \<Rightarrow>
                (case u_terminateUChars (e_dest st) destCapacity (e_len st) ec of
                   (d, ec) \<Rightarrow> Some (e_len st, result d, ec))))"


section \<open>Decoding\<close>

text \<open>\<open>for(j=srcLength; j>0;) { if(src[--j]==DELIMITER) { break; } }\<close>\<close>

fun last_delimiter :: "UChar list \<Rightarrow> nat \<Rightarrow> nat option" where
  "last_delimiter src 0 = Some 0"
| "last_delimiter src (Suc j) =
     (if j < length src then if src ! j = DELIMITER then Some j else last_delimiter src j else None)"

text \<open>The loop that copies the basic code points backward, with the case flags if they are asked for.\<close>

fun copy_basic ::
  "UChar list \<Rightarrow> nat \<Rightarrow> nat \<Rightarrow> int list \<Rightarrow> bool list option \<Rightarrow>
   ((UErrorCode \<times> int list \<times> bool list option) + int list \<times> bool list option) option" where
  "copy_basic src capacity 0 dest caseFlags = Some (Inr (dest, caseFlags))"
| "copy_basic src capacity (Suc j) dest caseFlags =
     (if j < length src then
        let b = src ! j in
        if \<not> IS_BASIC b then Some (Inl (U_INVALID_CHAR_FOUND, dest, caseFlags))
        else if j < capacity
        then copy_basic src capacity j (dest[j := b]) (map_option (\<lambda>f. f[j := IS_BASIC_UPPERCASE b]) caseFlags)
        else copy_basic src capacity j dest caseFlags
      else None)"

text \<open>
  The loop that reads a generalized variable-length integer and adds it to \<open>i\<close>; \<open>pos\<close> is the variable \<open>in\<close>.
  The table is indexed with the low byte of the unit.
\<close>

function read_delta ::
  "UChar list \<Rightarrow> nat \<Rightarrow> nat \<Rightarrow> int \<Rightarrow> int \<Rightarrow> int \<Rightarrow> int \<Rightarrow> (UErrorCode + nat \<times> int) option" where
  "read_delta src srcLength pos i w k bias =
     (if pos \<ge> srcLength then Some (Inl U_ILLEGAL_CHAR_FOUND)
      else if \<not> pos < length src then None
      else
        let digit = basicToDigit ! nat (src ! pos mod 256) in
        if digit < 0 then Some (Inl U_INVALID_CHAR_FOUND)
        else if digit > (0x7fffffff - i) sdiv w then Some (Inl U_ILLEGAL_CHAR_FOUND)
        else
          let i = i + digit * w; t = threshold k bias in
          if digit < t then Some (Inr (pos + 1, i))
          else if w > 0x7fffffff sdiv (BASE - t) then Some (Inl U_ILLEGAL_CHAR_FOUND)
          else read_delta src srcLength (pos + 1) i (w * (BASE - t)) (k + BASE) bias)"
  by pat_completeness auto
termination
  by (relation "measure (\<lambda>(src, srcLength, pos, i, w, k, bias). srcLength - pos)") auto

declare read_delta.simps [simp del]

text \<open>The variables of the main decoding loop.\<close>

record dec_state =
  d_n :: int
  d_i :: int
  d_bias :: int
  d_dest :: "int list"
  d_flags :: "bool list option"
  d_len :: nat
  d_cps :: nat
  d_first :: nat

text \<open>\<open>memmove\<close> of the tail behind \<open>idx\<close> and the stores into the gap.\<close>

definition insert_units :: "'a list \<Rightarrow> nat \<Rightarrow> nat \<Rightarrow> 'a list \<Rightarrow> 'a list" where
  "insert_units dest destLength idx units =
     (let dest = (if idx < destLength
                  then take (idx + length units) dest @ drop idx (take destLength dest) @ drop (destLength + length units) dest
                  else dest) in
      take idx dest @ units @ drop (idx + length units) dest)"

definition insert_cp :: "UChar \<Rightarrow> dec_state \<Rightarrow> dec_state" where
  "insert_cp b st =
     (let n = d_n st; i = nat (d_i st); cpLength = U16_LENGTH n;
          (idx, first) = (if i \<le> d_first st then (i, if cpLength > 1 then i else d_first st + 1)
                          else (U16_FWD_N (d_dest st) (d_first st) (d_len st) (i - d_first st), d_first st)) in
      st\<lparr>d_dest := insert_units (d_dest st) (d_len st) idx (if cpLength = 1 then [n AND 0xffff] else [U16_LEAD n, U16_TRAIL n]),
         d_flags := map_option (\<lambda>f. insert_units f (d_len st) idx
                      (if cpLength = 1 then [IS_BASIC_UPPERCASE b] else [IS_BASIC_UPPERCASE b, False])) (d_flags st),
         d_first := first\<rparr>)"

definition decode_step ::
  "UChar list \<Rightarrow> nat \<Rightarrow> bool \<Rightarrow> nat \<Rightarrow> nat \<Rightarrow> dec_state \<Rightarrow> ((UErrorCode \<times> dec_state) + nat \<times> dec_state) option" where
  "decode_step src srcLength hasDest capacity pos st =
     (case read_delta src srcLength pos (d_i st) 1 BASE (d_bias st) of
        None \<Rightarrow> None
      | Some (Inl e) \<Rightarrow> Some (Inl (e, st))
      | Some (Inr (pos', i)) \<Rightarrow>
          let oldi = d_i st;
              cps = d_cps st + 1;
              bias = adaptBias (i - oldi) (int cps) (oldi = 0) in
          if i sdiv int cps > 0x7fffffff - d_n st then Some (Inl (U_ILLEGAL_CHAR_FOUND, st))
          else
            let n = d_n st + i sdiv int cps;
                st = st\<lparr>d_n := n, d_i := i smod int cps, d_bias := bias, d_cps := cps\<rparr> in
            if n > 0x10ffff \<or> U_IS_SURROGATE n then Some (Inl (U_ILLEGAL_CHAR_FOUND, st))
            else
              let cpLength = U16_LENGTH n;
                  st = (if hasDest \<and> d_len st + cpLength \<le> capacity then insert_cp (src ! (pos' - 1)) st else st) in
              Some (Inr (pos', st\<lparr>d_len := d_len st + cpLength, d_i := d_i st + 1\<rparr>)))"

lemma read_delta_advances: "read_delta src srcLength pos i w k bias = Some (Inr (pos', i')) \<Longrightarrow> pos < pos' \<and> pos' \<le> srcLength"
proof (induction src srcLength pos i w k bias rule: read_delta.induct)
  case (1 src srcLength pos i w k bias)
  show ?case
    using 1(2) 1(1) [OF _ _ refl _ _ refl refl]
    by (subst (asm) read_delta.simps) (auto simp: Let_def split: if_splits)
qed

lemma decode_step_advances: "decode_step src srcLength hasDest capacity pos st = Some (Inr (pos', st')) \<Longrightarrow> pos < pos' \<and> pos' \<le> srcLength"
  by (auto simp: decode_step_def Let_def dest: read_delta_advances split: option.splits sum.splits prod.splits if_splits)

function decode_loop ::
  "UChar list \<Rightarrow> nat \<Rightarrow> bool \<Rightarrow> nat \<Rightarrow> nat \<Rightarrow> dec_state \<Rightarrow> ((UErrorCode \<times> dec_state) + dec_state) option" where
  "decode_loop src srcLength hasDest capacity pos st =
     (if pos < srcLength then
        case decode_step src srcLength hasDest capacity pos st of
          None \<Rightarrow> None
        | Some (Inl e) \<Rightarrow> Some (Inl e)
        | Some (Inr (pos', st')) \<Rightarrow> decode_loop src srcLength hasDest capacity pos' st'
      else Some (Inr st))"
  by pat_completeness auto
termination
  by (relation "measure (\<lambda>(src, srcLength, hasDest, capacity, pos, st). srcLength - pos)")
    (auto dest!: decode_step_advances)

declare decode_loop.simps [simp del]

text \<open>
  The result is the returned length, the destination array, the case flags and the status.  \<open>u_strlen\<close> finds the
  length of a NUL-terminated source.
\<close>

fun strlen_from :: "UChar list \<Rightarrow> nat option" where
  "strlen_from [] = None"
| "strlen_from (c # s) = (if c = 0 then Some 0 else map_option Suc (strlen_from s))"

definition u_strFromPunycode ::
  "UChar list option \<Rightarrow> int \<Rightarrow> int list option \<Rightarrow> int \<Rightarrow> bool list option \<Rightarrow> UErrorCode \<Rightarrow>
   (nat \<times> int list option \<times> bool list option \<times> UErrorCode) option" where
  "u_strFromPunycode src srcLength dest destCapacity caseFlags ec =
     (if U_FAILURE ec then Some (0, dest, caseFlags, ec)
      else if src = None \<or> srcLength < - 1 \<or> (dest = None \<and> destCapacity \<noteq> 0)
      then Some (0, dest, caseFlags, U_ILLEGAL_ARGUMENT_ERROR)
      else
        let s = the src; capacity = nat destCapacity; result = (\<lambda>d'. map_option (\<lambda>_. d') dest) in
        case (if srcLength = - 1 then strlen_from s else Some (nat srcLength)) of
          None \<Rightarrow> None
        | Some srcLength \<Rightarrow>
            (case last_delimiter s srcLength of
               None \<Rightarrow> None
             | Some j \<Rightarrow>
                 (case copy_basic s capacity j (case dest of None \<Rightarrow> [] | Some d \<Rightarrow> d) caseFlags of
                    None \<Rightarrow> None
                  | Some (Inl (e, d, f)) \<Rightarrow> Some (0, result d, f, e)
                  | Some (Inr (d, f)) \<Rightarrow>
                      (case decode_loop s srcLength (dest \<noteq> None) capacity (if j > 0 then j + 1 else 0)
                              \<lparr>d_n = INITIAL_N, d_i = 0, d_bias = INITIAL_BIAS, d_dest = d, d_flags = f, d_len = j,
                               d_cps = j, d_first = 1000000000\<rparr> of
                         None \<Rightarrow> None
                       | Some (Inl (e, st)) \<Rightarrow> Some (0, result (d_dest st), d_flags st, e)
                       | Some (Inr st) \<Rightarrow>
                           (case u_terminateUChars (d_dest st) destCapacity (d_len st) ec of
                              (d, ec) \<Rightarrow> Some (d_len st, result d, d_flags st, ec))))))"

end
