(* ===== verification/PunycodeSync.thy ===== *)
theory PunycodeSync
  imports Punycode
begin

text \<open>
  Why the decoder of Punycode undoes the encoder.  The variable-length integer that \<open>write_delta\<close> writes is read back
  by \<open>read_delta\<close>, without reaching its overflow checks for any delta of a text of at most 200 code points; the bias is
  bounded by 179.  Inserting a code point at the decoder's position, with the shortcut through
  \<open>firstSupplementaryIndex\<close>, inserts it into the list of code points.  The invariant \<open>sync\<close> relates the encoder in
  the middle of a pass to the decoder that has read its output so far: the decoder holds exactly the code points that
  are handled, has the same bias, and its state is \<open>delta\<close> behind the encoder's.
\<close>

section \<open>Digits and variable-length integers\<close>

lemma digit_cases: "0 \<le> d \<Longrightarrow> d < 36 \<Longrightarrow> d \<in> set [0..35]" for d :: int
  by simp

lemma basicToDigit_digitToBasic:
  assumes "0 \<le> d" "d < 36"
  shows "basicToDigit ! nat (digitToBasic d u mod 256) = d" and "0 \<le> digitToBasic d u" and "digitToBasic d u < 0x80"
    and "digitToBasic d u \<noteq> 0x2d"
proof -
  have all: "\<forall>u \<in> {False, True}. \<forall>d \<in> set [0..35]. basicToDigit ! nat (digitToBasic d u mod 256) = d" by code_simp
  then show "basicToDigit ! nat (digitToBasic d u mod 256) = d"
    using digit_cases [OF assms] by (cases u) simp_all
qed (use assms in \<open>auto simp: digitToBasic_def\<close>)

text \<open>The units that the encoder writes for a number.\<close>

function delta_digits :: "int \<Rightarrow> int \<Rightarrow> int \<Rightarrow> bool \<Rightarrow> int list" where
  "delta_digits q k bias uppercase =
     (if q < threshold k bias then [digitToBasic q uppercase]
      else digitToBasic (threshold k bias + (q - threshold k bias) mod (36 - threshold k bias)) False #
        delta_digits ((q - threshold k bias) div (36 - threshold k bias)) (k + 36) bias uppercase)"
  by pat_completeness auto
termination
proof (relation "measure (\<lambda>(q, k, bias, uppercase). nat q)")
  fix q k bias :: int and u :: bool
  assume "\<not> q < threshold k bias"
  then have "(q - threshold k bias) div (36 - threshold k bias) < q" "0 < q"
    using varint_smaller [of "threshold k bias" q] threshold_range [of k bias] by auto
  then show "(((q - threshold k bias) div (36 - threshold k bias), k + 36, bias, u), q, k, bias, u)
      \<in> measure (\<lambda>(q, k, bias, uppercase). nat q)" by simp
qed simp

declare delta_digits.simps [simp del]

text \<open>A digit of a number: its value is between the threshold and 35.\<close>

lemma digit_value: "1 \<le> t \<Longrightarrow> t \<le> 26 \<Longrightarrow> t \<le> q \<Longrightarrow> 0 \<le> t + (q - t) mod (36 - t) \<and> t + (q - t) mod (36 - t) < 36 \<and>
    t \<le> t + (q - t) mod (36 - t)" for q t :: int
  using pos_mod_bound [of "36 - t" "q - t"] pos_mod_sign [of "36 - t" "q - t"] by linarith

lemma delta_digits_basic: "0 \<le> q \<Longrightarrow> x \<in> set (delta_digits q k bias u) \<Longrightarrow> 0 \<le> x \<and> x < 0x80 \<and> x \<noteq> 0x2d"
proof (induction q k bias u rule: delta_digits.induct)
  case (1 q k bias u)
  define t where "t = threshold k bias"
  have t: "1 \<le> t" "t \<le> 26" using threshold_range t_def by auto
  show ?case
  proof (cases "q < t")
    case True
    then have "x = digitToBasic q u" using 1(3) by (subst (asm) delta_digits.simps) (simp add: t_def)
    then show ?thesis using basicToDigit_digitToBasic [of q u] True t 1(2) by simp
  next
    case False
    have "0 \<le> (q - t) div (36 - t)" using False t by (simp add: pos_imp_zdiv_nonneg_iff)
    moreover have "x = digitToBasic (t + (q - t) mod (36 - t)) False \<or> x \<in> set (delta_digits ((q - t) div (36 - t)) (k + 36) bias u)"
      using 1(3) False by (subst (asm) delta_digits.simps) (simp add: t_def)
    ultimately show ?thesis
      using 1(1) False digit_value [of t q] t basicToDigit_digitToBasic [of "t + (q - t) mod (36 - t)" False]
      by (auto simp: t_def)
  qed
qed

lemma delta_digits_not_Nil: "delta_digits q k bias u \<noteq> []"
  by (subst delta_digits.simps) simp

section \<open>Writing into the destination\<close>

text \<open>The array after \<open>xs\<close> has been written from its start, as far as the capacity allows.\<close>

definition stored :: "nat \<Rightarrow> int list \<Rightarrow> int list \<Rightarrow> int list" where
  "stored capacity dest xs = take capacity xs @ drop (min capacity (length xs)) dest"

lemma stored_Nil: "stored capacity dest [] = dest"
  by (simp add: stored_def)

lemma length_stored: "capacity \<le> length dest \<Longrightarrow> length (stored capacity dest xs) = length dest"
  by (simp add: stored_def)

lemma put_stored:
  "capacity \<le> length dest \<Longrightarrow> put (stored capacity dest xs) capacity (length xs) c = stored capacity dest (xs @ [c])"
proof (cases "length xs < capacity")
  case True
  assume "capacity \<le> length dest"
  then have "drop (length xs) dest = dest ! length xs # drop (Suc (length xs)) dest"
    using True by (simp add: Cons_nth_drop_Suc)
  moreover have "min capacity (length xs) = length xs" "min capacity (Suc (length xs)) = Suc (length xs)"
    using True by auto
  ultimately show ?thesis using True by (simp add: put_def stored_def list_update_append)
qed (simp add: put_def stored_def min_def)

lemma write_delta_stored:
  "capacity \<le> length dest \<Longrightarrow>
   write_delta q k bias u (stored capacity dest xs) capacity (length xs) =
     (stored capacity dest (xs @ delta_digits q k bias u), length xs + length (delta_digits q k bias u))"
proof (induction q k bias u arbitrary: xs rule: delta_digits.induct)
  case (1 q k bias u)
  show ?case
  proof (cases "q < threshold k bias")
    case True
    then show ?thesis using 1(2) by (subst write_delta.simps, subst (1 2) delta_digits.simps) (simp add: put_stored)
  next
    case False
    let ?c = "digitToBasic (threshold k bias + (q - threshold k bias) mod (36 - threshold k bias)) False"
    show ?thesis using 1(1) [OF False 1(2), of "xs @ [?c]"] False 1(2)
      by (subst write_delta.simps, subst (1 2) delta_digits.simps) (simp add: put_stored Let_def)
  qed
qed

section \<open>Reading a number back\<close>

text \<open>No delta of a text of at most 200 code points is larger.\<close>

abbreviation (input) MAX_DELTA :: int where "MAX_DELTA \<equiv> 0x110000 * 201"

lemma signed_div_pos: "0 \<le> a \<Longrightarrow> 0 < b \<Longrightarrow> a sdiv b = a div b" for a b :: int
  by (simp add: signed_divide_int_def sgn_if)

lemma smod_pos: "0 \<le> a \<Longrightarrow> 0 < b \<Longrightarrow> a smod b = a mod b" for a b :: int
  by (cases "a = 0") (simp_all add: signed_modulo_int_def sgn_if)

lemma le_div: "0 < w \<Longrightarrow> d * w \<le> a \<Longrightarrow> d \<le> a div w" for a d w :: int
  by (simp add: pos_le_divide_eq int_div_less_self zdiv_mono1 [of "d * w" a w, simplified])

lemma digit_split: "q = (t + (q - t) mod (36 - t)) + (36 - t) * ((q - t) div (36 - t))" for q t :: int
  by simp

text \<open>The weight of the next digit does not overflow.\<close>

lemma weight_fits:
  assumes "k = 36 * (int m + 1)" "w \<le> 35 ^ m" "0 < w" "bias \<le> 190" "threshold k bias \<le> q" "q * w \<le> MAX_DELTA"
  shows "w * (36 - threshold k bias) \<le> 0x7fffffff"
proof (cases "threshold k bias = 26")
  case True
  have "26 * w \<le> q * w" using assms True by (intro mult_right_mono) auto
  then show ?thesis using True assms(6) by simp
next
  case False
  then have "k < 216" using assms(4) by (auto simp: threshold_def split: if_splits)
  then have "m \<le> 4" using assms(1) by simp
  then have "w \<le> 35 ^ 4" using assms(2) power_increasing [of m 4 "35 :: int"] by linarith
  moreover have "w * (36 - threshold k bias) \<le> w * 35" using threshold_range(1) [of k bias] assms(3) by (intro mult_left_mono) auto
  ultimately show ?thesis by simp
qed

lemma read_delta_digits:
  assumes "0 \<le> q" "0 \<le> i" "0 < w" "q * w \<le> MAX_DELTA" "i + q * w \<le> 0x7fffffff"
    "k = 36 * (int m + 1)" "w \<le> 35 ^ m" "bias \<le> 190"
    "take (length (delta_digits q k bias u)) (drop pos src) = delta_digits q k bias u"
    "pos + length (delta_digits q k bias u) \<le> srcLength" "srcLength \<le> length src"
  shows "read_delta src srcLength pos i w k bias = Some (Inr (pos + length (delta_digits q k bias u), i + q * w))"
  using assms
proof (induction q k bias u arbitrary: pos i w m rule: delta_digits.induct)
  case (1 q k bias u)
  define t where "t = threshold k bias"
  have t: "1 \<le> t" "t \<le> 26" using threshold_range t_def by auto
  define d where "d = (if q < t then q else t + (q - t) mod (36 - t))"
  define ds where "ds = (if q < t then [] else delta_digits ((q - t) div (36 - t)) (k + 36) bias u)"
  define q' where "q' = (q - t) div (36 - t)"
  have digits: "delta_digits q k bias u = digitToBasic d (q < t \<and> u) # ds"
    by (subst delta_digits.simps) (simp add: d_def ds_def t_def)
  define r where "r = (q - t) mod (36 - t)"
  have r: "0 \<le> r" "r < 36 - t" "t \<le> q \<Longrightarrow> r \<le> q - t"
    using t zmod_le_nonneg_dividend [of "q - t" "36 - t"] by (auto simp: r_def)
  have d: "0 \<le> d" "d < 36" and dq: "d \<le> q" and dt: "d < t \<longleftrightarrow> q < t"
    and qd: "\<not> q < t \<Longrightarrow> q = d + (36 - t) * q'"
    using r t 1(2) digit_split [of q t] by (auto simp: d_def q'_def r_def [symmetric])
  have pos: "pos < srcLength" "pos < length src" using 1(11,12) digits by auto
  have unit: "src ! pos = digitToBasic d (q < t \<and> u)" and rest: "take (length ds) (drop (pos + 1) src) = ds"
    using 1(10) digits pos(2) by (simp_all add: Cons_nth_drop_Suc [symmetric])
  have "d * w \<le> q * w" "0 \<le> q * w" using dq 1(2,4) by (auto intro: mult_right_mono)
  then have "d * w \<le> 0x7fffffff - i" "0 \<le> 0x7fffffff - i" using 1(6) by linarith+
  then have fits: "d \<le> (0x7fffffff - i) sdiv w" using le_div [OF 1(4)] 1(4) by (simp add: signed_div_pos)
  have step: "read_delta src srcLength pos i w k bias =
      (if q < t then Some (Inr (pos + 1, i + d * w))
       else if w > 0x7fffffff sdiv (36 - t) then Some (Inl U_ILLEGAL_CHAR_FOUND)
       else read_delta src srcLength (pos + 1) (i + d * w) (w * (36 - t)) (k + 36) bias)"
    using pos unit basicToDigit_digitToBasic(1) [OF d, of "q < t \<and> u"] d fits
    by (subst read_delta.simps) (simp add: dt t_def [symmetric] Let_def)
  show ?case
  proof (cases "q < t")
    case True
    then show ?thesis using step digits by (simp add: ds_def d_def)
  next
    case False
    note IH = 1(1) [folded t_def, folded q'_def]
    have q'w: "q * w = d * w + q' * (w * (36 - t))" by (subst qd [OF False]) (simp add: algebra_simps)
    have "w * (36 - t) \<le> 0x7fffffff"
      using weight_fits [OF 1(7,8,4,9), of q] False 1(5) by (simp add: t_def)
    then have "w \<le> 0x7fffffff sdiv (36 - t)" using t by (subst signed_div_pos) (auto intro: le_div)
    moreover have "read_delta src srcLength (pos + 1) (i + d * w) (w * (36 - t)) (k + 36) bias =
        Some (Inr (pos + 1 + length ds, i + d * w + q' * (w * (36 - t))))"
    proof -
      have "0 \<le> q'" using False t by (simp add: q'_def pos_imp_zdiv_nonneg_iff)
      moreover have "0 \<le> d * w" using d 1(4) by simp
      moreover have "w * (36 - t) \<le> 35 ^ m * 35" using 1(4,8) t by (intro mult_mono) auto
      moreover have "ds = delta_digits q' (k + 36) bias u" using False by (simp add: ds_def q'_def)
      moreover have "k + 36 = 36 * (int (Suc m) + 1)" using 1(7) by simp
      ultimately show ?thesis
        using IH [of "i + d * w" "w * (36 - t)" "Suc m" "pos + 1"] False 1(3-6) 1(9,11,12) t rest digits q'w
        by (simp del: of_nat_Suc)
    qed
    ultimately show ?thesis using step False digits q'w by simp
  qed
qed

section \<open>Bounds of the bias\<close>

lemma adapt_loop_bounds:
  "0 \<le> delta \<Longrightarrow> delta \<le> 455 * 35 ^ j \<Longrightarrow> 0 \<le> fst (adapt_loop delta count) \<and> snd (adapt_loop delta count) \<le> count + 36 * int j"
proof (induction j arbitrary: delta count)
  case 0
  then show ?case by (subst (1 2) adapt_loop.simps) simp
next
  case (Suc j)
  have "delta div 35 \<le> 455 * 35 ^ j" using Suc.prems(2) zdiv_mono1 [of delta "455 * 35 ^ j * 35" 35] by simp
  moreover have "0 \<le> delta div 35" using Suc.prems(1) by (simp add: pos_imp_zdiv_nonneg_iff)
  ultimately show ?case
    using Suc.IH [of "delta div 35" "count + 36"] Suc.prems by (subst (1 2) adapt_loop.simps) simp
qed

lemma bias_fraction: "0 \<le> d \<Longrightarrow> (36 * d) div (d + 38) \<le> 35" for d :: int
proof -
  assume d: "0 \<le> d"
  have "(36 * d) div (d + 38) * (d + 38) \<le> 36 * d" 
    using d div_mult_mod_eq [of "36 * d" "d + 38"] pos_mod_sign [of "d + 38" "36 * d"] by linarith
  also have "36 * d < 36 * (d + 38)" by simp
  finally show ?thesis using d mult_less_cancel_right_pos [of "d + 38" "(36 * d) div (d + 38)" 36] by simp
qed

lemma halves: "0 \<le> d \<Longrightarrow> 1 \<le> l \<Longrightarrow> 2 \<le> k \<Longrightarrow> 0 \<le> d div k + d div k div l \<and> d div k + d div k div l \<le> d" for d k l :: int
proof -
  assume d: "0 \<le> d" "1 \<le> l" "2 \<le> k"
  have "d div k \<le> d div 2" using d by (intro zdiv_mono2) auto
  moreover have "0 \<le> d div k" using d by (simp add: pos_imp_zdiv_nonneg_iff)
  moreover from this have "d div k div l \<le> d div k" "0 \<le> d div k div l"
    using d zdiv_mono2 [of "d div k" 1 l] by (simp_all add: pos_imp_zdiv_nonneg_iff)
  ultimately show ?thesis by simp
qed

lemma adaptBias_bound:
  assumes "0 \<le> delta" "delta \<le> MAX_DELTA" "1 \<le> len"
  shows "adaptBias delta len first \<le> 179"
proof -
  define k where "k = (if first then 700 else 2 :: int)"
  define e where "e = delta div k + delta div k div len"
  have "0 \<le> e" "e \<le> delta" using halves [OF assms(1,3), of k] by (auto simp: e_def k_def)
  then have "0 \<le> fst (adapt_loop e 0)" "snd (adapt_loop e 0) \<le> 36 * 4"
    using adapt_loop_bounds [of e 4 0] assms(2) by auto
  moreover have "adaptBias delta len first = snd (adapt_loop e 0) + (36 * fst (adapt_loop e 0)) div (fst (adapt_loop e 0) + 38)"
    by (simp add: adaptBias_def e_def k_def Let_def case_prod_unfold)
  ultimately show ?thesis using bias_fraction [of "fst (adapt_loop e 0)"] by linarith
qed

section \<open>Inserting a code point\<close>

abbreviation utf16 :: "int list \<Rightarrow> int list" where
  "utf16 cs \<equiv> concat (map u16_encode cs)"

text \<open>What \<open>firstSupplementaryIndex\<close> says about the code points written so far.\<close>

definition first_ok :: "nat \<Rightarrow> int list \<Rightarrow> bool" where
  "first_ok F cs = ((\<forall>c \<in> set cs. c \<le> 0xffff) \<and> 1000000000 \<le> F \<or>
     (\<exists>A b B. cs = A @ b # B \<and> length A = F \<and> (\<forall>c \<in> set A. c \<le> 0xffff) \<and> b > 0xffff))"

definition dec_text :: "nat \<Rightarrow> dec_state \<Rightarrow> int list \<Rightarrow> bool" where
  "dec_text capacity st cs =
     (d_len st = length (utf16 cs) \<and> take (d_len st) (d_dest st) = utf16 cs \<and> capacity \<le> length (d_dest st) \<and>
      d_len st \<le> capacity \<and> d_cps st = length cs \<and> d_flags st = None \<and> first_ok (d_first st) cs)"

lemma insert_units_split:
  assumes "take len dest = xs @ ys" "len = length xs + length ys" "len + length units \<le> length dest"
  shows "insert_units dest len (length xs) units = xs @ units @ ys @ drop (len + length units) dest"
proof -
  have "take (length xs) dest = xs"
    using arg_cong [OF assms(1), of "take (length xs)"] assms(2) by (simp add: min_def)
  moreover have "take (length xs) (take (length xs + length units) dest) = take (length xs) dest" by simp
  ultimately show ?thesis
    using assms by (auto simp: insert_units_def Let_def min_def)
qed

lemma utf16_BMP: "\<forall>c \<in> set cs. c \<le> 0xffff \<Longrightarrow> utf16 cs = cs"
  by (induction cs) (auto simp: u16_encode_def)

lemma utf16_text: "list_all scalar_value cs \<Longrightarrow> u16_text (utf16 cs)"
  by (induction cs) (auto simp: u16_encode_def scalar_value_def U16_LEAD_arith U16_TRAIL_arith)

lemma length_u16_encode: "scalar_value c \<Longrightarrow> length (u16_encode c) = U16_LENGTH c"
  by (auto simp: u16_encode_def U16_LENGTH_arith scalar_value_def)

text \<open>The code unit index at which the decoder inserts.\<close>

definition insert_index :: "dec_state \<Rightarrow> nat" where
  "insert_index st = (if nat (d_i st) \<le> d_first st then nat (d_i st)
     else U16_FWD_N (d_dest st) (d_first st) (d_len st) (nat (d_i st) - d_first st))"

lemma insert_index_cps [simp]: "insert_index (st\<lparr>d_cps := n\<rparr>) = insert_index st"
  by (simp add: insert_index_def)

lemma first_ok_prefix: "first_ok F cs \<Longrightarrow> length cs < 1000000000 \<Longrightarrow> \<forall>c \<in> set (take F cs). c \<le> 0xffff"
  by (auto simp: first_ok_def)

lemma insert_index_units:
  assumes "dec_text capacity st cs" "list_all scalar_value cs" "length cs < 1000000000" "nat (d_i st) \<le> length cs"
  shows "insert_index st = length (utf16 (take (nat (d_i st)) cs))"
proof (cases "nat (d_i st) \<le> d_first st")
  case True
  have "utf16 (take (nat (d_i st)) cs) = take (nat (d_i st)) cs"
    using first_ok_prefix [of "d_first st" cs] assms set_take_subset_set_take [OF True, of cs]
    by (intro utf16_BMP) (auto simp: dec_text_def)
  then show ?thesis using True assms(4) by (simp add: insert_index_def)
next
  case False
  let ?p = "nat (d_i st)" and ?F = "d_first st" and ?s = "d_dest st" and ?len = "d_len st"
  define k where "k = U16_FWD_N ?s ?F ?len (?p - ?F)"
  have pre: "utf16 (take ?F cs) = take ?F cs" using first_ok_prefix [of ?F cs] assms by (intro utf16_BMP) (auto simp: dec_text_def)
  have split: "utf16 cs = take ?F cs @ utf16 (drop ?F cs)"
    using pre by (metis append_take_drop_id concat_append map_append)
  have F: "?F < length cs" using False assms(4) by simp
  have cont: "take ?len ?s = utf16 cs" "?len = length (utf16 cs)" "?len \<le> length ?s"
    using assms(1) by (auto simp: dec_text_def)
  have tail: "slice ?s ?F ?len = utf16 (drop ?F cs)"
    using F split by (simp add: cont(1))
  have Flen: "?F \<le> ?len" using F split by (simp add: cont(2))
  have sc: "list_all scalar_value (drop ?F cs)" "list_all scalar_value (drop ?p cs)"
    using assms(2) by (auto simp: list_all_iff dest: in_set_dropD)
  have cp: "code_points (slice ?s k ?len) = drop ?p cs"
    using U16_FWD_N_spec(1) [OF Flen cont(3), of "?p - ?F"] False code_points_encode [OF sc(1)]
    by (simp add: tail k_def)
  have "u16_text (slice ?s k ?len)" using utf16_text [OF assms(2)] by (simp add: cont(1) u16_text_drop)
  then have "slice ?s k ?len = utf16 (drop ?p cs)" using encode_code_points cp by metis
  then have "?len - k = length (utf16 (drop ?p cs))" using cont(3) by (metis length_drop length_take min.absorb2)
  moreover have "length (utf16 cs) = length (utf16 (take ?p cs)) + length (utf16 (drop ?p cs))"
    by (metis append_take_drop_id concat_append length_append map_append)
  moreover have "k \<le> ?len" using U16_FWD_N_spec(3) [OF Flen cont(3)] by (simp add: k_def)
  ultimately have "k = length (utf16 (take ?p cs))" using cont(2) by linarith
  then show ?thesis using False by (simp add: insert_index_def k_def)
qed

definition first_after :: "dec_state \<Rightarrow> nat" where
  "first_after st = (if nat (d_i st) \<le> d_first st then if d_n st > 0xffff then nat (d_i st) else d_first st + 1 else d_first st)"

lemma insert_cp_fields:
  assumes "scalar_value (d_n st)"
  shows "d_dest (insert_cp b st) = insert_units (d_dest st) (d_len st) (insert_index st) (u16_encode (d_n st))"
    and "d_first (insert_cp b st) = first_after st"
    and "d_len (insert_cp b st) = d_len st" and "d_cps (insert_cp b st) = d_cps st" and "d_i (insert_cp b st) = d_i st"
    and "d_flags st = None \<Longrightarrow> d_flags (insert_cp b st) = None" and "d_n (insert_cp b st) = d_n st" and "d_bias (insert_cp b st) = d_bias st"
  using assms by (auto simp: insert_cp_def insert_index_def first_after_def u16_encode_def U16_LENGTH_arith scalar_value_def
      and_ffff Let_def)

lemma first_ok_insert:
  assumes "first_ok (d_first st) cs" "nat (d_i st) \<le> length cs" "length cs < 1000000000"
  shows "first_ok (first_after st) (take (nat (d_i st)) cs @ d_n st # drop (nat (d_i st)) cs)"
proof -
  define p F n where "p = nat (d_i st)" and "F = d_first st" and "n = d_n st"
  have p: "p \<le> length cs" and bmp: "\<And>c. c \<in> set (take F cs) \<Longrightarrow> c \<le> 0xffff"
    using assms first_ok_prefix by (auto simp: p_def F_def)
  have "first_ok (if p \<le> F then if n > 0xffff then p else F + 1 else F) (take p cs @ n # drop p cs)"
  proof (cases "p \<le> F \<and> n > 0xffff")
    case True
    then have "\<forall>c \<in> set (take p cs). c \<le> 0xffff" using bmp set_take_subset_set_take [of p F cs] by auto
    then show ?thesis using True p unfolding first_ok_def
      by (intro disjI2 exI [of _ "take p cs"] exI [of _ n] exI [of _ "drop p cs"]) auto
  next
    case False
    consider (all) "\<forall>c \<in> set cs. c \<le> 0xffff" "1000000000 \<le> F"
      | (some) A b B where "cs = A @ b # B" "length A = F" "\<forall>c \<in> set A. c \<le> 0xffff" "b > 0xffff"
      using assms(1) by (auto simp: first_ok_def F_def)
    then show ?thesis
    proof cases
      case all
      then show ?thesis using False p assms(3) by (auto simp: first_ok_def dest: in_set_takeD in_set_dropD)
    next
      case some
      show ?thesis
      proof (cases "p \<le> F")
        case True
        then have "take p cs @ n # drop p cs = (take p A @ n # drop p A) @ b # B" using some by simp
        then show ?thesis using some True False unfolding first_ok_def
          by (intro disjI2 exI [of _ "take p A @ n # drop p A"] exI [of _ b] exI [of _ B])
            (auto dest: in_set_takeD in_set_dropD)
      next
        case Fp: False
        then have "take p cs @ n # drop p cs = A @ b # (take (p - F - 1) B @ n # drop (p - F - 1) B)"
          using some by (cases "p - F") auto
        then show ?thesis using some Fp unfolding first_ok_def
          by (intro disjI2 exI [of _ A] exI [of _ b] exI [of _ "take (p - F - 1) B @ n # drop (p - F - 1) B"]) auto
      qed
    qed
  qed
  then show ?thesis unfolding first_after_def p_def F_def n_def .
qed

lemma insert_cp_dest:
  assumes "dec_text capacity (st\<lparr>d_cps := length cs\<rparr>) cs" "list_all scalar_value cs" "length cs < 1000000000"
    "nat (d_i st) \<le> length cs" "scalar_value (d_n st)" "d_len st + U16_LENGTH (d_n st) \<le> capacity"
  shows "d_dest (insert_cp b st) = utf16 (take (nat (d_i st)) cs) @ u16_encode (d_n st) @ utf16 (drop (nat (d_i st)) cs) @
    drop (d_len st + U16_LENGTH (d_n st)) (d_dest st)"
proof -
  let ?p = "nat (d_i st)"
  have split: "utf16 cs = utf16 (take ?p cs) @ utf16 (drop ?p cs)"
    by (metis append_take_drop_id concat_append map_append)
  have idx: "insert_index st = length (utf16 (take ?p cs))"
    using insert_index_units [OF assms(1-3)] assms(4) by simp
  show ?thesis
    unfolding insert_cp_fields(1) [OF assms(5)] idx using assms(1,6) split
    by (subst insert_units_split) (auto simp: dec_text_def length_u16_encode [OF assms(5)])
qed

lemma insert_cp_text:
  assumes "dec_text capacity (st\<lparr>d_cps := length cs\<rparr>) cs" "list_all scalar_value cs" "length cs < 1000000000"
    "nat (d_i st) \<le> length cs" "scalar_value (d_n st)" "d_cps st = Suc (length cs)" "d_len st + U16_LENGTH (d_n st) \<le> capacity"
  shows "dec_text capacity ((insert_cp b st)\<lparr>d_len := d_len st + U16_LENGTH (d_n st), d_i := i\<rparr>)
    (take (nat (d_i st)) cs @ d_n st # drop (nat (d_i st)) cs)"
proof -
  have "utf16 cs = utf16 (take (nat (d_i st)) cs) @ utf16 (drop (nat (d_i st)) cs)"
    by (metis append_take_drop_id concat_append map_append)
  then show ?thesis
    using assms insert_cp_dest [OF assms(1-5,7), of b] first_ok_insert [of st cs]
    by (auto simp: dec_text_def insert_cp_fields [OF assms(5)] length_u16_encode)
qed

lemma insert_cp_frame:
  assumes "dec_text capacity (st\<lparr>d_cps := length cs\<rparr>) cs" "list_all scalar_value cs" "length cs < 1000000000"
    "nat (d_i st) \<le> length cs" "scalar_value (d_n st)" "d_len st + U16_LENGTH (d_n st) \<le> capacity"
  shows "length (d_dest (insert_cp b st)) = length (d_dest st)" "drop capacity (d_dest (insert_cp b st)) = drop capacity (d_dest st)"
proof -
  have "utf16 cs = utf16 (take (nat (d_i st)) cs) @ utf16 (drop (nat (d_i st)) cs)"
    by (metis append_take_drop_id concat_append map_append)
  then show "length (d_dest (insert_cp b st)) = length (d_dest st)" "drop capacity (d_dest (insert_cp b st)) = drop capacity (d_dest st)"
    using assms(1,6) unfolding insert_cp_dest [OF assms, of b]
    by (auto simp: dec_text_def length_u16_encode [OF assms(5)])
qed

section \<open>One step of the decoder\<close>

text \<open>The state after \<open>n\<close> has been inserted at \<open>p\<close>; \<open>b\<close> is the last unit of the number.\<close>

definition advanced :: "int \<Rightarrow> nat \<Rightarrow> int \<Rightarrow> dec_state \<Rightarrow> dec_state" where
  "advanced n p delta st = st\<lparr>d_n := n, d_i := int p,
     d_bias := adaptBias delta (int (d_cps st) + 1) (d_i st = 0), d_cps := d_cps st + 1\<rparr>"

definition inserted :: "int \<Rightarrow> int \<Rightarrow> nat \<Rightarrow> int \<Rightarrow> dec_state \<Rightarrow> dec_state" where
  "inserted b n p delta st =
     (insert_cp b (advanced n p delta st))\<lparr>d_len := d_len st + U16_LENGTH n, d_i := int p + 1\<rparr>"

lemma decode_step_insert:
  assumes st: "dec_text capacity st cs" "list_all scalar_value cs" "length cs < 200" "d_bias st \<le> 190" "0 \<le> d_i st" "0 \<le> d_n st"
    and delta: "0 \<le> delta" "d_i st + delta = (n - d_n st) * (int (length cs) + 1) + int p" "p \<le> length cs"
    and n: "scalar_value n" "d_n st \<le> n" "length (utf16 cs) + U16_LENGTH n \<le> capacity"
    and ds: "ds = delta_digits delta 36 (d_bias st) u" "take (length ds) (drop pos src) = ds"
      "pos + length ds \<le> srcLength" "srcLength \<le> length src"
  shows "decode_step src srcLength True capacity pos st = Some (Inr (pos + length ds, inserted (last ds) n p delta st))"
proof -
  define i where "i = d_i st + delta"
  define h where "h = int (length cs) + 1"
  have h: "0 < h" "int p < h" "h \<le> 200" using delta(3) st(3) by (auto simp: h_def)
  have idiv: "i div h = n - d_n st" "i mod h = int p" using delta(2) h by (auto simp: i_def h_def [symmetric])
  have nb: "n - d_n st \<le> 0x10ffff" "0 \<le> n - d_n st" using n st(6) by (auto simp: scalar_value_def)
  have "i \<le> 0x10ffff * 200 + 200"
    using mult_mono [OF nb(1) h(3)] nb h delta(2) by (simp add: i_def h_def [symmetric])
  then have i: "0 \<le> i" "i \<le> MAX_DELTA" using st(5) delta(1) by (auto simp: i_def)
  have read: "read_delta src srcLength pos (d_i st) 1 36 (d_bias st) = Some (Inr (pos + length ds, i))"
    using read_delta_digits [of delta "d_i st" 1 36 0 "d_bias st" u pos src srcLength] delta(1) st(4,5) i ds by (simp add: i_def)
  have cps: "int (d_cps st + 1) = h" using st(1) by (simp add: dec_text_def h_def)
  have idiv': "i sdiv h = n - d_n st" "i smod h = int p" "i - d_i st = delta" "d_n st + (n - d_n st) = n"
    using i h by (auto simp: signed_div_pos smod_pos idiv) (simp add: i_def)
  have sc: "scalar_value (d_n (advanced n p delta st))" using n by (simp add: advanced_def)
  have len: "d_len st = length (utf16 cs)" "d_cps st = length cs" using st(1) by (auto simp: dec_text_def)
  have ns: "\<not> U_IS_SURROGATE n" "n \<le> 0x10ffff" using n(1) surrogate_range by (auto simp: scalar_value_def)
  have "ds \<noteq> []" using ds(1) delta_digits_not_Nil by simp
  then have "take (length ds) (drop pos src) ! (length ds - 1) = src ! (pos + length ds - 1)" using ds(3,4) by (cases ds) auto
  then have "src ! (pos + length ds - 1) = last ds" using \<open>ds \<noteq> []\<close> by (simp add: ds(2) last_conv_nth)
  then show ?thesis
    by (simp only: decode_step_def read option.case sum.case prod.case Let_def idiv' cps)
      (use n nb ns len in \<open>simp add: inserted_def advanced_def insert_cp_fields h_def\<close>)
qed

lemma inserted_text:
  assumes "dec_text capacity st cs" "list_all scalar_value cs" "length cs < 200" "p \<le> length cs"
    "scalar_value n" "length (utf16 cs) + U16_LENGTH n \<le> capacity"
  shows "dec_text capacity (inserted b n p delta st) (take p cs @ n # drop p cs)"
    "d_n (inserted b n p delta st) = n" "d_i (inserted b n p delta st) = int p + 1"
    "d_bias (inserted b n p delta st) = adaptBias delta (int (length cs) + 1) (d_i st = 0)"
proof -
  let ?st = "advanced n p delta st"
  have len: "d_len st = length (utf16 cs)" "d_cps st = length cs" using assms(1) by (auto simp: dec_text_def)
  have "?st\<lparr>d_cps := length cs\<rparr> = st\<lparr>d_n := n, d_i := int p, d_bias := adaptBias delta (int (length cs) + 1) (d_i st = 0)\<rparr>"
    using len by (simp add: advanced_def)
  then have "dec_text capacity (?st\<lparr>d_cps := length cs\<rparr>) cs" using assms(1) by (auto simp: dec_text_def)
  then show "dec_text capacity (inserted b n p delta st) (take p cs @ n # drop p cs)"
    using insert_cp_text [of capacity cs ?st] assms len by (simp add: inserted_def advanced_def)
qed (use assms in \<open>auto simp: inserted_def advanced_def insert_cp_fields dec_text_def\<close>)

section \<open>Encoder and decoder in step\<close>

text \<open>
  The decoder, started in \<open>st0\<close> at \<open>pos0\<close> of any text that begins with \<open>out\<close>, arrives in \<open>st\<close> when it has
  consumed \<open>out\<close>.
\<close>

definition reaches :: "nat \<Rightarrow> nat \<Rightarrow> dec_state \<Rightarrow> int list \<Rightarrow> dec_state \<Rightarrow> bool" where
  "reaches capacity pos0 st0 out st =
     (\<forall>src srcLength. take (length out) src = out \<longrightarrow> length out \<le> srcLength \<longrightarrow> srcLength \<le> length src \<longrightarrow>
        decode_loop src srcLength True capacity pos0 st0 = decode_loop src srcLength True capacity (length out) st)"

lemma reaches_step:
  assumes "reaches capacity pos0 st0 out st" "ds \<noteq> []"
    "\<And>src srcLength. take (length (out @ ds)) src = out @ ds \<Longrightarrow> length (out @ ds) \<le> srcLength \<Longrightarrow> srcLength \<le> length src \<Longrightarrow>
       decode_step src srcLength True capacity (length out) st = Some (Inr (length (out @ ds), st'))"
  shows "reaches capacity pos0 st0 (out @ ds) st'"
  unfolding reaches_def
proof (intro allI impI)
  fix src :: "int list" and srcLength :: nat
  assume src: "take (length (out @ ds)) src = out @ ds" "length (out @ ds) \<le> srcLength" "srcLength \<le> length src"
  have "take (length out) src = out" using arg_cong [OF src(1), of "take (length out)"] by (simp add: min_def)
  then have "decode_loop src srcLength True capacity pos0 st0 = decode_loop src srcLength True capacity (length out) st"
    using assms(1) src by (simp add: reaches_def)
  also have "\<dots> = decode_loop src srcLength True capacity (length (out @ ds)) st'"
    using src assms(2) assms(3) [OF src] by (subst decode_loop.simps) (auto simp: neq_Nil_conv)
  finally show "decode_loop src srcLength True capacity pos0 st0 =
      decode_loop src srcLength True capacity (length (out @ ds)) st'" .
qed

text \<open>The entry of \<open>cpBuffer\<close> for a code point without case flag.\<close>

definition buffered :: "int \<Rightarrow> int" where
  "buffered c = (if c < 0x80 then 0 else c)"

record sync_setup =
  s_capacity :: nat
  s_dest :: "int list"
  s_out0 :: "int list"
  s_basic :: nat
  s_dec_capacity :: nat
  s_dec :: dec_state

text \<open>
  The encoder looks for \<open>n\<close> and has passed the code points \<open>pre\<close>, the code points \<open>rest\<close> are ahead; the decoder
  has the code points that are handled, and its \<open>i\<close> and \<open>n\<close> are \<open>delta\<close> behind.
\<close>

definition sync_at :: "sync_setup \<Rightarrow> int \<Rightarrow> int list \<Rightarrow> nat \<Rightarrow> enc_state \<Rightarrow> int list \<Rightarrow> dec_state \<Rightarrow> bool" where
  "sync_at su n cs p st xs D =
    (e_dest st = stored (s_capacity su) (s_dest su) (s_out0 su @ xs) \<and> e_len st = length (s_out0 su @ xs) \<and>
     (\<forall>x \<in> set xs. 0 \<le> x \<and> x < 0x80 \<and> x \<noteq> 0x2d) \<and>
     reaches (s_dec_capacity su) (length (s_out0 su)) (s_dec su) (s_out0 su @ xs) D \<and>
     dec_text (s_dec_capacity su) D cs \<and>
     e_handled st = length cs \<and> s_basic su \<le> length cs \<and> (d_i D = 0 \<longleftrightarrow> length cs = s_basic su) \<and>
     e_bias st = d_bias D \<and> e_bias st \<le> 190 \<and> 0 \<le> e_delta st \<and> 0 \<le> d_i D \<and> 0 \<le> d_n D \<and> d_n D \<le> n \<and>
     d_i D + e_delta st = (n - d_n D) * (int (length cs) + 1) + int p)"

definition sync :: "sync_setup \<Rightarrow> int \<Rightarrow> int list \<Rightarrow> int list \<Rightarrow> enc_state \<Rightarrow> bool" where
  "sync su n pre rest st =
     (\<exists>xs D. sync_at su n (filter (\<lambda>c. c \<le> n) pre @ filter (\<lambda>c. c < n) rest) (length (filter (\<lambda>c. c \<le> n) pre)) st xs D)"

definition sync_input :: "sync_setup \<Rightarrow> int list \<Rightarrow> bool" where
  "sync_input su cs = (list_all scalar_value cs \<and> length cs \<le> 200 \<and> length (utf16 cs) \<le> s_dec_capacity su \<and>
     s_capacity su \<le> length (s_dest su))"

lemma length_utf16_filter: "length (utf16 (filter P cs)) \<le> length (utf16 cs)"
  by (induction cs) auto

lemma sync_skip: "sync su n pre (c # rest) st \<Longrightarrow> n < c \<Longrightarrow> sync su n (pre @ [c]) rest st"
  by (simp add: sync_def)

lemma sync_at_more:
  "sync_at su n cs p st xs D \<Longrightarrow> n \<le> m \<Longrightarrow> 0 \<le> d \<Longrightarrow> d + int p = (m - n) * (int (length cs) + 1) + int q \<Longrightarrow>
   sync_at su m cs q (st\<lparr>e_delta := e_delta st + d\<rparr>) xs D"
  by (simp add: sync_at_def algebra_simps)

lemma sync_smaller: "sync su n pre (c # rest) st \<Longrightarrow> c < n \<Longrightarrow> sync su n (pre @ [c]) rest (st\<lparr>e_delta := e_delta st + 1\<rparr>)"
proof -
  assume c: "sync su n pre (c # rest) st" "c < n"
  then obtain xs D where "sync_at su n (filter (\<lambda>c. c \<le> n) pre @ filter (\<lambda>c. c < n) (c # rest)) (length (filter (\<lambda>c. c \<le> n) pre)) st xs D"
    by (auto simp: sync_def)
  from sync_at_more [OF this, of n 1 "length (filter (\<lambda>c. c \<le> n) (pre @ [c]))"] c(2)
  show ?thesis by (auto simp: sync_def)
qed

text \<open>At the end of a pass the decoder's position wraps around to the next code point.\<close>

lemma sync_wrap:
  assumes "sync su n cs [] st"
  shows "sync su (n + 1) [] cs (st\<lparr>e_delta := e_delta st + 1\<rparr>)"
proof -
  have "filter (\<lambda>c. c < n + 1) cs = filter (\<lambda>c. c \<le> n) cs" by (intro filter_cong) auto
  moreover obtain xs D where "sync_at su n (filter (\<lambda>c. c \<le> n) cs) (length (filter (\<lambda>c. c \<le> n) cs)) st xs D"
    using assms by (auto simp: sync_def)
  from sync_at_more [OF this, of "n + 1" 1 0] have "sync_at su (n + 1) (filter (\<lambda>c. c \<le> n) cs) 0 (st\<lparr>e_delta := e_delta st + 1\<rparr>) xs D"
    by simp
  ultimately show ?thesis by (auto simp: sync_def)
qed

lemma sync_jump:
  assumes "sync su n [] cs st" "n \<le> m" "\<forall>c \<in> set cs. n \<le> c \<longrightarrow> m \<le> c"
  shows "sync su m [] cs (st\<lparr>e_delta := e_delta st + (m - n) * (int (e_handled st) + 1)\<rparr>)"
proof -
  have "filter (\<lambda>c. c < m) cs = filter (\<lambda>c. c < n) cs" using assms by (intro filter_cong) force+
  moreover obtain xs D where S: "sync_at su n (filter (\<lambda>c. c < n) cs) 0 st xs D" using assms(1) by (auto simp: sync_def)
  then have "e_handled st = length (filter (\<lambda>c. c < n) cs)" by (simp add: sync_at_def)
  then have "sync_at su m (filter (\<lambda>c. c < n) cs) 0 (st\<lparr>e_delta := e_delta st + (m - n) * (int (e_handled st) + 1)\<rparr>) xs D"
    
    using sync_at_more [OF S assms(2), of "(m - n) * (int (e_handled st) + 1)" 0] assms(2) by simp
  ultimately show ?thesis by (auto simp: sync_def)
qed

lemma sync_at_emit:
  assumes "sync_at su n cs p st xs D" "p \<le> length cs" "scalar_value n" "list_all scalar_value cs" "length cs < 200"
    "length (utf16 cs) + U16_LENGTH n \<le> s_dec_capacity su" "s_capacity su \<le> length (s_dest su)"
    "write_delta (e_delta st) 36 (e_bias st) u (e_dest st) (s_capacity su) (e_len st) = (dest, len)"
    "bias = adaptBias (e_delta st) (int (e_handled st) + 1) (e_handled st = s_basic su)"
  shows "\<exists>xs D. sync_at su n (take p cs @ n # drop p cs) (p + 1)
    \<lparr>e_delta = 0, e_bias = bias, e_handled = e_handled st + 1, e_dest = dest, e_len = len\<rparr> xs D"
proof -
  define ds where "ds = delta_digits (e_delta st) 36 (d_bias D) u"
  note S = assms(1) [unfolded sync_at_def]
  have h: "e_handled st = length cs" "(d_i D = 0) = (e_handled st = s_basic su)" using S by auto
  have w: "dest = stored (s_capacity su) (s_dest su) (s_out0 su @ xs @ ds)" "len = length (s_out0 su @ xs @ ds)"
    using write_delta_stored [OF assms(7), of "e_delta st" 36 "e_bias st" u "s_out0 su @ xs"] assms(8) S by (auto simp: ds_def)
  define D' where "D' = inserted (last ds) n p (e_delta st) D"
  have D': "dec_text (s_dec_capacity su) D' (take p cs @ n # drop p cs)" "d_n D' = n" "d_i D' = int p + 1" "d_bias D' = bias"
    using inserted_text [of "s_dec_capacity su" D cs p n] assms(2-6,9) S h by (auto simp: D'_def)
  have "reaches (s_dec_capacity su) (length (s_out0 su)) (s_dec su) ((s_out0 su @ xs) @ ds) D'"
  proof (rule reaches_step [of _ _ _ _ D])
    fix src :: "int list" and srcLength :: nat
    assume src: "take (length ((s_out0 su @ xs) @ ds)) src = (s_out0 su @ xs) @ ds"
      "length ((s_out0 su @ xs) @ ds) \<le> srcLength" "srcLength \<le> length src"
    have "take (length ds) (drop (length (s_out0 su @ xs)) src) = ds"
      using arg_cong [OF src(1), of "drop (length (s_out0 su @ xs))"] by (simp add: drop_take)
    then show "decode_step src srcLength True (s_dec_capacity su) (length (s_out0 su @ xs)) D = Some (Inr (length ((s_out0 su @ xs) @ ds), D'))"
      using decode_step_insert [of "s_dec_capacity su" D cs "e_delta st" n p ds u "length (s_out0 su @ xs)" src srcLength]
        assms(2-6) S src by (simp add: D'_def ds_def)
  qed (use S in \<open>auto simp: ds_def delta_digits_not_Nil\<close>)
  moreover have "e_delta st \<le> MAX_DELTA"
  proof -
    have "(n - d_n D) * (int (length cs) + 1) \<le> 0x10ffff * 200" using S assms(3,5) by (intro mult_mono) (auto simp: scalar_value_def)
    then show ?thesis using S assms(2,5) by auto
  qed
  then have "adaptBias (e_delta st) (int (e_handled st) + 1) (e_handled st = s_basic su) \<le> 179"
    using S by (intro adaptBias_bound) simp_all
  then have "bias \<le> 190" using assms(9) by simp
  moreover have "\<forall>x \<in> set ds. 0 \<le> x \<and> x < 0x80 \<and> x \<noteq> 0x2d" 
    using delta_digits_basic [of "e_delta st" _ 36 "d_bias D" u] S unfolding ds_def by blast
  ultimately have "sync_at su n (take p cs @ n # drop p cs) (p + 1)
    \<lparr>e_delta = 0, e_bias = bias, e_handled = e_handled st + 1, e_dest = dest, e_len = len\<rparr> (xs @ ds) D'"
    using S D' h w assms(2,3) by (auto simp: sync_at_def scalar_value_def)
  then show ?thesis by blast
qed

section \<open>The encoding loops\<close>

lemma buffered_mask: "scalar_value c \<Longrightarrow> buffered c AND 0x7fffffff = buffered c"
  using and_low_mask [of "buffered c" 31] by (auto simp: buffered_def scalar_value_def mask_eq_exp_minus_1)

lemma buffered_cmp: "0x80 \<le> n \<Longrightarrow> (buffered c < n \<longleftrightarrow> c < n) \<and> (buffered c = n \<longleftrightarrow> c = n) \<and> (n \<le> buffered c \<longleftrightarrow> n \<le> c)"
  by (auto simp: buffered_def)

lemma sync_emit:
  assumes "sync su n pre (n # rest) st" "sync_input su (pre @ n # rest)"
    "write_delta (e_delta st) 36 (e_bias st) u (e_dest st) (s_capacity su) (e_len st) = (dest, len)"
  shows "sync su n (pre @ [n]) rest \<lparr>e_delta = 0,
    e_bias = adaptBias (e_delta st) (int (e_handled st) + 1) (e_handled st = s_basic su),
    e_handled = e_handled st + 1, e_dest = dest, e_len = len\<rparr>"
proof -
  let ?A = "filter (\<lambda>c. c \<le> n) pre" and ?B = "filter (\<lambda>c. c < n) rest"
  obtain xs D where S: "sync_at su n (?A @ ?B) (length ?A) st xs D" using assms(1) by (auto simp: sync_def)
  have "list_all scalar_value (?A @ ?B)" using assms(2) by (auto simp: sync_input_def list_all_iff)
  moreover have "scalar_value n" using assms(2) by (simp add: sync_input_def)
  moreover from this have "length (utf16 (?A @ ?B)) + U16_LENGTH n \<le> s_dec_capacity su"
    using assms(2) length_utf16_filter [of "\<lambda>c. c \<le> n" pre] length_utf16_filter [of "\<lambda>c. c < n" rest]
    by (simp add: sync_input_def length_u16_encode del: length_concat)
  moreover have "length (?A @ ?B) < 200"
    using assms(2) length_filter_le [of "\<lambda>c. c \<le> n" pre] length_filter_le [of "\<lambda>c. c < n" rest]
    unfolding sync_input_def length_append list.size by linarith
  ultimately show ?thesis
    using sync_at_emit [OF S, of u dest len] assms(2,3) by (auto simp: sync_def sync_input_def)
qed

lemma encode_pass_sync:
  "sync su n pre rest st \<Longrightarrow> sync_input su (pre @ rest) \<Longrightarrow> 0x80 \<le> n \<Longrightarrow>
   sync su n (pre @ rest) [] (encode_pass (map buffered rest) n (s_basic su) (s_capacity su) st)"
proof (induction rest arbitrary: pre st)
  case (Cons c rest)
  have c: "buffered c AND 0x7fffffff = buffered c" "\<not> buffered c < 0"
    using Cons.prems(2) buffered_mask [of c] by (simp_all add: sync_input_def) (simp add: buffered_def)
  consider "c < n" | "c = n" | "n < c" by linarith
  then show ?case
  proof cases
    case 1
    then show ?thesis using Cons.IH [OF sync_smaller [OF Cons.prems(1) 1]] Cons.prems(2,3) c buffered_cmp [of n c] by simp
  next
    case 2
    obtain dest len where w: "write_delta (e_delta st) 36 (e_bias st) False (e_dest st) (s_capacity su) (e_len st) = (dest, len)" by fastforce
    have "buffered n = n" using Cons.prems(3) by (simp add: buffered_def)
    then show ?thesis using Cons.IH [OF sync_emit [OF _ _ w]] 2 Cons.prems c w by simp
  next
    case 3
    then show ?thesis using Cons.IH [OF sync_skip [OF Cons.prems(1) 3]] Cons.prems(2,3) c buffered_cmp [of n c] by simp
  qed
qed simp

text \<open>The search for the next code point finds the smallest one that is not yet handled.\<close>

lemma next_n_fold:
  fixes f :: "int \<Rightarrow> int \<Rightarrow> int"
  assumes f: "\<And>m e. f m e = (let q = e AND 0x7fffffff in if n \<le> q \<and> q < m then q else m)"
    and "list_all scalar_value cs" "0x80 \<le> n"
  shows "(foldl f m (map buffered cs) = m \<or> foldl f m (map buffered cs) \<in> set cs \<and> n \<le> foldl f m (map buffered cs)) \<and>
      foldl f m (map buffered cs) \<le> m \<and> (\<forall>c \<in> set cs. n \<le> c \<longrightarrow> foldl f m (map buffered cs) \<le> c)"
  using assms(2)
proof (induction cs arbitrary: m)
  case (Cons c cs)
  have c: "buffered c AND 0x7fffffff = buffered c" "n \<le> buffered c \<longleftrightarrow> n \<le> c" "n \<le> c \<Longrightarrow> buffered c = c"
    using Cons.prems assms(3) buffered_mask [of c] by simp_all (auto simp: buffered_def)
  show ?case
  proof (cases "n \<le> c \<and> c < m")
    case True
    then show ?thesis using Cons.IH [of c] Cons.prems c by (auto simp: f Let_def)
  next
    case False
    then have "foldl f m (map buffered (c # cs)) = foldl f m (map buffered cs)" using c by (auto simp: f Let_def)
    then show ?thesis using Cons.IH [of m] Cons.prems False by fastforce
  qed
qed simp

lemma next_n_least:
  assumes "list_all scalar_value cs" "0x80 \<le> n" "c \<in> set cs" "n \<le> c"
  shows "next_n (map buffered cs) n \<in> set cs" "n \<le> next_n (map buffered cs) n"
    "\<forall>c \<in> set cs. n \<le> c \<longrightarrow> next_n (map buffered cs) n \<le> c"
proof -
  have "c \<le> 0x10ffff" using assms(1,3) by (auto simp: list_all_iff scalar_value_def)
  then show "next_n (map buffered cs) n \<in> set cs" "n \<le> next_n (map buffered cs) n"
    "\<forall>c \<in> set cs. n \<le> c \<longrightarrow> next_n (map buffered cs) n \<le> c"
    using next_n_fold [OF refl assms(1,2), of "0x7fffffff"] assms(3,4) unfolding next_n_def by fastforce+
qed

lemma encode_loop_sync:
  assumes "sync su n [] cs st" "sync_input su cs" "0x80 \<le> n"
  shows "\<exists>st' n' xs D. encode_loop (map buffered cs) (s_basic su) (s_capacity su) n st = Some (Inr st') \<and> sync_at su n' cs 0 st' xs D"
  using assms
proof (induction "map buffered cs" "s_basic su" "s_capacity su" n st rule: encode_loop.induct)
  case (1 n st)
  let ?h = "filter (\<lambda>c. c < n) cs"
  obtain xs D where S: "sync_at su n ?h 0 st xs D" using 1(2) by (auto simp: sync_def)
  then have h: "e_handled st = length ?h" by (simp add: sync_at_def)
  show ?case
  proof (cases "e_handled st < length cs")
    case False
    then have "?h = cs" using h length_filter_less [of _ cs "\<lambda>c. c < n"] by (metis filter_True)
    then show ?thesis using S False by (subst encode_loop.simps) auto
  next
    case True
    then obtain c where c: "c \<in> set cs" "n \<le> c" using h by (metis filter_True less_irrefl not_less)
    have sc: "list_all scalar_value cs" "length cs \<le> 200" using 1(3) by (auto simp: sync_input_def)
    define m where "m = next_n (map buffered cs) n"
    note m = next_n_least [OF sc(1) 1(4) c, folded m_def]
    have m10: "m \<le> 0x10ffff" using m(1) sc(1) by (auto simp: list_all_iff scalar_value_def)
    define st1 where "st1 = st\<lparr>e_delta := e_delta st + (m - n) * (int (e_handled st) + 1)\<rparr>"
    define st2 where "st2 = encode_pass (map buffered cs) m (s_basic su) (s_capacity su) st1"
    have "sync su m [] cs st1" unfolding st1_def by (rule sync_jump [OF 1(2) m(2,3)])
    then have "sync su m cs [] st2" using encode_pass_sync [of su m "[]" cs st1] 1(3,4) m(2) by (simp add: st2_def)
    then have nxt: "sync su (m + 1) [] cs (st2\<lparr>e_delta := e_delta st2 + 1\<rparr>)" by (rule sync_wrap)
    have "(m - d_n D) * (int (e_handled st) + 1) \<le> 0x10ffff * 200"
      using S True m(2) m10 sc(2) by (intro mult_mono) (auto simp: sync_at_def)
    moreover have "d_i D + e_delta st = (n - d_n D) * (int (e_handled st) + 1)" "0 \<le> d_i D" "0 \<le> e_delta st"
      using S h by (auto simp: sync_at_def)
    moreover have "(n - d_n D) * (int (e_handled st) + 1) \<le> (m - d_n D) * (int (e_handled st) + 1)"
      using m(2) by (intro mult_right_mono) auto
    moreover have "(m - n) * (int (e_handled st) + 1) =
        (m - d_n D) * (int (e_handled st) + 1) - (n - d_n D) * (int (e_handled st) + 1)" by (simp add: algebra_simps)
    ultimately have fits: "(m - n) * (int (e_handled st) + 1) \<le> 0x7fffffff - 200 - e_delta st" "0 \<le> 0x7fffffff - 200 - e_delta st"
      by linarith+
    then have "m - n \<le> (0x7fffffff - int 200 - e_delta st) sdiv (int (e_handled st) + 1)"
      using le_div [of "int (e_handled st) + 1"] by (simp add: signed_div_pos)
    then have guard: "\<not> m - n > (0x7fffffff - int 200 - e_delta st) sdiv (int (e_handled st) + 1)" by simp
    have "encode_loop (map buffered cs) (s_basic su) (s_capacity su) n st =
        encode_loop (map buffered cs) (s_basic su) (s_capacity su) (m + 1) (st2\<lparr>e_delta := e_delta st2 + 1\<rparr>)"
      using True guard m10
      by (subst encode_loop.simps) (simp only: Let_def m_def [symmetric] length_map if_True if_False st1_def [symmetric] st2_def [symmetric], simp)
    then show ?thesis using 1(1) [OF _ m_def guard _ st1_def st2_def nxt] 1(3,4) True m(2) m10 by simp
  qed
qed

end
