(* ===== verification/PunycodeProps.thy ===== *)
theory PunycodeProps
  imports PunycodeSync
begin

text \<open>
  The theorems about Punycode: decoding inverts encoding, the encoder rejects unpaired surrogates and texts of more than
  200 code points, preflighting gives the length, and whatever the decoder is given, it returns, stays inside the
  capacity and leaves well-formed UTF-16 when it succeeds.
\<close>

section \<open>Reading the input\<close>

text \<open>The source text, with its length or NUL-terminated.\<close>

definition input_text :: "UChar list \<Rightarrow> int \<Rightarrow> int list \<Rightarrow> bool" where
  "input_text src srcLength cs =
     (\<exists>rest. src = utf16 cs @ rest \<and> (srcLength = int (length (utf16 cs)) \<or> srcLength = - 1 \<and> 0 \<notin> set cs \<and> (\<exists>r. rest = 0 # r)))"

abbreviation basic :: "int list \<Rightarrow> int list" where
  "basic cs \<equiv> filter (\<lambda>c. c < 0x80) cs"

lemma u16_encode_hd: "scalar_value c \<Longrightarrow> c \<noteq> 0 \<Longrightarrow> hd (u16_encode c) \<noteq> 0"
  by (auto simp: u16_encode_def scalar_value_def U16_LEAD_arith)

lemma read_input_cps:
  assumes "input_text src srcLength (pre @ cs)" "list_all scalar_value (pre @ cs)" "length (pre @ cs) \<le> 200" "capacity \<le> length dest"
  shows "read_input src srcLength None capacity (length (utf16 pre)) (map buffered pre) (stored capacity dest (basic pre)) (length (basic pre)) =
    Some (Inr (map buffered (pre @ cs), stored capacity dest (basic (pre @ cs)), length (basic (pre @ cs))))"
  using assms
proof (induction cs arbitrary: pre)
  case Nil
  then have "more_input src srcLength (length (utf16 pre)) = Some False"
    by (auto simp: input_text_def more_input_def unit_at_def)
  then show ?case by (subst read_input.simps) simp
next
  case (Cons c cs)
  obtain rest where src: "src = utf16 pre @ u16_encode c @ utf16 cs @ rest"
    and len: "srcLength = int (length (utf16 (pre @ c # cs))) \<or> srcLength = - 1 \<and> 0 \<notin> set (pre @ c # cs)"
    using Cons.prems(1) by (auto simp: input_text_def)
  have c: "scalar_value c" using Cons.prems(2) by simp
  then have c10: "0 \<le> c" "c \<le> 0x10ffff" by (auto simp: scalar_value_def)
  have ne: "u16_encode c \<noteq> []" "0 < int (length (u16_encode c)) + int (length (utf16 cs))" by (simp_all add: u16_encode_def)
  have unit: "src ! length (utf16 pre) = hd (u16_encode c)" "length (utf16 pre) < length src"
    using ne by (auto simp: src nth_append hd_conv_nth)
  have more: "more_input src srcLength (length (utf16 pre)) = Some True"
    using len u16_encode_hd [OF c] unit ne by (auto simp: more_input_def unit_at_def)
  have IH: "read_input src srcLength None capacity (length (utf16 (pre @ [c]))) (map buffered (pre @ [c]))
      (stored capacity dest (basic (pre @ [c]))) (length (basic (pre @ [c]))) =
    Some (Inr (map buffered (pre @ c # cs), stored capacity dest (basic (pre @ c # cs)), length (basic (pre @ c # cs))))"
    using Cons.IH [of "pre @ [c]"] Cons.prems by simp
  have notfull: "length (map buffered pre) \<noteq> 200" using Cons.prems(3) by simp
  consider "c < 0x80" | "0x80 \<le> c" "c \<le> 0xffff" | "0xffff < c" by linarith
  then show ?case
  proof cases
    case 1
    then have "u16_encode c = [c]" by (simp add: u16_encode_def)
    then show ?thesis using 1 IH unit more notfull Cons.prems(4)
      by (subst read_input.simps) (simp add: IS_BASIC_def put_stored buffered_def)
  next
    case 2
    then have "u16_encode c = [c]" "\<not> U_IS_SURROGATE c" using c surrogate_range by (auto simp: u16_encode_def scalar_value_def)
    then show ?thesis using 2 IH unit more notfull
      by (subst read_input.simps) (simp add: IS_BASIC_def buffered_def)
  next
    case 3
    then have enc: "u16_encode c = [U16_LEAD c, U16_TRAIL c]" by (simp add: u16_encode_def)
    have nxt: "src ! (length (utf16 pre) + 1) = U16_TRAIL c" "length (utf16 pre) + 1 < length src" by (auto simp: src enc nth_append)
    have lead: "\<not> IS_BASIC (U16_LEAD c)" "U_IS_SURROGATE (U16_LEAD c)" "U16_IS_LEAD (U16_LEAD c)" "U16_IS_TRAIL (U16_TRAIL c)"
      "U16_GET_SUPPLEMENTARY (U16_LEAD c) (U16_TRAIL c) = c"
      using supplementary_inverse [of c] 3 c10 lead_or_trail_surrogate [of "U16_LEAD c"]
      by (auto simp: IS_BASIC_def U16_LEAD_arith)
    have "srcLength = - 1 \<or> int (length (utf16 pre)) + 1 < srcLength" using len by (auto simp: enc)
    then show ?thesis using 3 IH unit more notfull nxt lead
      by (subst read_input.simps) (simp add: enc buffered_def)
  qed
qed

section \<open>The start of the decoder\<close>

lemma last_delimiter_none: "n \<le> length src \<Longrightarrow> 0x2d \<notin> set (take n src) \<Longrightarrow> last_delimiter src n = Some 0"
  by (induction n) (auto simp: take_Suc_conv_app_nth)

lemma last_delimiter_found:
  "take n src = bs @ 0x2d # xs \<Longrightarrow> 0x2d \<notin> set xs \<Longrightarrow> n \<le> length src \<Longrightarrow> last_delimiter src n = Some (length bs)"
proof (induction n arbitrary: xs)
  case (Suc n)
  have t: "take n src @ [src ! n] = bs @ 0x2d # xs" using Suc.prems by (simp add: take_Suc_conv_app_nth)
  have n: "n < length src" using Suc.prems by simp
  show ?case
  proof (cases xs rule: rev_cases)
    case Nil
    then have "take n src = bs" "src ! n = 0x2d" using t by auto
    then show ?thesis using n by auto
  next
    case (snoc ys y)
    then have "take n src @ [src ! n] = (bs @ 0x2d # ys) @ [y]" using t by simp
    then have "take n src = bs @ 0x2d # ys" "src ! n = y" by simp_all
    then show ?thesis using Suc.IH Suc.prems n snoc by auto
  qed
qed simp

lemma copy_basic_copies:
  "j \<le> length src \<Longrightarrow> capacity \<le> length dest \<Longrightarrow> \<forall>x \<in> set (take j src). x < 0x80 \<Longrightarrow>
   copy_basic src capacity j dest None = Some (Inr (take (min j capacity) src @ drop (min j capacity) dest, None))"
proof (induction j arbitrary: dest)
  case (Suc j)
  have b: "src ! j < 0x80" using Suc.prems by (auto simp: take_Suc_conv_app_nth)
  show ?case
  proof (cases "j < capacity")
    case True
    then have "drop j (dest[j := src ! j]) = src ! j # drop (Suc j) dest"
      using Suc.prems by (subst Cons_nth_drop_Suc [symmetric]) auto
    then show ?thesis
      using Suc.IH [of "dest[j := src ! j]"] Suc.prems b True by (simp add: IS_BASIC_def take_Suc_conv_app_nth min_def)
  next
    case False
    then show ?thesis using Suc.IH [of dest] Suc.prems b by (simp add: IS_BASIC_def take_Suc_conv_app_nth min_def)
  qed
qed simp

lemma copy_basic_rejects:
  "j \<le> length src \<Longrightarrow> \<not> (\<forall>x \<in> set (take j src). x < 0x80) \<Longrightarrow>
   \<exists>d. copy_basic src capacity j dest None = Some (Inl (U_INVALID_CHAR_FOUND, d, None)) \<and> length d = length dest \<and>
     drop capacity d = drop capacity dest"
proof (induction j arbitrary: dest)
  case (Suc j)
  show ?case
  proof (cases "src ! j < 0x80")
    case True
    then have "\<not> (\<forall>x \<in> set (take j src). x < 0x80)" using Suc.prems by (auto simp: take_Suc_conv_app_nth)
    then show ?thesis
      using Suc.IH [of dest] Suc.IH [of "dest[j := src ! j]"] Suc.prems True
      by (auto simp: IS_BASIC_def Let_def drop_update_cancel)
  qed (use Suc.prems in \<open>simp add: IS_BASIC_def\<close>)
qed simp

definition decoder_start :: "int list \<Rightarrow> int list \<Rightarrow> dec_state" where
  "decoder_start bs dest = \<lparr>d_n = 0x80, d_i = 0, d_bias = 72, d_dest = bs @ drop (length bs) dest, d_flags = None,
     d_len = length bs, d_cps = length bs, d_first = 1000000000\<rparr>"

text \<open>What the encoder writes before the first number.\<close>

definition basic_part :: "int list \<Rightarrow> int list" where
  "basic_part cs = (if basic cs = [] then [] else basic cs @ [0x2d])"

lemma fromPunycode_start:
  assumes "take n src = basic_part cs @ xs" "0x2d \<notin> set xs" "n \<le> length src" "length (basic cs) \<le> capacity" "capacity \<le> length dest"
  shows "u_strFromPunycode (Some src) (int n) (Some dest) (int capacity) None U_ZERO_ERROR =
    (case decode_loop src n True capacity (length (basic_part cs)) (decoder_start (basic cs) dest) of
       None \<Rightarrow> None
     | Some (Inl (e, st)) \<Rightarrow> Some (0, Some (d_dest st), d_flags st, e)
     | Some (Inr st) \<Rightarrow>
         (case u_terminateUChars (d_dest st) (int capacity) (d_len st) U_ZERO_ERROR of
            (d, ec) \<Rightarrow> Some (d_len st, Some d, d_flags st, ec)))"
proof -
  have del: "last_delimiter src n = Some (length (basic cs))"
    using last_delimiter_none [of n src] last_delimiter_found [of n src "basic cs" xs] assms(1-3)
    by (cases "basic cs = []") (auto simp: basic_part_def)
  have tk: "take (length (basic cs)) src = basic cs"
  proof (cases "basic cs = []")
    case False
    then have "take n src = basic cs @ 0x2d # xs" using assms(1) by (simp add: basic_part_def)
    then have "length (basic cs) \<le> n" "take (length (basic cs)) (take n src) = basic cs" using assms(3) by (metis length_append length_take le_add1 min.absorb2, simp)
    then show ?thesis by (simp only: take_take min.absorb1)
  qed simp
  have "length (basic cs) \<le> length src" using arg_cong [OF tk, of length] by simp
  moreover have "\<forall>x \<in> set (take (length (basic cs)) src). x < 0x80" unfolding tk by simp
  ultimately have "copy_basic src capacity (length (basic cs)) dest None = Some (Inr (basic cs @ drop (length (basic cs)) dest, None))"
    using copy_basic_copies [of "length (basic cs)" src capacity dest] assms(5) unfolding min.absorb1 [OF assms(4)] tk by blast
  moreover have "(if length (basic cs) > 0 then length (basic cs) + 1 else 0) = length (basic_part cs)"
    by (simp add: basic_part_def)
  ultimately show ?thesis
    by (simp add: u_strFromPunycode_def del decoder_start_def Let_def split: option.splits sum.splits)
qed

section \<open>The round trip\<close>

text \<open>The state in which the main loop starts, and the rest of \<open>u_strToPunycode\<close> from there.\<close>

definition loop_start :: "nat \<Rightarrow> int list \<Rightarrow> nat \<Rightarrow> enc_state" where
  "loop_start capacity d len = \<lparr>e_delta = 0, e_bias = 72, e_handled = len,
     e_dest = if 0 < len then put d capacity len 0x2d else d, e_len = if 0 < len then len + 1 else len\<rparr>"

lemma toPunycode_run:
  assumes "read_input s srcLength flags capacity 0 [] (case dest of None \<Rightarrow> [] | Some d \<Rightarrow> d) 0 = Some (Inr (cs, e, len))"
    "- 1 \<le> srcLength" "dest = None \<longrightarrow> capacity = 0"
  shows "u_strToPunycode (Some s) srcLength dest (int capacity) flags U_ZERO_ERROR =
    (case encode_loop cs len capacity 0x80 (loop_start capacity e len) of
       None \<Rightarrow> None
     | Some (Inl (e, d)) \<Rightarrow> Some (0, map_option (\<lambda>_. d) dest, e)
     | Some (Inr st) \<Rightarrow> (case u_terminateUChars (e_dest st) (int capacity) (e_len st) U_ZERO_ERROR of
         (d, ec) \<Rightarrow> Some (e_len st, map_option (\<lambda>_. d) dest, ec)))"
  using assms by (cases "0 < len") (auto simp: u_strToPunycode_def loop_start_def Let_def split: option.splits sum.splits prod.splits)

definition encoder_start :: "nat \<Rightarrow> int list \<Rightarrow> int list \<Rightarrow> enc_state" where
  "encoder_start capacity dest cs = \<lparr>e_delta = 0, e_bias = 72, e_handled = length (basic cs),
     e_dest = stored capacity dest (basic_part cs), e_len = length (basic_part cs)\<rparr>"

lemma toPunycode_start:
  assumes "input_text src srcLength cs" "list_all scalar_value cs" "length cs \<le> 200" "capacity \<le> length dest"
  shows "u_strToPunycode (Some src) srcLength (Some dest) (int capacity) None U_ZERO_ERROR =
    (case encode_loop (map buffered cs) (length (basic cs)) capacity 0x80 (encoder_start capacity dest cs) of
       None \<Rightarrow> None
     | Some (Inl (e, d)) \<Rightarrow> Some (0, Some d, e)
     | Some (Inr st) \<Rightarrow>
         (case u_terminateUChars (e_dest st) (int capacity) (e_len st) U_ZERO_ERROR of (d, ec) \<Rightarrow> Some (e_len st, Some d, ec)))"
proof -
  have "read_input src srcLength None capacity 0 [] dest 0 =
      Some (Inr (map buffered cs, stored capacity dest (basic cs), length (basic cs)))"
    using read_input_cps [of src srcLength "[]" cs capacity dest] assms by (simp add: stored_Nil)
  moreover have "srcLength \<ge> - 1" using assms(1) by (auto simp: input_text_def)
  moreover have "loop_start capacity (stored capacity dest (basic cs)) (length (basic cs)) = encoder_start capacity dest cs"
    using assms(4) by (simp add: loop_start_def encoder_start_def basic_part_def put_stored)
  ultimately show ?thesis using toPunycode_run [of src srcLength None capacity "Some dest"]
    by (simp split: option.split sum.split prod.split)
qed

definition setup_for :: "nat \<Rightarrow> int list \<Rightarrow> nat \<Rightarrow> int list \<Rightarrow> int list \<Rightarrow> sync_setup" where
  "setup_for capacity dest capacity2 dest2 cs = \<lparr>s_capacity = capacity, s_dest = dest, s_out0 = basic_part cs,
     s_basic = length (basic cs), s_dec_capacity = capacity2, s_dec = decoder_start (basic cs) dest2\<rparr>"

lemma sync_start:
  assumes "list_all scalar_value cs" "length (utf16 cs) \<le> capacity2" "capacity2 \<le> length dest2"
  shows "sync (setup_for capacity dest capacity2 dest2 cs) 0x80 [] cs (encoder_start capacity dest cs)"
proof -
  have b: "utf16 (basic cs) = basic cs" by (intro utf16_BMP) auto
  have "length (basic cs) \<le> capacity2" using length_utf16_filter [of "\<lambda>c. c < 0x80" cs] assms(2) unfolding b by linarith
  then have "dec_text capacity2 (decoder_start (basic cs) dest2) (basic cs)"
    using assms(3) b by (auto simp: dec_text_def decoder_start_def first_ok_def)
  then have "sync_at (setup_for capacity dest capacity2 dest2 cs) 0x80 (basic cs) 0 (encoder_start capacity dest cs) []
      (decoder_start (basic cs) dest2)"
    by (simp add: sync_at_def setup_for_def encoder_start_def reaches_def) (simp add: decoder_start_def)
  then show ?thesis by (auto simp: sync_def)
qed

lemma encode_then_decode:
  assumes "list_all scalar_value cs" "length cs \<le> 200" "capacity \<le> length dest"
    "length (utf16 cs) \<le> capacity2" "capacity2 \<le> length dest2"
  obtains st xs D where "encode_loop (map buffered cs) (length (basic cs)) capacity 0x80 (encoder_start capacity dest cs) = Some (Inr st)"
    "e_dest st = stored capacity dest (basic_part cs @ xs)" "e_len st = length (basic_part cs @ xs)"
    "\<forall>x \<in> set xs. 0 \<le> x \<and> x < 0x80 \<and> x \<noteq> 0x2d"
    "reaches capacity2 (length (basic_part cs)) (decoder_start (basic cs) dest2) (basic_part cs @ xs) D" "dec_text capacity2 D cs"
proof -
  let ?su = "setup_for capacity dest capacity2 dest2 cs"
  have "sync_input ?su cs" using assms by (simp add: sync_input_def setup_for_def)
  from encode_loop_sync [OF sync_start [OF assms(1,4,5)] this] obtain st n' xs D
    where "encode_loop (map buffered cs) (length (basic cs)) capacity 0x80 (encoder_start capacity dest cs) = Some (Inr st)"
      "sync_at ?su n' cs 0 st xs D" by (auto simp: setup_for_def)
  then show ?thesis using that by (auto simp: sync_at_def setup_for_def)
qed

text \<open>The status of \<open>u_terminateUChars\<close>.\<close>

definition capacity_status :: "nat \<Rightarrow> nat \<Rightarrow> UErrorCode" where
  "capacity_status len capacity =
     (if len < capacity then U_ZERO_ERROR else if len = capacity then U_STRING_NOT_TERMINATED_WARNING else U_BUFFER_OVERFLOW_ERROR)"

lemma u_terminateUChars_status:
  "u_terminateUChars dest (int capacity) len U_ZERO_ERROR = (if len < capacity then dest[len := 0] else dest, capacity_status len capacity)"
  by (simp add: u_terminateUChars_def capacity_status_def)

lemma u_terminateUChars_none: "u_terminateUChars dest 0 len U_ZERO_ERROR = (dest, capacity_status len 0)"
  by (simp add: u_terminateUChars_def capacity_status_def)

lemma fromPunycode_back:
  assumes "take n p = basic_part cs @ ys" "n = length (basic_part cs @ ys)" "n \<le> length p" "\<forall>x \<in> set ys. 0 \<le> x \<and> x < 0x80 \<and> x \<noteq> 0x2d"
    "reaches capacity (length (basic_part cs)) (decoder_start (basic cs) dest) (basic_part cs @ ys) D"
    "dec_text capacity D cs" "capacity \<le> length dest"
  shows "\<exists>d. u_strFromPunycode (Some p) (int n) (Some dest) (int capacity) None U_ZERO_ERROR =
       Some (length (utf16 cs), Some d, None, capacity_status (length (utf16 cs)) capacity) \<and> take (length (utf16 cs)) d = utf16 cs"
proof -
  have "decode_loop p n True capacity (length (basic_part cs)) (decoder_start (basic cs) dest) = decode_loop p n True capacity n D"
    using assms(1,3,5) unfolding reaches_def assms(2) by simp
  also have "\<dots> = Some (Inr D)" by (subst decode_loop.simps) simp
  finally have loop: "decode_loop p n True capacity (length (basic_part cs)) (decoder_start (basic cs) dest) = Some (Inr D)" .
  have "length (basic cs) \<le> capacity"
    using length_utf16_filter [of "\<lambda>c. c < 0x80" cs] utf16_BMP [of "basic cs"] assms(6) by (simp add: dec_text_def)
  moreover have "0x2d \<notin> set ys" using assms(4) by blast
  ultimately show ?thesis
    using fromPunycode_start [OF assms(1), of capacity dest] assms(3,6,7) loop
    by (auto simp: u_terminateUChars_status dec_text_def)
qed

lemma terminated_stored:
  assumes "capacity \<le> length dest" "length ys \<le> capacity"
  shows "take (length ys) (fst (u_terminateUChars (stored capacity dest ys) (int capacity) (length ys) U_ZERO_ERROR)) = ys"
    and "length ys \<le> length (fst (u_terminateUChars (stored capacity dest ys) (int capacity) (length ys) U_ZERO_ERROR))"
  using assms by (auto simp: u_terminateUChars_status stored_def)

text \<open>
  C37. A text of at most 200 scalar values, with its length or NUL-terminated, is always encoded, with the status that
  the capacity calls for; the output is ASCII, and when it fits, decoding it into any large enough array gives exactly
  the code units of the text.
\<close>

theorem punycode_roundtrip:
  assumes "input_text src srcLength cs" "list_all scalar_value cs" "length cs \<le> 200" "capacity \<le> length dest"
  shows "\<exists>n p. u_strToPunycode (Some src) srcLength (Some dest) (int capacity) None U_ZERO_ERROR = Some (n, Some p, capacity_status n capacity) \<and>
    (n \<le> capacity \<longrightarrow>
      (\<forall>u \<in> set (take n p). 0 \<le> u \<and> u < 0x80) \<and>
      (\<forall>capacity2 dest2. length (utf16 cs) \<le> capacity2 \<longrightarrow> capacity2 \<le> length dest2 \<longrightarrow>
        (\<exists>d. u_strFromPunycode (Some p) (int n) (Some dest2) (int capacity2) None U_ZERO_ERROR =
               Some (length (utf16 cs), Some d, None, capacity_status (length (utf16 cs)) capacity2) \<and>
             take (length (utf16 cs)) d = utf16 cs)))"
proof -
  obtain st xs where st: "encode_loop (map buffered cs) (length (basic cs)) capacity 0x80 (encoder_start capacity dest cs) = Some (Inr st)"
    "e_dest st = stored capacity dest (basic_part cs @ xs)" "e_len st = length (basic_part cs @ xs)" "\<forall>x \<in> set xs. 0 \<le> x \<and> x < 0x80 \<and> x \<noteq> 0x2d"
  proof (rule encode_then_decode [OF assms(2-4) order_refl])
    show "length (utf16 cs) \<le> length (replicate (length (utf16 cs)) 0)" by simp
  qed (rule that)
  define p where "p = fst (u_terminateUChars (e_dest st) (int capacity) (e_len st) U_ZERO_ERROR)"
  have enc: "u_strToPunycode (Some src) srcLength (Some dest) (int capacity) None U_ZERO_ERROR =
      Some (e_len st, Some p, capacity_status (e_len st) capacity)"
    using toPunycode_start [OF assms] st(1) by (simp add: u_terminateUChars_status p_def)
  have ascii: "\<forall>u \<in> set (take (e_len st) p). 0 \<le> u \<and> u < 0x80" if "e_len st \<le> capacity"
  proof -
    have "\<forall>u \<in> set (basic_part cs @ xs). 0 \<le> u \<and> u < 0x80"
      using st(4) assms(2) by (auto simp: basic_part_def list_all_iff scalar_value_def)
    moreover have "take (e_len st) p = basic_part cs @ xs"
      unfolding p_def st(2,3) by (rule terminated_stored(1) [OF assms(4)]) (use that st(3) in simp)
    ultimately show ?thesis by (simp only:)
  qed
  have dec: "\<exists>d. u_strFromPunycode (Some p) (int (e_len st)) (Some dest2) (int capacity2) None U_ZERO_ERROR =
      Some (length (utf16 cs), Some d, None, capacity_status (length (utf16 cs)) capacity2) \<and> take (length (utf16 cs)) d = utf16 cs"
    if fits: "e_len st \<le> capacity" and c2: "length (utf16 cs) \<le> capacity2" "capacity2 \<le> length dest2" for capacity2 dest2
  proof -
    obtain ys D where ys: "e_dest st = stored capacity dest (basic_part cs @ ys)" "e_len st = length (basic_part cs @ ys)"
      "\<forall>x \<in> set ys. 0 \<le> x \<and> x < 0x80 \<and> x \<noteq> 0x2d"
      "reaches capacity2 (length (basic_part cs)) (decoder_start (basic cs) dest2) (basic_part cs @ ys) D" "dec_text capacity2 D cs"
      using encode_then_decode [OF assms(2-4) c2] st(1) by (metis option.inject sum.inject(2))
    have "take (e_len st) p = basic_part cs @ ys" "e_len st \<le> length p"
      unfolding p_def ys(1,2) by (rule terminated_stored [OF assms(4)]; use fits ys(2) in simp)+
    then show ?thesis using fromPunycode_back ys(2-5) c2(2) by blast
  qed
  show ?thesis using enc ascii dec by blast
qed

theorem punycode_roundtrip_witness:
  "\<exists>p d. u_strToPunycode (Some [0x62, 0xfc, 0xd83d, 0xde00, 0]) (- 1) (Some (replicate 12 7)) 12 None U_ZERO_ERROR =
     Some (11, Some p, U_ZERO_ERROR) \<and>
   u_strFromPunycode (Some p) 11 (Some [0, 0, 0, 0]) 4 None U_ZERO_ERROR = Some (4, Some d, None, U_STRING_NOT_TERMINATED_WARNING) \<and>
   take 4 d = [0x62, 0xfc, 0xd83d, 0xde00]"
proof -
  have enc: "u_strToPunycode (Some [0x62, 0xfc, 0xd83d, 0xde00, 0]) (- 1) (Some (replicate 12 7)) 12 None U_ZERO_ERROR =
      Some (11, Some [98, 45, 101, 104, 97, 52, 57, 56, 53, 57, 97, 0], U_ZERO_ERROR)" by code_simp
  have units: "utf16 [0x62, 0xfc, 0x1f600] = [0x62, 0xfc, 0xd83d, 0xde00]"
    by (simp add: u16_encode_def U16_LEAD_arith U16_TRAIL_arith)
  then have "input_text [0x62, 0xfc, 0xd83d, 0xde00, 0] (- 1) [0x62, 0xfc, 0x1f600]" by (simp add: input_text_def)
  note inp = this
  have args: "list_all scalar_value [0x62, 0xfc, 0x1f600]" "length [0x62, 0xfc, 0x1f600 :: int] \<le> 200" "12 \<le> length (replicate 12 (7 :: int))"
    by (simp_all add: scalar_value_def)
  from punycode_roundtrip [OF inp args, unfolded units] obtain n p where r: "u_strToPunycode (Some [0x62, 0xfc, 0xd83d, 0xde00, 0]) (- 1) (Some (replicate 12 7)) (int 12) None U_ZERO_ERROR =
        Some (n, Some p, capacity_status n 12)"
      "n \<le> 12 \<Longrightarrow> length [0x62, 0xfc, 0xd83d, 0xde00 :: int] \<le> 4 \<Longrightarrow> 4 \<le> length [0, 0, 0, 0 :: int] \<Longrightarrow>
        \<exists>d. u_strFromPunycode (Some p) (int n) (Some [0, 0, 0, 0]) (int 4) None U_ZERO_ERROR =
          Some (length [0x62, 0xfc, 0xd83d, 0xde00 :: int], Some d, None, capacity_status (length [0x62, 0xfc, 0xd83d, 0xde00 :: int]) 4) \<and>
          take (length [0x62, 0xfc, 0xd83d, 0xde00 :: int]) d = [0x62, 0xfc, 0xd83d, 0xde00]"
    by blast
  have "n = 11" using r(1) enc by simp
  moreover have "length [0x62, 0xfc, 0xd83d, 0xde00 :: int] = 4" by simp
  ultimately show ?thesis using r by (simp only:) (simp add: capacity_status_def)
qed

section \<open>Rejected input\<close>

text \<open>The error of the first code point that the encoder does not accept: an unpaired surrogate, or one code point too many.\<close>

fun input_error :: "nat \<Rightarrow> int list \<Rightarrow> UErrorCode option" where
  "input_error k [] = None"
| "input_error 0 (c # cs) = Some U_INDEX_OUTOFBOUNDS_ERROR"
| "input_error (Suc k) (c # cs) = (if U_IS_SURROGATE c then Some U_INVALID_CHAR_FOUND else input_error k cs)"

lemma read_input_rejects:
  assumes "u16_text src" "j \<le> length src" "length buf \<le> 200" "input_error (200 - length buf) (code_points (drop j src)) = Some e"
  shows "\<exists>d. read_input src (int (length src)) None capacity j buf dest len = Some (Inl (e, d))"
  using assms(2-4)
proof (induction "length src - j" arbitrary: j buf dest len rule: less_induct)
  case less
  have j: "j < length src" using less.prems by (cases "j = length src") auto
  define c where "c = src ! j"
  have d: "drop j src = c # drop (j + 1) src" using j by (simp add: c_def Cons_nth_drop_Suc)
  have c: "0 \<le> c" "c \<le> 0xffff" using u16_text_nth [OF assms(1) j] by (auto simp: c_def)
  have more: "more_input src (int (length src)) j = Some True" using j by (simp add: more_input_def)
  show ?case
  proof (cases "length buf = 200")
    case True
    then show ?thesis using more j less.prems by (subst read_input.simps) (simp add: d code_points_Cons split: if_splits)
  next
    case False
    then have k: "200 - length buf = Suc (200 - length (buf @ [x]))" "length (buf @ [x]) \<le> 200" for x using less.prems by auto
    note step = read_input.simps [of src "int (length src)" None capacity j buf dest len]
    show ?thesis
    proof (cases "U_IS_SURROGATE c")
      case ns: False
      then have "\<not> U16_IS_LEAD c" using c lead_or_trail_surrogate by blast
      then have "input_error (200 - length (buf @ [x])) (code_points (drop (j + 1) src)) = Some e" for x
        using less.prems(3) ns by (simp add: d code_points_Cons k(1) [of x] del: length_append)
      then show ?thesis
        using less.hyps [of "j + 1" "buf @ [x]" for x] more j ns False k(2)
        by (subst step) (auto simp: c_def [symmetric] Let_def)
    next
      case sur: True
      then have nb: "\<not> IS_BASIC c" using c surrogate_range [of c] by (auto simp: IS_BASIC_def)
      show ?thesis
      proof (cases "U16_IS_LEAD c \<and> j + 1 < length src \<and> U16_IS_TRAIL (src ! (j + 1))")
        case True
        define s where "s = U16_GET_SUPPLEMENTARY c (src ! (j + 1))"
        have d2: "drop (j + 1) src = src ! (j + 1) # drop (j + 2) src" using True by (simp add: Cons_nth_drop_Suc)
        have cp: "code_points (drop j src) = s # code_points (drop (j + 2) src)" using True unfolding d d2 by (simp add: s_def)
        have "0x10000 \<le> s" "s \<le> 0x10ffff"
          using supplementary_range [of c "src ! (j + 1)"] True c u16_text_nth [OF assms(1), of "j + 1"] by (auto simp: s_def)
        then have "\<not> U_IS_SURROGATE s" using surrogate_range [of s] by auto
        then have "input_error (200 - length (buf @ [s])) (code_points (drop (j + 2) src)) = Some e"
          using less.prems(3) unfolding cp k(1) [of s] by simp
        then show ?thesis
          using less.hyps [of "j + 2" "buf @ [s]"] more j sur nb False k(2) True
          by (subst step) (auto simp: c_def [symmetric] s_def Let_def)
      next
        case no: False
        then have cp: "code_points (drop j src) = c # code_points (drop (j + 1) src)"
          unfolding d code_points_Cons [of c] by (auto simp: hd_drop_conv_nth)
        have "e = U_INVALID_CHAR_FOUND" using less.prems(3) sur unfolding cp k(1) [of 0] by simp
        then show ?thesis
          using more j sur nb False no by (subst step) (auto simp: c_def [symmetric] Let_def)
      qed
    qed
  qed
qed

text \<open>
  C39. The encoder reports an unpaired surrogate among the first 200 code points as \<open>U_INVALID_CHAR_FOUND\<close>, and a text
  of more than 200 code points as \<open>U_INDEX_OUTOFBOUNDS_ERROR\<close>, whichever it meets first, and returns 0.
\<close>

theorem punycode_rejects:
  assumes "u16_text src" "input_error 200 (code_points src) = Some e"
  shows "\<exists>d. u_strToPunycode (Some src) (int (length src)) (Some dest) (int capacity) None U_ZERO_ERROR = Some (0, Some d, e)"
  using read_input_rejects [of src 0 "[]" e capacity dest 0] assms by (auto simp: u_strToPunycode_def)

theorem punycode_rejects_witness:
  "\<exists>d. u_strToPunycode (Some [0x61, 0xd800]) 2 (Some [0, 0, 0]) 3 None U_ZERO_ERROR = Some (0, Some d, U_INVALID_CHAR_FOUND)"
  using punycode_rejects [of "[0x61, 0xd800]" U_INVALID_CHAR_FOUND "[0, 0, 0]" 3]
  by (simp add: U16_IS_LEAD_def U_IS_SURROGATE_def eval_nat_numeral)

section \<open>Decoding any input\<close>

text \<open>
  As long as the text fits, the destination holds well-formed UTF-16; when it does not fit, the length only grows.
\<close>

definition decoded_ok :: "nat \<Rightarrow> int list \<Rightarrow> dec_state \<Rightarrow> bool" where
  "decoded_ok capacity dest st =
     (length (d_dest st) = length dest \<and> drop capacity (d_dest st) = drop capacity dest \<and>
      0 \<le> d_i st \<and> d_i st \<le> int (d_cps st) \<and> 0 \<le> d_n st \<and> d_flags st = None \<and>
      (capacity < d_len st \<or> (\<exists>cs. dec_text capacity st cs \<and> list_all scalar_value cs)))"

lemma read_delta_increases:
  "read_delta src srcLength pos i w k bias = Some (Inr (pos', i')) \<Longrightarrow> 0 < w \<Longrightarrow> i \<le> i'"
proof (induction src srcLength pos i w k bias rule: read_delta.induct)
  case (1 src srcLength pos i w k bias)
  define digit where "digit = basicToDigit ! nat (src ! pos mod 256)"
  have t: "0 < 36 - threshold k bias" using threshold_range(2) [of k bias] by simp
  have "0 \<le> digit" "pos < srcLength" "pos < length src" "\<not> (0x7fffffff - i) sdiv w < digit" and
    r: "i' = i + digit * w \<or> \<not> digit < threshold k bias \<and> \<not> 0x7fffffff sdiv (36 - threshold k bias) < w \<and>
      read_delta src srcLength (pos + 1) (i + digit * w) (w * (36 - threshold k bias)) (k + 36) bias = Some (Inr (pos', i'))"
    using 1(2) by (subst (asm) read_delta.simps; auto simp: digit_def Let_def split: if_splits)+
  moreover from this have "0 \<le> digit * w" using 1(3) by simp
  moreover have "0 < w * (36 - threshold k bias)" using 1(3) t by simp
  ultimately have "i + digit * w \<le> i'" using 1(1) [OF _ _ digit_def _ _ refl refl] by auto
  then show ?case using \<open>0 \<le> digit * w\<close> by simp
qed

lemma decode_step_ok:
  assumes "decoded_ok capacity dest st" "d_cps st < 1000000000" "decode_step src srcLength True capacity pos st = Some (Inr (pos', st'))"
  shows "decoded_ok capacity dest st'" "d_cps st' = d_cps st + 1"
proof -
  obtain i where i: "read_delta src srcLength pos (d_i st) 1 36 (d_bias st) = Some (Inr (pos', i))"
    using assms(3) by (auto simp: decode_step_def Let_def split: option.splits sum.splits if_splits)
  define h where "h = int (d_cps st + 1)"
  have i0: "0 \<le> i" "0 < h" using read_delta_increases [OF i] assms(1) by (auto simp: decoded_ok_def h_def)
  define n p where "n = d_n st + i div h" and "p = i mod h"
  have n0: "0 \<le> n" using i0 assms(1) by (auto simp: n_def decoded_ok_def pos_imp_zdiv_nonneg_iff)
  have "0 \<le> p" "p < h" "h = int (d_cps st) + 1" using i0 by (auto simp: p_def h_def)
  then have p: "0 \<le> p" "p \<le> int (d_cps st)" by auto
  define st1 where "st1 = st\<lparr>d_n := n, d_i := p, d_bias := adaptBias (i - d_i st) h (d_i st = 0), d_cps := d_cps st + 1\<rparr>"
  define b where "b = src ! (pos' - 1)"
  have sd: "i sdiv h = i div h" "i smod h = p" using i0 by (simp_all add: signed_div_pos smod_pos p_def)
  have "n \<le> 0x10ffff" "\<not> U_IS_SURROGATE n" and
    st': "st' = (let s = if d_len st + U16_LENGTH n \<le> capacity then insert_cp b st1 else st1 in s\<lparr>d_len := d_len s + U16_LENGTH n, d_i := d_i s + 1\<rparr>)"
    using assms(3) unfolding decode_step_def i option.case sum.case prod.case Let_def h_def [symmetric] sd n_def [symmetric]
    by (auto simp: st1_def b_def split: if_splits)
  then have n: "scalar_value n" using n0 surrogate_range [of n] by (simp add: scalar_value_def)
  note f = insert_cp_fields [of st1 b]
  show "d_cps st' = d_cps st + 1" using n f by (simp add: st' st1_def Let_def)
  show "decoded_ok capacity dest st'"
  proof (cases "d_len st + U16_LENGTH n \<le> capacity")
    case False
    then show ?thesis using assms(1) n0 p by (simp add: st' decoded_ok_def st1_def)
  next
    case True
    then obtain cs where cs: "dec_text capacity st cs" "list_all scalar_value cs" using assms(1) by (auto simp: decoded_ok_def)
    have "st' = (insert_cp b st1)\<lparr>d_len := d_len st1 + U16_LENGTH (d_n st1), d_i := p + 1\<rparr>" using True n f by (simp add: st' st1_def)
    moreover have text1: "dec_text capacity (st1\<lparr>d_cps := length cs\<rparr>) cs" using cs by (auto simp: dec_text_def st1_def)
    have len: "d_cps st = length cs" using cs(1) by (simp add: dec_text_def)
    have s1: "nat (d_i st1) \<le> length cs" "scalar_value (d_n st1)" "d_len st1 + U16_LENGTH (d_n st1) \<le> capacity"
      "d_cps st1 = Suc (length cs)" "length cs < 1000000000" "d_i st1 = p" "d_n st1 = n" "d_dest st1 = d_dest st"
      using p n True len assms(2) by (auto simp: st1_def)
    note frame = insert_cp_frame [OF text1 cs(2) s1(5,1,2,3), of b]
    note text2 = insert_cp_text [OF text1 cs(2) s1(5,1,2,4,3), of "p + 1" b]
    ultimately have "length (d_dest st') = length dest" "drop capacity (d_dest st') = drop capacity dest"
        "dec_text capacity st' (take (nat p) cs @ n # drop (nat p) cs)"
      using frame text2 assms(1) s1(6-8) by (simp_all add: decoded_ok_def)
    moreover have "list_all scalar_value (take (nat p) cs @ n # drop (nat p) cs)"
      using cs(2) n by (auto simp: list_all_iff dest: in_set_takeD in_set_dropD)
    moreover have "d_i st' = p + 1" "d_n st' = n" "d_flags st' = None" "d_cps st' = d_cps st + 1"
      using True n f assms(1) by (auto simp: st' st1_def decoded_ok_def)
    ultimately show ?thesis using n0 p by (auto simp: decoded_ok_def)
  qed
qed

text \<open>The loops return when the source has the length that is given, and an error leaves the destination as it was.\<close>

lemma read_delta_returns: "srcLength \<le> length src \<Longrightarrow> read_delta src srcLength pos i w k bias \<noteq> None"
proof (induction src srcLength pos i w k bias rule: read_delta.induct)
  case (1 src srcLength pos i w k bias)
  then show ?case by (subst read_delta.simps) (auto simp: Let_def)
qed

lemma decode_step_returns:
  assumes "srcLength \<le> length src"
  shows "decode_step src srcLength hasDest capacity pos st \<noteq> None"
  using read_delta_returns [OF assms] by (auto simp: decode_step_def Let_def split: option.splits sum.splits)

lemma decode_step_error:
  "decode_step src srcLength hasDest capacity pos st = Some (Inl (e, st')) \<Longrightarrow> d_dest st' = d_dest st \<and> d_flags st' = d_flags st \<and> U_FAILURE e"
proof -
  have "read_delta src srcLength pos i w k bias = Some (Inl e) \<Longrightarrow> U_FAILURE e" for pos i w k bias
    by (induction src srcLength pos i w k bias rule: read_delta.induct)
      (subst (asm) read_delta.simps, auto simp: Let_def split: if_splits)
  then show "decode_step src srcLength hasDest capacity pos st = Some (Inl (e, st')) \<Longrightarrow> d_dest st' = d_dest st \<and> d_flags st' = d_flags st \<and> U_FAILURE e"
    by (auto simp: decode_step_def Let_def split: option.splits sum.splits if_splits)
qed

lemma decode_loop_returns:
  assumes "srcLength \<le> length src" "decoded_ok capacity dest st" "d_cps st + (srcLength - pos) < 1000000000"
  shows "(\<exists>st'. decode_loop src srcLength True capacity pos st = Some (Inr st') \<and> decoded_ok capacity dest st') \<or>
    (\<exists>e st'. decode_loop src srcLength True capacity pos st = Some (Inl (e, st')) \<and> U_FAILURE e \<and> d_flags st' = None \<and>
      length (d_dest st') = length dest \<and> drop capacity (d_dest st') = drop capacity dest)"
  using assms
proof (induction src srcLength True capacity pos st rule: decode_loop.induct)
  case (1 src srcLength capacity pos st)
  show ?case
  proof (cases "pos < srcLength")
    case True
    consider (ok) pos1 st1 where "decode_step src srcLength True capacity pos st = Some (Inr (pos1, st1))"
      | (err) e st1 where "decode_step src srcLength True capacity pos st = Some (Inl (e, st1))"
      using decode_step_returns [OF 1(2), of True capacity pos st] by (metis option.exhaust sum.exhaust surj_pair)
    then show ?thesis
    proof cases
      case ok
      have "d_cps st < 1000000000" using 1(4) by simp
      note st1 = decode_step_ok [OF 1(3) this ok]
      have "d_cps st1 + (srcLength - pos1) < 1000000000" using decode_step_advances [OF ok] 1(4) st1(2) by linarith
      then show ?thesis
        using 1(1) [OF True ok refl refl 1(2) st1(1)] True ok by (subst (1 2) decode_loop.simps) simp
    next
      case err
      then show ?thesis using decode_step_error [OF err] 1(3) True by (subst (1 2) decode_loop.simps) (simp add: decoded_ok_def)
    qed
  qed (use 1(3) in \<open>subst (1 2) decode_loop.simps, simp\<close>)
qed

lemma last_delimiter_returns: "n \<le> length src \<Longrightarrow> \<exists>j \<le> n. last_delimiter src n = Some j"
  by (induction n) (auto intro: le_SucI)

lemma decoded_ok_start:
  assumes "j \<le> n" "n \<le> length src" "capacity \<le> length dest" "\<forall>x \<in> set (take j src). x < 0x80" "u16_text (take j src)"
  shows "decoded_ok capacity dest \<lparr>d_n = 0x80, d_i = 0, d_bias = 72, d_dest = take (min j capacity) src @ drop (min j capacity) dest,
    d_flags = None, d_len = j, d_cps = j, d_first = 1000000000\<rparr>"
proof (cases "j \<le> capacity")
  case True
  have "utf16 (take j src) = take j src" using assms(4) by (intro utf16_BMP) auto
  moreover have "list_all scalar_value (take j src)" using assms(4,5) by (auto simp: list_all_iff scalar_value_def u16_text_def)
  moreover have "\<forall>x \<in> set (take j src). x \<le> 0xffff" using assms(4) by auto
  moreover have "length src + (capacity - length src) = capacity \<or> j < length src" using True assms(1,2) by auto
  moreover have "length (take j src) = j" "min j capacity = j" using True assms(1,2) by auto
  ultimately show ?thesis
    using True assms(3) by (auto simp: decoded_ok_def dec_text_def first_ok_def intro!: exI [of _ "take j src"])
qed (use assms in \<open>auto simp: decoded_ok_def\<close>)

text \<open>
  C38. Whatever code units it is given, the decoder returns, reads nothing outside the source and changes nothing of the
  array beyond the capacity; when it reports success, the text fits and is well-formed UTF-16.
\<close>

theorem fromPunycode_wellformed:
  assumes "u16_text src" "n \<le> length src" "n < 1000000000 div 2" "capacity \<le> length dest"
  shows "\<exists>len d ec. u_strFromPunycode (Some src) (int n) (Some dest) (int capacity) None U_ZERO_ERROR = Some (len, Some d, None, ec) \<and>
    length d = length dest \<and> drop capacity d = drop capacity dest \<and>
    (U_SUCCESS ec \<longrightarrow> len \<le> capacity \<and> (\<exists>cs. list_all scalar_value cs \<and> take len d = utf16 cs))"
proof -
  obtain j where j: "j \<le> n" "last_delimiter src n = Some j" using last_delimiter_returns [OF assms(2)] by blast
  show ?thesis
  proof (cases "\<forall>x \<in> set (take j src). x < 0x80")
    case False
    then show ?thesis using copy_basic_rejects [of j src capacity dest] j assms(2) by (auto simp: u_strFromPunycode_def Let_def)
  next
    case True
    let ?st = "\<lparr>d_n = 0x80, d_i = 0, d_bias = 72, d_dest = take (min j capacity) src @ drop (min j capacity) dest,
      d_flags = None, d_len = j, d_cps = j, d_first = 1000000000\<rparr>"
    have "decoded_ok capacity dest ?st" using decoded_ok_start [OF j(1) assms(2,4) True] assms(1) by (simp add: u16_text_take)
    then consider (ok) st where "decode_loop src n True capacity (if j > 0 then j + 1 else 0) ?st = Some (Inr st)" "decoded_ok capacity dest st"
      | (err) e st where "decode_loop src n True capacity (if j > 0 then j + 1 else 0) ?st = Some (Inl (e, st))" "U_FAILURE e" "d_flags st = None"
        "length (d_dest st) = length dest" "drop capacity (d_dest st) = drop capacity dest"
      using decode_loop_returns [OF assms(2), of capacity dest ?st "if j > 0 then j + 1 else 0"] j(1) assms(3) by force
    then show ?thesis
    proof cases
      case ok
      then show ?thesis
        using copy_basic_copies [of j src capacity dest] j assms(2,4) True
        by (auto simp: u_strFromPunycode_def Let_def u_terminateUChars_status capacity_status_def decoded_ok_def dec_text_def)
    next
      case err
      then show ?thesis
        using copy_basic_copies [of j src capacity dest] j assms(2,4) True by (simp add: u_strFromPunycode_def Let_def)
    qed
  qed
qed

theorem fromPunycode_wellformed_witness:
  "\<exists>len d ec. u_strFromPunycode (Some [0x6b, 0x76, 0x61]) 3 (Some [0, 0, 7]) 2 None U_ZERO_ERROR = Some (len, Some d, None, ec) \<and>
    length d = 3 \<and> d ! 2 = 7 \<and> (U_SUCCESS ec \<longrightarrow> len \<le> 2 \<and> (\<exists>cs. list_all scalar_value cs \<and> take len d = utf16 cs))"
proof -
  have t: "u16_text [0x6b, 0x76, 0x61]" "3 \<le> length [0x6b, 0x76, 0x61 :: int]" "(3 :: nat) < 1000000000 div 2"
    "2 \<le> length [0, 0, 7 :: int]" by simp_all
  obtain len d ec where e: "u_strFromPunycode (Some [0x6b, 0x76, 0x61]) (int 3) (Some [0, 0, 7]) (int 2) None U_ZERO_ERROR =
      Some (len, Some d, None, ec)"
    and d: "length d = length [0, 0, 7 :: int]" "drop 2 d = drop 2 [0, 0, 7]"
    and r: "U_SUCCESS ec \<longrightarrow> len \<le> 2 \<and> (\<exists>cs. list_all scalar_value cs \<and> take len d = utf16 cs)"
    using fromPunycode_wellformed [OF t] by blast
  have "d ! 2 = drop 2 d ! 0" using d(1) by simp
  then show ?thesis using e d r by auto
qed

section \<open>Preflighting\<close>

text \<open>Two encoder states that differ in the destination only.\<close>

definition same_but_dest :: "enc_state \<Rightarrow> enc_state \<Rightarrow> bool" where
  "same_but_dest st st' = (e_delta st = e_delta st' \<and> e_bias st = e_bias st' \<and> e_handled st = e_handled st' \<and> e_len st = e_len st')"

lemma write_delta_length: "snd (write_delta q k bias u dest capacity len) = len + length (delta_digits q k bias u)"
proof (induction q k bias u arbitrary: dest len rule: delta_digits.induct)
  case (1 q k bias u)
  then show ?case by (subst write_delta.simps, subst delta_digits.simps) (simp add: Let_def)
qed

lemma encode_pass_same:
  "same_but_dest st st' \<Longrightarrow> same_but_dest (encode_pass es n b c st) (encode_pass es n b c' st')"
proof (induction es arbitrary: st st')
  case (Cons e es)
  show ?case unfolding encode_pass.simps Let_def
    by (rule Cons.IH) (use Cons.prems in \<open>simp add: same_but_dest_def case_prod_unfold write_delta_length\<close>)
qed simp

fun same_result :: "((UErrorCode \<times> int list) + enc_state) option \<Rightarrow> ((UErrorCode \<times> int list) + enc_state) option \<Rightarrow> bool" where
  "same_result (Some (Inl (e, d))) (Some (Inl (e', d'))) = (e = e' \<and> e = U_INTERNAL_PROGRAM_ERROR)"
| "same_result (Some (Inr st)) (Some (Inr st')) = same_but_dest st st'"
| "same_result x y = (x = y)"

lemma encode_loop_same:
  "same_but_dest st st' \<Longrightarrow> same_result (encode_loop es b c n st) (encode_loop es b c' n st')"
proof (induction es b c n st arbitrary: st' rule: encode_loop.induct)
  case (1 es b c n st)
  define m where "m = next_n es n"
  have eq: "e_handled st' = e_handled st" "e_delta st' = e_delta st" using 1(2) by (auto simp: same_but_dest_def)
  define bad where "bad = (m - n > (0x7fffffff - int 200 - e_delta st) sdiv (int (e_handled st) + 1))"
  let ?s = "\<lambda>c st. let s = encode_pass es m b c (st\<lparr>e_delta := e_delta st + (m - n) * (int (e_handled st) + 1)\<rparr>) in s\<lparr>e_delta := e_delta s + 1\<rparr>"
  have "same_but_dest (st\<lparr>e_delta := e_delta st + (m - n) * (int (e_handled st) + 1)\<rparr>)
      (st'\<lparr>e_delta := e_delta st' + (m - n) * (int (e_handled st') + 1)\<rparr>)" using 1(2) by (simp add: same_but_dest_def)
  from encode_pass_same [OF this, of es m b c c'] have nxt: "same_but_dest (?s c st) (?s c' st')"
    by (simp add: same_but_dest_def Let_def)
  show ?case
  proof (cases "e_handled st < length es \<and> \<not> bad \<and> m \<noteq> 0x7fffffff")
    case True
    then have "encode_loop es b c n st = encode_loop es b c (m + 1) (?s c st)" "encode_loop es b c' n st' = encode_loop es b c' (m + 1) (?s c' st')"
      by (subst encode_loop.simps; simp add: Let_def m_def [symmetric] bad_def eq)+
    then show ?thesis using 1(1) [OF _ m_def _ _ refl refl] nxt True by (simp add: bad_def Let_def)
  next
    case False
    then show ?thesis using 1(2)
      by (subst (1 2) encode_loop.simps) (auto simp: Let_def m_def [symmetric] bad_def eq)
  qed
qed

fun same_input :: "((UErrorCode \<times> int list) + int list \<times> int list \<times> nat) option \<Rightarrow> ((UErrorCode \<times> int list) + int list \<times> int list \<times> nat) option \<Rightarrow> bool" where
  "same_input (Some (Inl (e, d))) (Some (Inl (e', d'))) = (e = e' \<and> e \<in> {U_INDEX_OUTOFBOUNDS_ERROR, U_INVALID_CHAR_FOUND})"
| "same_input (Some (Inr (cs, d, n))) (Some (Inr (cs', d', n'))) = (cs = cs' \<and> n = n')"
| "same_input x y = (x = y)"

lemma read_input_same:
  "same_input (read_input src srcLength flags c j buf d n) (read_input src srcLength flags c' j buf d' n)"
proof (induction src srcLength flags c j buf d n arbitrary: d' rule: read_input.induct)
  case (1 src srcLength flags c j buf d n)
  show ?case
  proof (cases "more_input src srcLength j = Some True \<and> length buf \<noteq> 200 \<and> j < length src \<and> (case flags of None \<Rightarrow> True | Some f \<Rightarrow> j < length f)")
    case False
    then show ?thesis by (subst (1 2) read_input.simps) (auto split: option.splits bool.splits)
  next
    case True
    then have g: "more_input src srcLength j = Some True" "length buf \<noteq> 200" "j < length src"
      "\<not> (\<not> j < length src \<or> (case flags of None \<Rightarrow> False | Some f \<Rightarrow> \<not> j < length f))" by (auto split: option.splits)
    note IH = 1 [OF g(1) refl g(2,4) refl refl]
    show ?thesis
      using g IH(1) IH(2) [OF _ refl] IH(3) [OF _ refl]
      by (subst (1 2) read_input.simps) (auto simp: Let_def numeral_2_eq_2)
  qed
qed

text \<open>
  C40. Without a destination the encoder computes the length: with any array it returns the same length, and the status
  that the capacity calls for, or the same error.
\<close>

theorem punycode_preflight:
  assumes "u_strToPunycode src srcLength None 0 flags U_ZERO_ERROR = Some (n, None, ec)"
  shows "\<exists>d. u_strToPunycode src srcLength (Some dest) (int capacity) flags U_ZERO_ERROR =
    Some (n, Some d, if ec \<in> {U_BUFFER_OVERFLOW_ERROR, U_STRING_NOT_TERMINATED_WARNING} then capacity_status n capacity else ec)"
proof (cases "src = None \<or> srcLength < - 1")
  case True
  then show ?thesis using assms by (auto simp: u_strToPunycode_def)
next
  case False
  then obtain s where src: "src = Some s" by auto
  have inp: "same_input (read_input s srcLength flags 0 0 [] [] 0) (read_input s srcLength flags capacity 0 [] dest 0)"
    by (rule read_input_same)
  show ?thesis
  proof (cases "read_input s srcLength flags 0 0 [] [] 0")
    case None
    then show ?thesis using assms False by (simp add: u_strToPunycode_def src)
  next
    case (Some r)
    show ?thesis
    proof (cases r)
      case (Inl e)
      then show ?thesis using assms False inp Some
        by (cases e; cases "read_input s srcLength flags capacity 0 [] dest 0") (auto simp: u_strToPunycode_def src elim!: same_input.elims)
    next
      case (Inr x)
      then obtain cs d len d' where r: "read_input s srcLength flags 0 0 [] [] 0 = Some (Inr (cs, d, len))"
        "read_input s srcLength flags capacity 0 [] dest 0 = Some (Inr (cs, d', len))"
        using inp Some by (cases x; cases "read_input s srcLength flags capacity 0 [] dest 0") (auto elim!: same_input.elims)
      have "same_result (encode_loop cs len 0 0x80 (loop_start 0 d len)) (encode_loop cs len capacity 0x80 (loop_start capacity d' len))"
        by (rule encode_loop_same) (simp add: same_but_dest_def loop_start_def)
      then show ?thesis
        using assms False toPunycode_run [of s srcLength flags 0 None cs d len] toPunycode_run [of s srcLength flags capacity "Some dest" cs d' len] r
        by (auto simp: src u_terminateUChars_status u_terminateUChars_none capacity_status_def same_but_dest_def elim!: same_result.elims
            split: option.splits sum.splits)
    qed
  qed
qed

theorem punycode_preflight_witness:
  "\<exists>d. u_strToPunycode (Some [0x62, 0xfc]) 2 (Some [0, 0, 0, 0, 0, 0, 0]) 7 None U_ZERO_ERROR = Some (5, Some d, U_ZERO_ERROR)"
proof -
  have "u_strToPunycode (Some [0x62, 0xfc]) 2 None 0 None U_ZERO_ERROR = Some (5, None, U_BUFFER_OVERFLOW_ERROR)" by code_simp
  from punycode_preflight [OF this, of "[0, 0, 0, 0, 0, 0, 0]" 7] show ?thesis by (simp add: capacity_status_def)
qed

section \<open>Units that are not basic\<close>

text \<open>The decoder looks at the low bytes of the units after the delimiter only.\<close>

definition same_low_bytes :: "nat \<Rightarrow> nat \<Rightarrow> UChar list \<Rightarrow> UChar list \<Rightarrow> bool" where
  "same_low_bytes pos n src src' = (length src = length src' \<and> (\<forall>k. pos \<le> k \<longrightarrow> k < n \<longrightarrow> src ! k mod 256 = src' ! k mod 256))"

lemma same_low_bytes_mono: "same_low_bytes pos n src src' \<Longrightarrow> pos \<le> pos' \<Longrightarrow> same_low_bytes pos' n src src'"
  by (simp add: same_low_bytes_def)

lemma read_delta_low:
  "same_low_bytes pos n src src' \<Longrightarrow> read_delta src n pos i w k bias = read_delta src' n pos i w k bias"
proof (induction src n pos i w k bias rule: read_delta.induct)
  case (1 src n pos i w k bias)
  show ?case
  proof (cases "pos < n")
    case True
    then have "src ! pos mod 256 = src' ! pos mod 256" "length src = length src'" using 1(2) by (auto simp: same_low_bytes_def)
    then show ?thesis
      using 1(1) [OF _ _ refl _ _ refl refl] same_low_bytes_mono [OF 1(2), of "pos + 1"]
      by (subst (1 2) read_delta.simps) (simp add: Let_def)
  qed (subst (1 2) read_delta.simps, simp)
qed

lemma decode_step_low:
  assumes "same_low_bytes pos n src src'" "d_flags st = None"
  shows "decode_step src n hasDest capacity pos st = decode_step src' n hasDest capacity pos st"
    and "decode_step src n hasDest capacity pos st = Some (Inr (pos', st')) \<Longrightarrow> d_flags st' = None"
proof -
  show "decode_step src n hasDest capacity pos st = decode_step src' n hasDest capacity pos st"
    unfolding decode_step_def read_delta_low [OF assms(1)] using assms(2)
    by (auto simp: insert_cp_def Let_def case_prod_unfold split: option.split sum.split)
  show "decode_step src n hasDest capacity pos st = Some (Inr (pos', st')) \<Longrightarrow> d_flags st' = None"
    using assms(2) by (auto simp: decode_step_def insert_cp_def Let_def case_prod_unfold split: option.splits sum.splits if_splits)
qed

lemma decode_loop_low:
  "same_low_bytes pos n src src' \<Longrightarrow> d_flags st = None \<Longrightarrow>
   decode_loop src n hasDest capacity pos st = decode_loop src' n hasDest capacity pos st"
proof (induction src n hasDest capacity pos st rule: decode_loop.induct)
  case (1 src n hasDest capacity pos st)
  have "same_low_bytes pos1 n src src' \<and> d_flags st1 = None" if "decode_step src n hasDest capacity pos st = Some (Inr (pos1, st1))" for pos1 st1
    using decode_step_advances [OF that] same_low_bytes_mono [OF 1(2)] decode_step_low(2) [OF 1(2,3) that] by simp
  then show ?case
    using 1(1) decode_step_low(1) [OF 1(2,3), of hasDest capacity]
    by (subst (1 2) decode_loop.simps) (auto split: option.split sum.split)
qed

lemma copy_basic_cong:
  "take j src = take j src' \<Longrightarrow> length src = length src' \<Longrightarrow> copy_basic src capacity j dest f = copy_basic src' capacity j dest f"
proof (induction j arbitrary: dest f)
  case (Suc j)
  then have "j < length src \<Longrightarrow> src ! j = src' ! j" "take j src = take j src'"
    by (metis lessI nth_take) (metis Suc.prems(1) min.absorb1 lessI less_imp_le take_take)
  then show ?case using Suc by (simp add: Let_def)
qed simp

lemma copy_basic_no_flags: "copy_basic src capacity j dest None = Some (Inr (d, f)) \<Longrightarrow> f = None"
  by (induction j arbitrary: dest) (auto simp: Let_def split: if_splits)

text \<open>
  The table of digits is indexed with the low byte of a unit, so that units above U+00FF are taken for the basic code
  point with the same low byte: the label ends in U+0161 in the example, and is decoded as if it ended in an a.
\<close>

theorem fromPunycode_reads_low_bytes:
  assumes "same_low_bytes j n src src'" "last_delimiter src n = Some j" "last_delimiter src' n = Some j" "take j src = take j src'"
  shows "u_strFromPunycode (Some src) (int n) (Some dest) capacity None U_ZERO_ERROR =
    u_strFromPunycode (Some src') (int n) (Some dest) capacity None U_ZERO_ERROR"
proof -
  have "length src = length src'" using assms(1) by (simp add: same_low_bytes_def)
  note copy = copy_basic_cong [OF assms(4) this]
  have "decode_loop src n b c (if j > 0 then j + 1 else 0) \<lparr>d_n = 0x80, d_i = 0, d_bias = 72, d_dest = d, d_flags = None, d_len = j, d_cps = j, d_first = 1000000000\<rparr> =
      decode_loop src' n b c (if j > 0 then j + 1 else 0) \<lparr>d_n = 0x80, d_i = 0, d_bias = 72, d_dest = d, d_flags = None, d_len = j, d_cps = j, d_first = 1000000000\<rparr>" for b c d
    by (rule decode_loop_low) (use assms(1) in \<open>auto intro: same_low_bytes_mono\<close>)
  note loop = this
  show ?thesis
  proof (cases "copy_basic src' (nat capacity) j dest None")
    case (Some r)
    show ?thesis
    proof (cases r)
      case (Inr x)
      then obtain d where "x = (d, None)" using Some copy_basic_no_flags by (cases x) blast
      then show ?thesis using assms(2,3) Some Inr loop by (cases "0 < j") (simp_all add: u_strFromPunycode_def Let_def copy)
    qed (use assms(2,3) Some in \<open>simp add: u_strFromPunycode_def Let_def copy\<close>)
  qed (use assms(2,3) in \<open>simp add: u_strFromPunycode_def Let_def copy\<close>)
qed

theorem fromPunycode_reads_low_bytes_witness:
  "u_strFromPunycode (Some [0x62, 0x63, 0x68, 0x65, 0x72, 0x2d, 0x6b, 0x76, 0x161]) 9 (Some [0, 0, 0, 0, 0, 0]) 6 None U_ZERO_ERROR =
   u_strFromPunycode (Some [0x62, 0x63, 0x68, 0x65, 0x72, 0x2d, 0x6b, 0x76, 0x61]) 9 (Some [0, 0, 0, 0, 0, 0]) 6 None U_ZERO_ERROR"
  using fromPunycode_reads_low_bytes [of 5 9 "[0x62, 0x63, 0x68, 0x65, 0x72, 0x2d, 0x6b, 0x76, 0x161]" "[0x62, 0x63, 0x68, 0x65, 0x72, 0x2d, 0x6b, 0x76, 0x61]"]
  by (simp add: same_low_bytes_def eval_nat_numeral less_Suc_eq all_conj_distrib imp_conjR)



end
