(* ===== verification/Spec2Isabelle.thy ===== *)
theory Spec2Isabelle
  imports Prelude UVector InversionList BMPSet Utf16 StringSet UnicodeSet UnicodeSetProps
    UnicodeSetQueries BMPSetProps BMPSpan UnicodeSetFreeze CharIterator Serialize UHash UHashProbe UHashProps UHashMap Utf8 Utf8Props Utf8Text Double Grego GregoProps ArraySort ArraySortProps
    Punycode PunycodeSync PunycodeProps
begin

text \<open>
  A verification development for the core of ICU4C.

  ICU is a library of Unicode and globalisation services in C and C++.  Its services (regular expressions, collation,
  transliteration, text boundaries, formatting) stand on a small core of data structures and text access, and this
  core is what the development models: sets of code points, vectors and hash tables, UTF-16 and UTF-8 access,
  iteration over text, sorting, Punycode and the arithmetic of the calendar.  All sources are below \<open>src/source\<close>.

  \<^bold>\<open>Parts, and how they depend on each other.\<close>

  \<^item> \<open>Prelude\<close>: status codes, the allocator as an oracle argument (\<open>alloc\<close>, from the number of bytes to
    success), array-shifting loops, bit operations as division and remainder.
  \<^item> \<open>UVector\<close> (\<open>common/uvector.cpp\<close>, \<open>common/ustack.cpp\<close>): the growable array that owns its elements through a
    deleter.  The record's fields are the class's; the field \<open>freed\<close> logs what the deleter was called on.
    \<open>ArraySort\<close> (\<open>common/uarrsort.c\<close>) is the sort its methods \<open>sort\<close>, \<open>sorti\<close> and
    \<open>sortWithUComparator\<close> call; \<open>ArraySortProps\<close> proves it in the locale \<open>comparator_on\<close>, the contract of a
    \<open>UComparator\<close>, which the comparators of the code interpret.
  \<^item> \<open>InversionList\<close> (\<open>common/uniset.cpp\<close>): sets of code points as sorted lists of range boundaries, the three
    merge loops \<open>exclusiveOr\<close>, \<open>add\<close>, \<open>retain\<close> and the binary search.  \<open>StringSet\<close> (\<open>common/unistr.cpp\<close>):
    the comparisons that make a \<open>UVector\<close> a sorted set of strings.  \<open>UnicodeSet\<close>, \<open>UnicodeSetProps\<close> and
    \<open>UnicodeSetQueries\<close>: the class \<open>UnicodeSet\<close> on top of both, with its buffers, its bogus state after refused
    allocations and its frozen state.
  \<^item> \<open>BMPSet\<close>, \<open>BMPSetProps\<close>, \<open>BMPSpan\<close> (\<open>common/bmpset.cpp\<close>): the bit tables of a frozen set, kept as
    32-bit words.  \<open>UnicodeSetFreeze\<close> connects them to \<open>UnicodeSet::freeze\<close>.
  \<^item> \<open>Serialize\<close> (\<open>common/uniset.cpp\<close>, \<open>common/uset.cpp\<close>): the 16-bit serialized form of a set, written by
    \<open>UnicodeSet::serialize\<close> and read in place by \<open>uset_getSerializedSet\<close> and its queries.
  \<^item> \<open>UHash\<close>, \<open>UHashProbe\<close>, \<open>UHashProps\<close>, \<open>UHashMap\<close> (\<open>common/uhash.c\<close>): open addressing with double hashing;
    the contract of hash function and comparator is a locale that the key functions of the code interpret, and the
    table refines a partial map.
  \<^item> \<open>Utf16\<close> (\<open>common/unicode/utf16.h\<close>, \<open>common/unistr.cpp\<close>) and \<open>Utf8\<close>, \<open>Utf8Props\<close>, \<open>Utf8Text\<close>
    (\<open>common/unicode/utf8.h\<close>, \<open>common/utf_impl.c\<close>): the text access macros, each as a function from text and
    index to the value and the new index.  \<open>CharIterator\<close> (\<open>common/chariter.cpp\<close>, \<open>common/uchriter.cpp\<close>): the
    iterator over UTF-16 text built on them.
  \<^item> \<open>Punycode\<close>, \<open>PunycodeSync\<close>, \<open>PunycodeProps\<close> (\<open>common/punycode.cpp\<close>): the ASCII encoding of Unicode labels,
    on the UTF-16 macros.
  \<^item> \<open>Double\<close>, \<open>Grego\<close>, \<open>GregoProps\<close> (\<open>i18n/gregoimp.cpp\<close>, \<open>i18n/gregoimp.h\<close>): the proleptic Gregorian
    calendar behind calendars and time zones, on 32-bit integers and rounded floating-point numbers.

  \<^bold>\<open>How the code is modelled.\<close>  A class is a record, an operation a function that returns the updated record and
  the status code; one definition per function of the source, with its guards and early returns in the order of the
  code.  An array is a list; a read or write outside it, an undefined overflow or a loop without end is the value
  \<open>None\<close> or an error constructor, so that a theorem that a function returns \<open>Some\<close> excludes it.  Integers that
  the code keeps in range by checks are HOL integers with the checks written out; where a 32-bit sum, product or negation is not
  checked and an argument can make it overflow, it is wrapped to its two's complement value (\<open>wrap_int32\<close>) or is no
  result; bit tables are 32-bit words;
  \<open>double\<close> values are rationals rounded to 53 bits after each operation.  Memory is modelled by the answers of the
  allocator, which are universally quantified in the theorems; \<open>memcpy\<close> and pointer arithmetic on item arrays are
  \<open>take\<close>, \<open>drop\<close> and \<open>@\<close>.

  \<^bold>\<open>What the theorems show.\<close>  For sets: the operations with another set compute the set operation they are named after
  on code points and strings, or end in the bogus state after a refused allocation (\<open>addAll_union\<close>,
  \<open>retainAll_inter\<close>, \<open>removeAll_diff\<close>, \<open>complementAll_xor\<close>); those with a range or a code point do so
  for the code points and say what happens to the strings (\<open>range_operations\<close>, \<open>add_cp_insert\<close>); the queries agree with the
  set (\<open>eq_set_equality\<close>, \<open>indexOf_charAt\<close>, \<open>containsAll_subset\<close>); freezing changes only the representation, and
  the mutators that test for it leave a frozen set alone
  (\<open>freeze_spec\<close>, \<open>BMPSet_contains_equiv\<close>, \<open>frozen_spans\<close>, \<open>frozen_unchanged\<close>); the serialized form reads
  back (\<open>serialize_roundtrip\<close>, \<open>serialize_preflight\<close>).  For the hash table: it simulates a partial map
  (\<open>hashtable_simulates_map\<close>, \<open>put_refines_map\<close>, \<open>remove_get_refine_map\<close>).  For vectors and arrays: insertion,
  retention, sorted insertion and sorting do what they say (\<open>insertElementAt_spec\<close>, \<open>retainAll_spec\<close>,
  \<open>sortedInsert_spec\<close>, \<open>sortArray_sorts\<close>, \<open>stableBinarySearch_spec\<close>, \<open>UVector_sorts\<close>).  For text: reading
  and writing are inverse and safe on ill-formed text (\<open>utf16_roundtrip\<close>, \<open>utf8_iteration\<close>, \<open>utf8_roundtrip\<close>,
  \<open>moveIndex32_spec\<close>, \<open>iterator_invariant\<close>, \<open>iterator_enumerates\<close>).  For Punycode: decoding inverts encoding, the
  decoder yields well-formed text or an error on any input, errors and preflighted lengths are as documented
  (\<open>punycode_roundtrip\<close>, \<open>fromPunycode_wellformed\<close>, \<open>punycode_rejects\<close>, \<open>punycode_preflight\<close>).  For the calendar: dates and day numbers
  are in bijection without overflow (\<open>grego_roundtrip\<close>, \<open>grego_counts_days\<close>, \<open>grego_time_fields\<close>,
  \<open>julian_millis_roundtrip\<close>).  Defects found on the way are theorems too: \<open>pop_returns_deleted\<close>,
  \<open>serializedContains_diverges\<close>, \<open>removeAllStrings_mutates_frozen\<close>, \<open>shrink_after_failures_crashes\<close>,
  \<open>uhash_equals_spec\<close>, \<open>int32Comparator_overflows\<close>, \<open>stableBinarySearch_overflows\<close>,
  \<open>fromPunycode_reads_low_bytes\<close>, \<open>removeAll_self_keeps\<close>, \<open>getSerializedRange_overflows\<close>,
  \<open>move_wraps\<close>, \<open>next_wraps\<close>.

  \<^bold>\<open>Bounds and fuel.\<close>  The searches in serialized sets take fuel; \<open>serialize_roundtrip\<close> says that fuel equal to the
  length of the list of the set gives every answer about a part of the code points that the list has entries for, and \<open>serializedContains_diverges\<close> that no fuel does for the inputs on
  which the code loops.  The probe loop of the hash table takes its fuel from the number of slots, which the lemmas
  on double hashing over a prime show to be enough.  The quicksort is a partial function whose termination on ordered
  items is part of \<open>sortArray_sorts\<close>, which, like the binary search, is stated for arrays whose byte offsets fit in
  32 bits.  All other loops are total functions.  The simulation of a map is stated for
  131070 operations, up to which the table has one of the fifteen smaller sizes whose primality is proved here (the
  code has 28); the calendar for the Julian days the header of the code declares as supported.

  \<^bold>\<open>Not modelled.\<close>  \<open>UnicodeSet\<close>: patterns (\<open>toPattern\<close>, \<open>applyPattern\<close>), which need the symbol table and the
  property data, and the spans with strings of \<open>unisetspan.cpp\<close>; \<open>BMPSet\<close>: the spans over UTF-8; the C wrappers
  \<open>uset_*\<close>.  The converters, normalisation, case mapping, break iteration, bidi, collation, regular expressions,
  transliteration, formatting, calendars beyond \<open>Grego\<close>, resource bundles and locales: they are driven by data
  tables that are generated when ICU is built and are not part of the sources.  The layout engine, the I/O library,
  the tools, samples and tests are not part of the core.
\<close>

end
